(* ===== verification/Prelude.thy ===== *)
theory Prelude
  imports Main "HOL-Library.AList" "HOL-Library.Sublist" "HOL-Library.List_Lexorder"
    "HOL-Library.Char_ord"
begin

text \<open>
  What the components of the development share: the exceptions of the Python code as a datatype,
  computations that may raise as a sum (\<open>Inl\<close> the exception), loops over them, Python
  dictionaries as association lists with distinct keys, and the operations on vpath strings
  (\<open>split\<close>, \<open>rsplit\<close>, \<open>rstrip\<close>, \<open>startswith\<close>) the code uses.
\<close>

named_theorems frame_simps "fields an operation leaves alone"
named_theorems store_simps "what a lookup in the model table returns after an operation"
named_theorems res_simps "decomposition of computations that may raise"

section \<open>Exceptions and computations that may raise\<close>

datatype exn =
    KeyError string
  | ValueError string
  | TypeError string
  | AttributeError string
  | IndexError
  | RuntimeError string
  | ModelManagerException string
  | PlanStateError string string
  | DuplicateChildTypeException string
  | GenericException string
  | CyclicGraphException "(string \<times> string list) list"
  | TaskValidationException string "string list"
  | NonUniqueTaskException string
  | NodeLockException string
  | ViewError string
  | EmptyPlanException
  | StopIteration
  | PluginError string
  | SnapshotError string
  | NoMatchingActionError string
  | NoSnapshotItemError string

type_synonym 'a res = "exn + 'a"

fun rbind :: "'a res \<Rightarrow> ('a \<Rightarrow> 'b res) \<Rightarrow> 'b res" where
  "rbind (Inl e) f = Inl e"
| "rbind (Inr a) f = f a"

lemma rbind_cong [fundef_cong]:
  "m = m' \<Longrightarrow> (\<And>a. m' = Inr a \<Longrightarrow> f a = g a) \<Longrightarrow> rbind m f = rbind m' g"
  by (cases m') auto

lemma rbind_Inr_iff [res_simps]: "rbind m f = Inr b \<longleftrightarrow> (\<exists>a. m = Inr a \<and> f a = Inr b)"
  by (cases m) auto

lemma rbind_Inl_iff:
  "rbind m f = Inl e \<longleftrightarrow> m = Inl e \<or> (\<exists>a. m = Inr a \<and> f a = Inl e)"
  by (cases m) auto

lemma rbind_assoc: "rbind (rbind m f) g = rbind m (\<lambda>a. rbind (f a) g)"
  by (cases m) auto

text \<open>A \<open>for\<close> loop over a list whose body may raise, threading a state.\<close>

fun for_res :: "('a \<Rightarrow> 's \<Rightarrow> 's res) \<Rightarrow> 'a list \<Rightarrow> 's \<Rightarrow> 's res" where
  "for_res f [] s = Inr s"
| "for_res f (x # xs) s = rbind (f x s) (for_res f xs)"

lemma for_res_cong [fundef_cong]:
  "xs = ys \<Longrightarrow> s = t \<Longrightarrow> (\<And>x u. x \<in> set ys \<Longrightarrow> f x u = g x u) \<Longrightarrow> for_res f xs s = for_res g ys t"
proof (induction xs arbitrary: ys s t)
  case (Cons x xs)
  then show ?case by (cases "g x t") auto
qed auto

lemma for_res_append:
  "for_res f (xs @ ys) s = rbind (for_res f xs s) (for_res f ys)"
proof (induction xs arbitrary: s)
  case (Cons x xs)
  then show ?case by (cases "f x s") auto
qed auto

text \<open>An invariant kept by every iteration that does not raise is kept by the loop.\<close>

lemma for_res_invariant:
  assumes "for_res f xs s = Inr t" and "P s"
    and "\<And>x u v. x \<in> set xs \<Longrightarrow> P u \<Longrightarrow> f x u = Inr v \<Longrightarrow> P v"
  shows "P t"
  using assms
proof (induction xs arbitrary: s)
  case (Cons x xs)
  from Cons.prems(1) obtain u where u: "f x s = Inr u" and rest: "for_res f xs u = Inr t"
    by (auto simp: rbind_Inr_iff)
  have "P u" using Cons.prems u by auto
  with rest show ?case using Cons.prems(3) by (intro Cons.IH [of u]) auto
qed simp

text \<open>A preorder respected by every iteration is respected by the loop.\<close>

lemma for_res_preorder:
  assumes "for_res f xs s = Inr t" and "\<And>u. R u u" and "\<And>u v w. R u v \<Longrightarrow> R v w \<Longrightarrow> R u w"
    and "\<And>x u v. x \<in> set xs \<Longrightarrow> f x u = Inr v \<Longrightarrow> R u v"
  shows "R s t"
  using assms(1)
  by (rule for_res_invariant [where P = "R s"]) (use assms in blast)+

text \<open>
  The interface of a state machine: operations that may raise, and an invariant each keeps. A run
  is a sequence of operations; an operation that raises leaves the state as it was.
\<close>

locale guarded_machine =
  fixes step :: "'op \<Rightarrow> 's \<Rightarrow> 's res" and inv :: "'s \<Rightarrow> bool"
  assumes step_inv: "inv s \<Longrightarrow> step op s = Inr t \<Longrightarrow> inv t"
begin

fun run :: "'op list \<Rightarrow> 's \<Rightarrow> 's" where
  "run [] s = s"
| "run (op # ops) s = (case step op s of Inl _ \<Rightarrow> run ops s | Inr t \<Rightarrow> run ops t)"

lemma run_inv: "inv s \<Longrightarrow> inv (run ops s)"
proof (induction ops arbitrary: s)
  case (Cons op ops)
  then show ?case using step_inv by (cases "step op s") auto
qed simp

end

text \<open>A loop that collects the results of its iterations.\<close>

fun map_res :: "('a \<Rightarrow> 'b res) \<Rightarrow> 'a list \<Rightarrow> 'b list res" where
  "map_res f [] = Inr []"
| "map_res f (x # xs) = rbind (f x) (\<lambda>y. rbind (map_res f xs) (\<lambda>ys. Inr (y # ys)))"

lemma map_res_cong [fundef_cong]:
  "xs = ys \<Longrightarrow> (\<And>x. x \<in> set ys \<Longrightarrow> f x = g x) \<Longrightarrow> map_res f xs = map_res g ys"
  by (induction xs arbitrary: ys) auto

lemma map_res_Inr_iff:
  "map_res f xs = Inr ys \<longleftrightarrow> list_all2 (\<lambda>x y. f x = Inr y) xs ys"
  by (induction xs arbitrary: ys) (auto simp: rbind_Inr_iff list_all2_Cons1)

lemma map_res_member: "map_res f xs = Inr ys \<Longrightarrow> y \<in> set ys \<Longrightarrow> \<exists>x \<in> set xs. f x = Inr y"
  by (induction xs arbitrary: ys) (auto simp: rbind_Inr_iff)

text \<open>A list comprehension with a condition that may raise.\<close>

fun filter_res :: "('a \<Rightarrow> bool res) \<Rightarrow> 'a list \<Rightarrow> 'a list res" where
  "filter_res f [] = Inr []"
| "filter_res f (x # xs) =
     rbind (f x) (\<lambda>b. rbind (filter_res f xs) (\<lambda>ys. Inr (if b then x # ys else ys)))"

lemma filter_res_set:
  "filter_res f xs = Inr ys \<Longrightarrow> set ys = {x \<in> set xs. f x = Inr True}"
  by (induction xs arbitrary: ys) (auto simp: rbind_Inr_iff split: if_splits)

section \<open>Dictionaries\<close>

text \<open>
  A Python \<open>dict\<close> is an association list with distinct keys whose order is the iteration
  order: \<open>map_of d k\<close> is \<open>d.get(k)\<close>, \<open>AList.update k v d\<close> is \<open>d[k] = v\<close>
  and \<open>AList.delete k d\<close> is \<open>del d[k]\<close>.
\<close>

type_synonym 'v dict = "(string \<times> 'v) list"

definition dict_keys :: "('k \<times> 'v) list \<Rightarrow> 'k list" where
  "dict_keys d = map fst d"

definition has_key :: "'k \<Rightarrow> ('k \<times> 'v) list \<Rightarrow> bool" where
  "has_key k d \<longleftrightarrow> map_of d k \<noteq> None"

fun dict_update :: "('k \<times> 'v) list \<Rightarrow> ('k \<times> 'v) list \<Rightarrow> ('k \<times> 'v) list" where
  "dict_update d [] = d"
| "dict_update d ((k, v) # e) = dict_update (AList.update k v d) e"

text \<open>\<open>d == e\<close>: equality of dictionaries does not see the order of their keys.\<close>

definition dict_eq :: "('k \<times> 'v) list \<Rightarrow> ('k \<times> 'v) list \<Rightarrow> bool" where
  "dict_eq d e \<longleftrightarrow> list_all (\<lambda>k. map_of d k = map_of e k) (map fst d @ map fst e)"

lemma has_key_iff: "has_key k d \<longleftrightarrow> k \<in> fst ` set d"
  by (simp add: has_key_def map_of_eq_None_iff)

lemma dict_eq_iff: "dict_eq d e \<longleftrightarrow> map_of d = map_of e"
proof
  assume eq: "dict_eq d e"
  have "map_of d k = map_of e k" for k
  proof (cases "k \<in> fst ` set d \<union> fst ` set e")
    case True
    with eq show ?thesis by (auto simp: dict_eq_def list_all_iff)
  next
    case False
    then have "map_of d k = None" and "map_of e k = None"
      by (simp_all add: map_of_eq_None_iff)
    then show ?thesis by simp
  qed
  then show "map_of d = map_of e" ..
qed (simp add: dict_eq_def list_all_iff)

lemma map_of_dict_update:
  "distinct (map fst e) \<Longrightarrow>
    map_of (dict_update d e) k = (case map_of e k of None \<Rightarrow> map_of d k | Some v \<Rightarrow> Some v)"
proof (induction d e rule: dict_update.induct)
  case (2 d k' v e)
  then show ?case
    by (auto simp: update_conv' map_of_eq_None_iff image_iff split: option.splits)
qed simp

lemma distinct_dict_update:
  "distinct (map fst d) \<Longrightarrow> distinct (map fst (dict_update d e))"
  by (induction d e rule: dict_update.induct) (simp_all add: distinct_update)

lemma keys_dict_update:
  "fst ` set (dict_update d e) = fst ` set d \<union> fst ` set e"
  by (induction d e rule: dict_update.induct) (auto simp: dom_update)

lemma map_of_update [simp]: "map_of (AList.update k v d) = (map_of d)(k \<mapsto> v)"
  by (rule update_conv')

lemma map_of_delete [simp]: "map_of (AList.delete k d) = (map_of d)(k := None)"
  by (rule delete_conv')

section \<open>Strings\<close>

definition slash :: char where
  "slash = CHR ''/''"

definition rstrip_slash :: "string \<Rightarrow> string" where
  "rstrip_slash s = rev (dropWhile (\<lambda>c. c = slash) (rev s))"

text \<open>\<open>s.rsplit("/", 1)\<close>: the text before and after the last slash, \<open>None\<close> when
  there is none.\<close>

definition rsplit_slash :: "string \<Rightarrow> (string \<times> string) option" where
  "rsplit_slash s =
     (case dropWhile (\<lambda>c. c \<noteq> slash) (rev s) of
        [] \<Rightarrow> None
      | c # p \<Rightarrow> Some (rev p, rev (takeWhile (\<lambda>c. c \<noteq> slash) (rev s))))"

text \<open>\<open>s.split(c)\<close>.\<close>

fun split_on :: "char \<Rightarrow> string \<Rightarrow> string list" where
  "split_on c [] = [[]]"
| "split_on c (x # xs) =
     (if x = c then [] # split_on c xs
      else (case split_on c xs of [] \<Rightarrow> [[x]] | t # ts \<Rightarrow> (x # t) # ts))"

text \<open>\<open>sep.join(parts)\<close>.\<close>

fun join_with :: "string \<Rightarrow> string list \<Rightarrow> string" where
  "join_with sep [] = []"
| "join_with sep [s] = s"
| "join_with sep (s # t # ts) = s @ sep @ join_with sep (t # ts)"

lemma rsplit_slash_append:
  assumes "slash \<notin> set b"
  shows "rsplit_slash (a @ slash # b) = Some (a, b)"
proof -
  have b: "c \<noteq> slash" if "c \<in> set (rev b)" for c using assms that by auto
  have "dropWhile (\<lambda>c. c \<noteq> slash) (rev b @ slash # rev a) = slash # rev a"
    using dropWhile_append2 [of "rev b" "\<lambda>c. c \<noteq> slash", OF b] by simp
  moreover have "takeWhile (\<lambda>c. c \<noteq> slash) (rev b @ slash # rev a) = rev b"
    using takeWhile_append2 [of "rev b" "\<lambda>c. c \<noteq> slash", OF b] by simp
  ultimately show ?thesis by (simp add: rsplit_slash_def)
qed

lemma rsplit_slash_Some:
  assumes "rsplit_slash s = Some (a, b)"
  shows "s = a @ slash # b" and "slash \<notin> set b"
proof -
  let ?r = "rev s" and ?p = "\<lambda>c. c \<noteq> slash"
  from assms obtain c p where d: "dropWhile ?p ?r = c # p" and a: "a = rev p"
    and b: "b = rev (takeWhile ?p ?r)"
    by (auto simp: rsplit_slash_def split: list.splits)
  from d have c: "c = slash" using hd_dropWhile [of ?p ?r] by auto
  have "?r = takeWhile ?p ?r @ c # p" using takeWhile_dropWhile_id [of ?p ?r] d by simp
  then have "s = rev (takeWhile ?p ?r @ c # p)" by (metis rev_rev_ident)
  with a b c show "s = a @ slash # b" by simp
  show "slash \<notin> set b" using b by (auto dest: set_takeWhileD)
qed

lemma rsplit_slash_total:
  assumes "slash \<in> set s"
  shows "\<exists>a b. rsplit_slash s = Some (a, b)"
proof -
  have "dropWhile (\<lambda>c. c \<noteq> slash) (rev s) \<noteq> []"
    using assms by (auto simp: dropWhile_eq_Nil_conv)
  then obtain c p where "dropWhile (\<lambda>c. c \<noteq> slash) (rev s) = c # p" by (meson neq_Nil_conv)
  then show ?thesis by (simp add: rsplit_slash_def)
qed

lemma split_on_nonempty [simp]: "split_on c s \<noteq> []"
  by (induction s) (auto split: list.splits)

lemma split_on_no_sep: "x \<in> set (split_on c s) \<Longrightarrow> c \<notin> set x"
  by (induction s arbitrary: x) (auto split: list.splits if_splits)

lemma join_with_Cons: "ts \<noteq> [] \<Longrightarrow> join_with sep (s # ts) = s @ sep @ join_with sep ts"
  by (cases ts) auto

lemma join_with_prepend: "join_with sep ((x # t) # ts) = x # join_with sep (t # ts)"
  by (cases ts) auto

lemma join_split: "join_with [c] (split_on c s) = s"
proof (induction s)
  case (Cons x xs)
  obtain t ts where ts: "split_on c xs = t # ts" by (cases "split_on c xs") auto
  with Cons show ?case by (simp add: join_with_Cons join_with_prepend)
qed simp

lemma rstrip_slash_idem [simp]: "rstrip_slash (rstrip_slash s) = rstrip_slash s"
  by (simp add: rstrip_slash_def)

text \<open>Decimal rendering of an integer, \<open>str(n)\<close>.\<close>

fun nat_digits :: "nat \<Rightarrow> string" where
  "nat_digits n =
     (if n < 10 then [char_of (48 + n)] else nat_digits (n div 10) @ [char_of (48 + n mod 10)])"

declare nat_digits.simps [simp del]

definition str_of_int :: "int \<Rightarrow> string" where
  "str_of_int i = (if i < 0 then CHR ''-'' # nat_digits (nat (- i)) else nat_digits (nat i))"

end
