(* ===== verification/Topsort.thy ===== *)
theory Topsort
  imports Prelude
begin

text \<open>
  \<open>litp/core/topsort.py\<close>: the layered topological sort that orders tasks and items. A graph is
  a dictionary from a node to the set of the nodes it depends on, held as an association list
  with distinct keys whose values list the members of the set. The generator is modelled by
  the layers it yields and the exception that ends it, if one does.
\<close>

type_synonym graph = "string list dict"

section \<open>The code\<close>

definition discard_self :: "graph \<Rightarrow> graph" where
  "discard_self g = map (\<lambda>(n, ds). (n, removeAll n ds)) g"

definition nodes_not_in_keys :: "graph \<Rightarrow> string list" where
  "nodes_not_in_keys g = filter (\<lambda>n. n \<notin> set (map fst g)) (remdups (concat (map snd g)))"

definition add_missing_nodes :: "graph \<Rightarrow> graph" where
  "add_missing_nodes g = g @ map (\<lambda>n. (n, [])) (nodes_not_in_keys g)"

definition leaf_nodes :: "graph \<Rightarrow> string list" where
  "leaf_nodes g = remdups (map fst (filter (\<lambda>(n, dep). dep = []) g))"

definition drop_leaves :: "graph \<Rightarrow> graph" where
  "drop_leaves g =
     map (\<lambda>(n, dep). (n, filter (\<lambda>d. d \<notin> set (leaf_nodes g)) dep))
       (filter (\<lambda>(n, dep). n \<notin> set (leaf_nodes g)) g)"

lemma leaf_nodes_iff: "n \<in> set (leaf_nodes g) \<longleftrightarrow> (n, []) \<in> set g"
  by (force simp: leaf_nodes_def)

lemma leaf_nodes_empty_iff: "leaf_nodes g = [] \<longleftrightarrow> (\<forall>(n, ds) \<in> set g. ds \<noteq> [])"
proof -
  have "leaf_nodes g = [] \<longleftrightarrow> (\<forall>n. n \<notin> set (leaf_nodes g))" by (cases "leaf_nodes g") auto
  then show ?thesis by (auto simp: leaf_nodes_iff)
qed

lemma drop_leaves_shorter:
  assumes "leaf_nodes g \<noteq> []"
  shows "length (drop_leaves g) < length g"
proof -
  from assms have "hd (leaf_nodes g) \<in> set (leaf_nodes g)" by simp
  then obtain n where "n \<in> set (leaf_nodes g)" and "(n, []) \<in> set g"
    using leaf_nodes_iff by blast
  then show ?thesis
    unfolding drop_leaves_def length_map by (intro length_filter_less [of "(n, [])"]) auto
qed

text \<open>The \<open>while True\<close> loop: the layers it yields and the graph it leaves.\<close>

function topsort_loop :: "graph \<Rightarrow> string list list \<times> graph" where
  "topsort_loop g =
     (if leaf_nodes g = [] then ([], g)
      else (case topsort_loop (drop_leaves g) of
              (layers, rest) \<Rightarrow> (sort (leaf_nodes g) # layers, rest)))"
  by pat_completeness auto
termination
  by (relation "measure length") (auto intro: drop_leaves_shorter)

declare topsort_loop.simps [simp del]

definition topsort :: "graph \<Rightarrow> string list list \<times> exn option" where
  "topsort g =
     (if g = [] then ([], None)
      else (case topsort_loop (add_missing_nodes (discard_self g)) of
              (layers, rest) \<Rightarrow>
                (layers, if rest \<noteq> [] then Some (CyclicGraphException rest) else None)))"

section \<open>What a dependency is\<close>

definition deps_of :: "graph \<Rightarrow> string \<Rightarrow> string set" where
  "deps_of g n = {d. \<exists>ds. (n, ds) \<in> set g \<and> d \<in> set ds}"

definition dep_rel :: "graph \<Rightarrow> (string \<times> string) set" where
  "dep_rel g = {(d, n). d \<in> deps_of g n \<and> d \<noteq> n}"

definition nodes_of :: "graph \<Rightarrow> string set" where
  "nodes_of g = fst ` set g \<union> (\<Union>(n, ds) \<in> set g. set ds)"

definition closed_graph :: "graph \<Rightarrow> bool" where
  "closed_graph g \<longleftrightarrow> distinct (map fst g) \<and> (\<forall>(n, ds) \<in> set g. set ds \<subseteq> fst ` set g)"

section \<open>The preparation of the graph\<close>

lemma keys_discard_self [simp]: "map fst (discard_self g) = map fst g"
  by (simp add: discard_self_def o_def case_prod_beta)

lemma deps_of_discard_self: "deps_of (discard_self g) n = deps_of g n - {n}"
  by (force simp: deps_of_def discard_self_def)

lemma deps_of_add_missing [simp]: "deps_of (add_missing_nodes g) n = deps_of g n"
  by (auto simp: deps_of_def add_missing_nodes_def)

lemma keys_add_missing: "fst ` set (add_missing_nodes g) = nodes_of g"
proof -
  have "fst ` set (add_missing_nodes g) = fst ` set g \<union> set (nodes_not_in_keys g)"
    by (simp add: add_missing_nodes_def image_Un image_image)
  moreover have "set (nodes_not_in_keys g) = (\<Union>p \<in> set g. set (snd p)) - fst ` set g"
    by (auto simp: nodes_not_in_keys_def)
  ultimately show ?thesis by (auto simp: nodes_of_def case_prod_beta)
qed

lemma nodes_of_iff: "n \<in> nodes_of g \<longleftrightarrow> n \<in> fst ` set g \<or> (\<exists>m. n \<in> deps_of g m)"
proof -
  have "n \<in> (\<Union>(m, ds) \<in> set g. set ds) \<longleftrightarrow> (\<exists>m. n \<in> deps_of g m)"
    unfolding deps_of_def by blast
  then show ?thesis unfolding nodes_of_def by blast
qed

lemma deps_of_key: "d \<in> deps_of g n \<Longrightarrow> n \<in> fst ` set g"
  by (force simp: deps_of_def)

lemma nodes_of_discard_self: "nodes_of (discard_self g) = nodes_of g"
proof -
  have "fst ` set (discard_self g) = fst ` set g" by (metis keys_discard_self set_map)
  then have "n \<in> nodes_of (discard_self g) \<longleftrightarrow> n \<in> nodes_of g" for n
    using deps_of_key [of n g n] by (auto simp: nodes_of_iff deps_of_discard_self)
  then show ?thesis by blast
qed

lemma closed_add_missing:
  assumes "distinct (map fst g)"
  shows "closed_graph (add_missing_nodes g)"
proof -
  have "set ds \<subseteq> fst ` set (add_missing_nodes g)" if "(n, ds) \<in> set (add_missing_nodes g)" for n ds
    using that unfolding keys_add_missing
    by (fastforce simp: add_missing_nodes_def nodes_of_def nodes_not_in_keys_def)
  moreover have "distinct (map fst (add_missing_nodes g))"
    using assms by (auto simp: add_missing_nodes_def nodes_not_in_keys_def o_def distinct_map inj_on_def)
  ultimately show ?thesis by (auto simp: closed_graph_def)
qed

section \<open>One round of the loop\<close>

lemma keys_drop_leaves:
  "fst ` set (drop_leaves g) = fst ` set g - set (leaf_nodes g)"
  by (force simp: drop_leaves_def)

lemma deps_of_drop_leaves:
  assumes "n \<notin> set (leaf_nodes g)"
  shows "deps_of (drop_leaves g) n = deps_of g n - set (leaf_nodes g)"
  using assms by (force simp: deps_of_def drop_leaves_def)

lemma closed_drop_leaves:
  assumes "closed_graph g"
  shows "closed_graph (drop_leaves g)"
proof -
  have "map fst (map (\<lambda>(n, dep). (n, f dep)) (filter (\<lambda>(n, dep). P n) g)) = filter P (map fst g)"
    for f :: "string list \<Rightarrow> string list" and P by (induction g) auto
  then have "map fst (drop_leaves g) = filter (\<lambda>n. n \<notin> set (leaf_nodes g)) (map fst g)"
    unfolding drop_leaves_def .
  with assms have "distinct (map fst (drop_leaves g))"
    by (simp add: closed_graph_def)
  moreover have "set ds \<subseteq> fst ` set (drop_leaves g)" if "(n, ds) \<in> set (drop_leaves g)" for n ds
    using that assms unfolding keys_drop_leaves by (fastforce simp: drop_leaves_def closed_graph_def)
  ultimately show ?thesis by (auto simp: closed_graph_def)
qed

lemma deps_of_leaf:
  assumes "closed_graph g" "n \<in> set (leaf_nodes g)"
  shows "deps_of g n = {}"
  using assms by (auto simp: closed_graph_def deps_of_def leaf_nodes_iff dest: eq_key_imp_eq_value)

text \<open>
  \<open>layered g D ls\<close>: each layer depends only on the nodes of \<open>D\<close> and of the layers before.
\<close>

fun layered :: "graph \<Rightarrow> string set \<Rightarrow> string list list \<Rightarrow> bool" where
  "layered g D [] \<longleftrightarrow> True"
| "layered g D (l # ls) \<longleftrightarrow> (\<forall>n \<in> set l. deps_of g n \<subseteq> D) \<and> layered g (D \<union> set l) ls"

lemma layered_transfer:
  "layered h D ls \<Longrightarrow> (\<And>n. n \<in> set (concat ls) \<Longrightarrow> deps_of g n \<subseteq> deps_of h n \<union> E) \<Longrightarrow>
    layered g (D \<union> E) ls"
proof (induction ls arbitrary: D)
  case (Cons l ls)
  have "layered g (D \<union> set l \<union> E) ls" using Cons by auto
  moreover have "D \<union> set l \<union> E = D \<union> E \<union> set l" by auto
  ultimately have "layered g (D \<union> E \<union> set l) ls" by (simp only:)
  moreover have "deps_of g n \<subseteq> D \<union> E" if "n \<in> set l" for n
    using Cons.prems that by fastforce
  ultimately show ?case by simp
qed simp

lemma layered_nth:
  "layered g D ls \<Longrightarrow> i < length ls \<Longrightarrow> n \<in> set (ls ! i) \<Longrightarrow> d \<in> deps_of g n \<Longrightarrow> d \<notin> D \<Longrightarrow>
    \<exists>j < i. d \<in> set (ls ! j)"
proof (induction ls arbitrary: D i)
  case (Cons l ls)
  show ?case
  proof (cases i)
    case 0
    with Cons.prems show ?thesis by auto
  next
    case (Suc k)
    show ?thesis
    proof (cases "d \<in> set l")
      case True
      then show ?thesis using Suc by (intro exI [of _ 0]) simp
    next
      case False
      with Cons.prems Suc obtain j where "j < k" "d \<in> set (ls ! j)"
        using Cons.IH [of "D \<union> set l" k] by auto
      then show ?thesis using Suc by (intro exI [of _ "Suc j"]) simp
    qed
  qed
qed simp

section \<open>The loop\<close>

definition loop_result :: "graph \<Rightarrow> string list list \<Rightarrow> graph \<Rightarrow> bool" where
  "loop_result g ls r \<longleftrightarrow>
     closed_graph r \<and> leaf_nodes r = [] \<and> layered g {} ls \<and> distinct (concat ls) \<and>
     set (concat ls) \<inter> fst ` set r = {} \<and> set (concat ls) \<union> fst ` set r = fst ` set g \<and>
     (\<forall>l \<in> set ls. sorted l \<and> l \<noteq> []) \<and> (\<forall>n \<in> fst ` set r. deps_of r n \<subseteq> deps_of g n)"

lemma loop_result_step:
  assumes g: "closed_graph g" and ne: "leaf_nodes g \<noteq> []"
    and rec: "loop_result (drop_leaves g) ls r"
  shows "loop_result g (sort (leaf_nodes g) # ls) r"
proof -
  let ?L = "set (leaf_nodes g)"
  have ls: "set (concat ls) \<inter> ?L = {}" and r: "fst ` set r \<inter> ?L = {}"
    using rec keys_drop_leaves [of g] by (auto simp: loop_result_def)
  have sub: "?L \<subseteq> fst ` set g" by (force simp: leaf_nodes_iff)
  have "layered g ({} \<union> ?L) ls"
  proof (rule layered_transfer)
    show "layered (drop_leaves g) {} ls" using rec by (simp add: loop_result_def)
    fix n assume "n \<in> set (concat ls)"
    with ls have "n \<notin> ?L" by blast
    then show "deps_of g n \<subseteq> deps_of (drop_leaves g) n \<union> ?L" by (auto simp: deps_of_drop_leaves)
  qed
  then have "layered g {} (sort (leaf_nodes g) # ls)" using deps_of_leaf [OF g] by simp
  moreover have "deps_of r n \<subseteq> deps_of g n" if "n \<in> fst ` set r" for n
  proof -
    have "n \<notin> ?L" using that r by blast
    moreover have "deps_of r n \<subseteq> deps_of (drop_leaves g) n" using that rec by (auto simp: loop_result_def)
    ultimately show ?thesis by (auto simp: deps_of_drop_leaves)
  qed
  moreover have "distinct (leaf_nodes g)" by (simp add: leaf_nodes_def)
  moreover have "sort (leaf_nodes g) \<noteq> []"
  proof
    assume "sort (leaf_nodes g) = []"
    then have "set (sort (leaf_nodes g)) = {}" by (simp only: list.set)
    with ne show False by simp
  qed
  ultimately show ?thesis
    using rec ls r sub by (auto simp: loop_result_def keys_drop_leaves)
qed

lemma topsort_loop_result:
  "closed_graph g \<Longrightarrow> topsort_loop g = (ls, r) \<Longrightarrow> loop_result g ls r"
proof (induction g arbitrary: ls r rule: topsort_loop.induct)
  case (1 g)
  show ?case
  proof (cases "leaf_nodes g = []")
    case True
    with "1.prems" show ?thesis by (auto simp: topsort_loop.simps [of g] loop_result_def)
  next
    case False
    obtain ls' r' where rec: "topsort_loop (drop_leaves g) = (ls', r')" by fastforce
    have "loop_result (drop_leaves g) ls' r'"
      using "1.IH" [OF False closed_drop_leaves rec] "1.prems" by simp
    then have "loop_result g (sort (leaf_nodes g) # ls') r'"
      using loop_result_step "1.prems" False by blast
    with "1.prems" False rec show ?thesis by (simp add: topsort_loop.simps [of g])
  qed
qed

section \<open>What topsort yields\<close>

lemma topsort_loop_of:
  assumes "distinct (map fst g)" and "topsort g = (ls, e)" and "g \<noteq> []"
  obtains r where "loop_result (add_missing_nodes (discard_self g)) ls r"
    and "e = (if r \<noteq> [] then Some (CyclicGraphException r) else None)"
proof -
  obtain ls' r where loop: "topsort_loop (add_missing_nodes (discard_self g)) = (ls', r)" by fastforce
  have "closed_graph (add_missing_nodes (discard_self g))"
    using assms(1) by (intro closed_add_missing) simp
  then have "loop_result (add_missing_nodes (discard_self g)) ls' r"
    using loop by (rule topsort_loop_result)
  with loop assms(2,3) show ?thesis by (intro that) (auto simp: topsort_def)
qed

lemma deps_prepared: "deps_of (add_missing_nodes (discard_self g)) n = {d. (d, n) \<in> dep_rel g}"
  by (auto simp: deps_of_discard_self dep_rel_def)

lemma finite_dep_rel: "finite (dep_rel g)"
proof (rule finite_subset)
  show "dep_rel g \<subseteq> (\<Union>(n, ds) \<in> set g. set ds) \<times> fst ` set g"
    by (force simp: dep_rel_def deps_of_def)
qed auto

text \<open>A finite nonempty set in which every node has a dependency inside it lies on a cycle.\<close>

lemma stuck_nodes_cyclic:
  assumes "N \<noteq> {}" "\<And>n. n \<in> N \<Longrightarrow> \<exists>d \<in> N. (d, n) \<in> R" "finite R"
  shows "\<not> acyclic R"
proof
  assume "acyclic R"
  then have "wf R" using assms(3) by (rule finite_acyclic_wf [rotated])
  then obtain n where "n \<in> N" "\<And>d. (d, n) \<in> R \<Longrightarrow> d \<notin> N"
    using assms(1) by (auto simp: wf_eq_minimal)
  with assms(2) show False by blast
qed

lemma layered_acyclic:
  assumes "layered g {} ls" and "\<And>n d. (d, n) \<in> R \<Longrightarrow> n \<in> set (concat ls) \<and> d \<in> deps_of g n"
    and dist: "distinct (concat ls)"
  shows "acyclic R"
proof -
  define rank where "rank n = (LEAST i. i < length ls \<and> n \<in> set (ls ! i))" for n
  have "(rank d, rank n) \<in> less_than" if dn: "(d, n) \<in> R" for d n
  proof -
    from dn assms(2) have "n \<in> set (concat ls)" and dep: "d \<in> deps_of g n" by blast+
    then have "\<exists>i. i < length ls \<and> n \<in> set (ls ! i)" by (auto dest: in_set_conv_nth [THEN iffD1])
    then have i: "rank n < length ls \<and> n \<in> set (ls ! rank n)"
      unfolding rank_def by (rule LeastI_ex)
    then obtain j where j: "j < rank n" "d \<in> set (ls ! j)"
      using layered_nth [OF assms(1), of "rank n" n d] dep by auto
    then have "j < length ls" using i by simp
    with j have "rank d \<le> j" unfolding rank_def by (intro Least_le) simp
    with j show ?thesis by simp
  qed
  then have "R \<subseteq> inv_image less_than rank" by auto
  then have "wf R" by (rule wf_subset [OF wf_inv_image [OF wf_less_than]])
  then show ?thesis by (rule wf_acyclic)
qed

text \<open>When the loop empties the graph, the dependencies have no cycle.\<close>

lemma emptied_acyclic:
  assumes "loop_result (add_missing_nodes (discard_self g)) ls []"
  shows "acyclic (dep_rel g)"
proof (rule layered_acyclic)
  let ?h = "add_missing_nodes (discard_self g)"
  show "layered ?h {} ls" "distinct (concat ls)" using assms by (simp_all add: loop_result_def)
  fix n d assume dn: "(d, n) \<in> dep_rel g"
  then have "n \<in> nodes_of g" by (force simp: dep_rel_def deps_of_def nodes_of_def)
  then show "n \<in> set (concat ls) \<and> d \<in> deps_of ?h n"
    using dn assms
    by (auto simp: loop_result_def deps_prepared keys_add_missing nodes_of_discard_self simp del: deps_of_add_missing)
qed

text \<open>C1: every layer \<open>topsort\<close> yields depends only on earlier layers, whether or not the
  generator ends with the cyclic graph exception.\<close>

theorem topsort_order:
  assumes "distinct (map fst g)" and "topsort g = (ls, e)" and "i < length ls" and "n \<in> set (ls ! i)"
    and "(d, n) \<in> dep_rel g"
  shows "\<exists>j < i. d \<in> set (ls ! j)"
proof -
  have "g \<noteq> []" using assms(5) by (auto simp: dep_rel_def deps_of_def)
  with assms(1,2) obtain r where "loop_result (add_missing_nodes (discard_self g)) ls r"
    by (rule topsort_loop_of)
  then have "layered (add_missing_nodes (discard_self g)) {} ls" by (simp add: loop_result_def)
  then show ?thesis
    by (rule layered_nth) (use assms in \<open>auto simp: deps_prepared simp del: deps_of_add_missing\<close>)
qed

theorem topsort_order_witness:
  "\<exists>j < 1. ''a'' \<in> set ([[''a''], [''b'']] ! j)"
  by (rule topsort_order [of "[(''b'', [''a'', ''b''])]" _ None 1 "''b''"]) 
    (simp_all add: topsort_def topsort_loop.simps add_missing_nodes_def discard_self_def
      nodes_not_in_keys_def leaf_nodes_def drop_leaves_def dep_rel_def deps_of_def)

text \<open>C2: the generator raises the cyclic graph exception exactly when the dependencies between
  distinct nodes contain a cycle, and otherwise yields every node once, in sorted layers.\<close>

theorem topsort_complete:
  assumes "distinct (map fst g)" and "topsort g = (ls, e)"
  shows "(e = None \<longleftrightarrow> acyclic (dep_rel g)) \<and> distinct (concat ls) \<and> (\<forall>l \<in> set ls. sorted l \<and> l \<noteq> []) \<and>
    (e = None \<longrightarrow> set (concat ls) = nodes_of g)"
proof (cases "g = []")
  case True
  with assms show ?thesis
    by (auto simp: topsort_def dep_rel_def deps_of_def nodes_of_def acyclic_def)
next
  case False
  let ?h = "add_missing_nodes (discard_self g)"
  from assms False obtain r where res: "loop_result ?h ls r"
    and e: "e = (if r \<noteq> [] then Some (CyclicGraphException r) else None)"
    by (rule topsort_loop_of)
  have keys: "fst ` set ?h = nodes_of g" by (simp add: keys_add_missing nodes_of_discard_self)
  have "acyclic (dep_rel g)" if "r = []"
    using res that by (simp add: emptied_acyclic)
  moreover have "\<not> acyclic (dep_rel g)" if "r \<noteq> []"
  proof (rule stuck_nodes_cyclic [of "fst ` set r"])
    fix n assume "n \<in> fst ` set r"
    then obtain ds where ds: "(n, ds) \<in> set r" by auto
    with res have "ds \<noteq> []" and "set ds \<subseteq> fst ` set r"
      by (auto simp: loop_result_def leaf_nodes_empty_iff closed_graph_def)
    then have d: "hd ds \<in> fst ` set r" "hd ds \<in> deps_of r n" using ds by (auto simp: deps_of_def)
    with res \<open>n \<in> fst ` set r\<close> have "hd ds \<in> deps_of ?h n" by (auto simp: loop_result_def)
    then have "(hd ds, n) \<in> dep_rel g" by (auto simp: deps_prepared simp del: deps_of_add_missing)
    with d(1) show "\<exists>d \<in> fst ` set r. (d, n) \<in> dep_rel g" by blast
  qed (use that in \<open>auto simp: finite_dep_rel\<close>)
  ultimately show ?thesis using res e keys by (auto simp: loop_result_def)
qed

theorem topsort_complete_witness:
  "acyclic (dep_rel [(''b'', [''a''])]) \<and> \<not> acyclic (dep_rel [(''a'', [''b'']), (''b'', [''a''])])"
proof
  show "acyclic (dep_rel [(''b'', [''a''])])"
    using topsort_complete [of "[(''b'', [''a''])]" "[[''a''], [''b'']]" None]
    by (simp add: topsort_def topsort_loop.simps add_missing_nodes_def discard_self_def
      nodes_not_in_keys_def leaf_nodes_def drop_leaves_def)
  show "\<not> acyclic (dep_rel [(''a'', [''b'']), (''b'', [''a''])])"
    using topsort_complete [of "[(''a'', [''b'']), (''b'', [''a''])]" "[]"
      "Some (CyclicGraphException [(''a'', [''b'']), (''b'', [''a''])])"]
    by (simp add: topsort_def topsort_loop.simps add_missing_nodes_def discard_self_def
      nodes_not_in_keys_def leaf_nodes_def drop_leaves_def)
qed

end
