(* ===== verification/Plan.thy ===== *)
theory Plan
  imports Prelude
begin

text \<open>
  \<open>litp/core/plan.py\<close> and \<open>litp/data/types/plan.py\<close>: a plan is a list of phases, each a
  list of tasks, with a life-cycle state and, for every phase, the phases it waits for. The
  clusters the tasks belong to decide which phases may run in parallel. What the model manager
  answers for a task (its node, the cluster of the node or of the item) is carried by the task.
\<close>

section \<open>Data\<close>

datatype plan_state =
  Uninitialised | PInitial | PRunning | PStopping | PStopped | PFailed | PSuccessful | PInvalid

datatype task_state = TaskInitial | TaskRunning | TaskStopped | TaskFailed | TaskSuccess

datatype task_class = ConfigTaskC | CallbackTaskC | RemoteExecutionTaskC | CleanupTaskC

datatype plan_class = PlanC | SnapshotPlanC

record cluster_item =
  cl_vpath :: string
  cl_item_id :: string
  cl_dependency_list :: "string option"

text \<open>\<open>task.model_item\<close>: nothing, the vpath of an item that has left the model, or a query
  item with the answer of its \<open>get_cluster()\<close>.\<close>

datatype item_ref = NoItem | DeletedItem string | LiveItem "cluster_item option"

text \<open>\<open>pt_node\<close> is the answer of \<open>get_task_node\<close>: \<open>Some c\<close> a node whose
  \<open>get_cluster()\<close> is \<open>c\<close>.\<close>

record plan_task =
  pt_id :: string
  pt_class :: task_class
  pt_state :: task_state
  pt_group :: "string option"
  pt_model_item :: item_ref
  pt_node :: "cluster_item option option"

record plan =
  pl_class :: plan_class
  pl_phases :: "plan_task list list"
  pl_has_lock_tasks :: bool
  pl_state :: plan_state
  pl_plan_type :: "string option"
  pl_snapshot_type :: string
  pl_required_phases :: "(nat \<times> nat list) list option"
  pl_celery_task_id :: "string option"

definition PRE_CLUSTER_GROUP :: string where
  "PRE_CLUSTER_GROUP = ''DEPLOYMENT_PRE_CLUSTER_GROUP''"

section \<open>The clusters of a phase\<close>

definition get_task_cluster :: "plan_task \<Rightarrow> cluster_item option" where
  "get_task_cluster t =
     (case pt_node t of
        Some c \<Rightarrow> c
      | None \<Rightarrow> (case pt_model_item t of LiveItem c \<Rightarrow> c | _ \<Rightarrow> None))"

definition is_deleted_item :: "item_ref \<Rightarrow> bool" where
  "is_deleted_item r = (case r of DeletedItem _ \<Rightarrow> True | _ \<Rightarrow> False)"

fun cluster_phase_loop :: "cluster_item option \<Rightarrow> plan_task list \<Rightarrow> cluster_item option" where
  "cluster_phase_loop cluster [] = cluster"
| "cluster_phase_loop cluster (t # ts) =
     (if is_deleted_item (pt_model_item t) then cluster_phase_loop cluster ts
      else if pt_group t = Some PRE_CLUSTER_GROUP then cluster
      else (case get_task_cluster t of
              None \<Rightarrow> None
            | Some tc \<Rightarrow>
                (if cluster \<noteq> None \<and> cl_vpath tc \<noteq> cl_vpath (the cluster) then None
                 else cluster_phase_loop (Some tc) ts)))"

definition phase_tasks :: "plan \<Rightarrow> nat \<Rightarrow> plan_task list" where
  "phase_tasks p i = (if i < length (pl_phases p) then pl_phases p ! i else [])"

definition get_cluster_phase :: "plan \<Rightarrow> nat \<Rightarrow> cluster_item option" where
  "get_cluster_phase p i = cluster_phase_loop None (phase_tasks p i)"

fun clusters_of_tasks :: "plan_task list \<Rightarrow> cluster_item list" where
  "clusters_of_tasks [] = []"
| "clusters_of_tasks (t # ts) =
     (if is_deleted_item (pt_model_item t) then clusters_of_tasks ts
      else (case get_task_cluster t of
              None \<Rightarrow> clusters_of_tasks ts
            | Some c \<Rightarrow> List.insert c (clusters_of_tasks ts)))"

definition get_clusters_in_phase :: "plan \<Rightarrow> nat \<Rightarrow> cluster_item list" where
  "get_clusters_in_phase p i = clusters_of_tasks (phase_tasks p i)"

definition phase_cluster_id :: "plan \<Rightarrow> nat \<Rightarrow> string" where
  "phase_cluster_id p i =
     (case get_cluster_phase p i of None \<Rightarrow> [] | Some c \<Rightarrow> cl_item_id c)"

definition req_clusters :: "plan \<Rightarrow> nat \<Rightarrow> string list" where
  "req_clusters p i =
     remdups (concat (map (\<lambda>c. case cl_dependency_list c of
         None \<Rightarrow> []
       | Some ds \<Rightarrow> filter (\<lambda>d. d \<noteq> []) (split_on (CHR '','') ds)) (get_clusters_in_phase p i)))"

section \<open>Dependencies between the phases\<close>

text \<open>The local variables of \<open>_build_phase_dependencies\<close>.\<close>

record dep_build =
  db_required :: "(nat \<times> nat list) list"
  db_section_ends :: "(string \<times> nat) list"
  db_extended :: "string list"
  db_prev_cluster :: string

definition phase_deps_step :: "plan \<Rightarrow> nat \<Rightarrow> dep_build \<Rightarrow> dep_build" where
  "phase_deps_step p i b =
     (let cur = phase_cluster_id p i;
          prev = db_prev_cluster b;
          ends = db_section_ends b;
          ends' = AList.update cur i ends;
          reqs = req_clusters p i;
          known = filter (\<lambda>c. has_key c ends') reqs;
          result = (\<lambda>rs ext. b\<lparr>db_required := db_required b @ [(i, sort (remdups rs))],
                      db_section_ends := ends', db_extended := ext, db_prev_cluster := cur\<rparr>)
      in if i = 0 then result [] (db_extended b)
         else if cur = prev then result [i - 1] (db_extended b)
         else if filter (\<lambda>c. has_key c ends) reqs \<noteq> [] then
           result (map (\<lambda>c. the (map_of ends' c)) known) (known @ db_extended b)
         else if prev \<noteq> [] \<and> cur = [] then
           result ((i - 1) # map snd (filter (\<lambda>(c, _). c \<notin> set (db_extended b) \<and> c \<noteq> []) ends))
             (db_extended b)
         else (case map_of ends cur of
                 Some last_phase \<Rightarrow> result [last_phase] (db_extended b)
               | None \<Rightarrow> (case map_of ends' [] of
                            Some last_non_parallel \<Rightarrow> result [last_non_parallel] (db_extended b)
                          | None \<Rightarrow> result [] (db_extended b))))"

definition phase_deps_init :: dep_build where
  "phase_deps_init = \<lparr>db_required = [], db_section_ends = [], db_extended = [], db_prev_cluster = []\<rparr>"

definition base_phase_dependencies :: "plan \<Rightarrow> (nat \<times> nat list) list" where
  "base_phase_dependencies p =
     db_required (fold (phase_deps_step p) [0..<length (pl_phases p)] phase_deps_init)"

definition snapshot_phase_dependencies :: "plan \<Rightarrow> (nat \<times> nat list) list" where
  "snapshot_phase_dependencies p =
     map (\<lambda>i. (i, if i = 0 then [] else [i - 1])) [0..<length (pl_phases p)]"

definition build_phase_dependencies :: "plan \<Rightarrow> plan" where
  "build_phase_dependencies p =
     p\<lparr>pl_required_phases := Some (case pl_class p of
         PlanC \<Rightarrow> base_phase_dependencies p
       | SnapshotPlanC \<Rightarrow> snapshot_phase_dependencies p)\<rparr>"

section \<open>Construction and life cycle\<close>

definition new_base_plan ::
  "plan_class \<Rightarrow> plan_task list list \<Rightarrow> plan_task list \<Rightarrow> bool \<Rightarrow> string option \<Rightarrow> plan" where
  "new_base_plan c phases cleanup_tasks has_lock plan_type =
     build_phase_dependencies
       \<lparr>pl_class = c, pl_phases = (if cleanup_tasks \<noteq> [] then phases @ [cleanup_tasks] else phases),
        pl_has_lock_tasks = has_lock, pl_state = Uninitialised, pl_plan_type = plan_type,
        pl_snapshot_type = [], pl_required_phases = None, pl_celery_task_id = None\<rparr>"

definition new_snapshot_plan ::
  "plan_task list list \<Rightarrow> plan_task list \<Rightarrow> plan_task list \<Rightarrow> bool \<Rightarrow> string option \<Rightarrow> plan" where
  "new_snapshot_plan phases snapshot_tasks cleanup_tasks has_lock plan_type =
     (let p = new_base_plan SnapshotPlanC phases cleanup_tasks has_lock plan_type;
          pos = (if has_lock then 1 else 0);
          p' = (if snapshot_tasks \<noteq> []
                then p\<lparr>pl_phases := take pos (pl_phases p) @ [snapshot_tasks] @ drop pos (pl_phases p)\<rparr>
                else p)
      in build_phase_dependencies p')"

definition set_ready :: "plan \<Rightarrow> plan" where
  "set_ready p = (if pl_state p = Uninitialised then p\<lparr>pl_state := PInitial\<rparr> else p)"

definition initialize_from_db :: "plan \<Rightarrow> plan" where
  "initialize_from_db p =
     set_ready (if pl_required_phases p = None then build_phase_dependencies p else p)"

definition phase_complete :: "plan \<Rightarrow> nat \<Rightarrow> bool" where
  "phase_complete p i \<longleftrightarrow> list_all (\<lambda>t. pt_state t = TaskSuccess) (phase_tasks p i)"

definition all_phases_complete :: "plan \<Rightarrow> bool" where
  "all_phases_complete p \<longleftrightarrow> list_all (list_all (\<lambda>t. pt_state t = TaskSuccess)) (pl_phases p)"

definition has_failures :: "plan \<Rightarrow> bool" where
  "has_failures p \<longleftrightarrow> list_ex (list_ex (\<lambda>t. pt_state t = TaskFailed)) (pl_phases p)"

definition plan_run :: "plan \<Rightarrow> plan res" where
  "plan_run p =
     (if pl_state p \<notin> {PInitial, PFailed} then Inl (PlanStateError ''Plan not in initial state'' [])
      else Inr ((build_phase_dependencies p)\<lparr>pl_state := PRunning\<rparr>))"

definition plan_stop :: "plan \<Rightarrow> plan res" where
  "plan_stop p =
     (if pl_state p \<noteq> PRunning then Inl (PlanStateError ''Plan not currently running'' [])
      else Inr (p\<lparr>pl_state := PStopping\<rparr>))"

definition state_name :: "plan_state \<Rightarrow> string" where
  "state_name s =
     (case s of Uninitialised \<Rightarrow> ''uninitialised'' | PInitial \<Rightarrow> ''initial'' | PRunning \<Rightarrow> ''running''
      | PStopping \<Rightarrow> ''stopping'' | PStopped \<Rightarrow> ''stopped'' | PFailed \<Rightarrow> ''failed''
      | PSuccessful \<Rightarrow> ''successful'' | PInvalid \<Rightarrow> ''invalid'')"

definition plan_end :: "plan \<Rightarrow> plan res" where
  "plan_end p =
     (case pl_state p of
        PRunning \<Rightarrow> Inr (p\<lparr>pl_state := if all_phases_complete p then PSuccessful else PFailed\<rparr>)
      | PStopping \<Rightarrow> Inr (p\<lparr>pl_state := if all_phases_complete p then PSuccessful else PStopped\<rparr>)
      | s \<Rightarrow> Inl (PlanStateError ''Plan not active'' (state_name s)))"

definition mark_invalid :: "plan \<Rightarrow> plan res" where
  "mark_invalid p =
     (if pl_state p \<notin> {PInitial, PFailed}
      then Inl (PlanStateError ''Plan not in runnable state'' (state_name (pl_state p)))
      else Inr (p\<lparr>pl_state := PInvalid\<rparr>))"

definition is_active :: "plan \<Rightarrow> bool" where
  "is_active p \<longleftrightarrow> pl_state p \<in> {PRunning, PStopping}"

definition is_final :: "plan \<Rightarrow> bool" where
  "is_final p \<longleftrightarrow> pl_state p \<in> {PSuccessful, PFailed, PStopped, PInvalid}"

definition has_failed :: "plan \<Rightarrow> bool" where
  "has_failed p \<longleftrightarrow> has_failures p \<and> pl_state p \<noteq> PRunning"

definition can_create_plan :: "plan \<Rightarrow> bool" where
  "can_create_plan p \<longleftrightarrow> pl_state p \<notin> {PRunning, PStopping}"

definition has_cleanup_phase :: "plan \<Rightarrow> bool res" where
  "has_cleanup_phase p =
     (if pl_phases p = [] \<or> last (pl_phases p) = [] then Inl IndexError
      else Inr (pt_class (hd (last (pl_phases p))) = CleanupTaskC))"

definition is_cleanup_phase :: "plan \<Rightarrow> int \<Rightarrow> bool res" where
  "is_cleanup_phase p i =
     rbind (has_cleanup_phase p) (\<lambda>h. Inr (h \<and> i = int (length (pl_phases p)) - 1))"

section \<open>The phases that may start\<close>

definition required_by :: "plan \<Rightarrow> nat \<Rightarrow> nat list" where
  "required_by p i =
     (case pl_required_phases p of
        None \<Rightarrow> []
      | Some rs \<Rightarrow> (case map_of rs i of None \<Rightarrow> [] | Some r \<Rightarrow> r))"

definition has_initial_task :: "plan \<Rightarrow> nat \<Rightarrow> bool" where
  "has_initial_task p i \<longleftrightarrow> list_ex (\<lambda>t. pt_state t = TaskInitial) (phase_tasks p i)"

text \<open>The last loop of \<open>ready_phases\<close>, with \<open>None\<close> for the argument \<open>-1\<close>.\<close>

definition startable_phases :: "plan \<Rightarrow> nat option \<Rightarrow> nat list" where
  "startable_phases p completed =
     filter (\<lambda>i. (case completed of None \<Rightarrow> True | Some k \<Rightarrow> k < i \<and> k \<in> set (required_by p i)) \<and>
                 has_initial_task p i \<and> list_all (phase_complete p) (required_by p i))
       [0..<length (pl_phases p)]"

definition reset_failed_task :: "plan_task \<Rightarrow> plan_task" where
  "reset_failed_task t = (if pt_state t = TaskFailed then t\<lparr>pt_state := TaskInitial\<rparr> else t)"

definition phase_failed :: "plan \<Rightarrow> nat \<Rightarrow> bool" where
  "phase_failed p i \<longleftrightarrow> list_ex (\<lambda>t. pt_state t = TaskFailed) (phase_tasks p i)"

definition reset_failed :: "plan \<Rightarrow> plan" where
  "reset_failed p = p\<lparr>pl_phases := map (map reset_failed_task) (pl_phases p)\<rparr>"

definition ready_phases_after :: "plan \<Rightarrow> nat \<Rightarrow> nat list" where
  "ready_phases_after p k = startable_phases p (Some k)"

definition ready_phases_first :: "plan \<Rightarrow> plan \<times> nat list" where
  "ready_phases_first p =
     (let n = length (pl_phases p);
          resume_phases = filter (phase_failed p) [0..<n];
          successful_phases = filter (\<lambda>i. \<not> phase_failed p i \<and> phase_complete p i) [0..<n];
          p' = reset_failed p;
          ready = remdups (resume_phases @ concat (map (ready_phases_after p') successful_phases))
      in if resume_phases \<noteq> [] then (p', ready)
         else (p', remdups (ready @ startable_phases p' None)))"

section \<open>The dependencies point backwards\<close>

definition no_self_dependency :: "plan \<Rightarrow> bool" where
  "no_self_dependency p \<longleftrightarrow>
     list_all (\<lambda>i. phase_cluster_id p i \<notin> set (req_clusters p i)) [0..<length (pl_phases p)]"

text \<open>The loop invariant of \<open>_build_phase_dependencies\<close> before phase \<open>n\<close>.\<close>

definition deps_inv :: "nat \<Rightarrow> dep_build \<Rightarrow> bool" where
  "deps_inv n b \<longleftrightarrow> map fst (db_required b) = [0..<n] \<and>
     (\<forall>(i, rs) \<in> set (db_required b). \<forall>r \<in> set rs. r < i) \<and>
     (\<forall>c k. map_of (db_section_ends b) c = Some k \<longrightarrow> k < n) \<and> distinct (map fst (db_section_ends b))"

lemma deps_inv_step:
  assumes inv: "deps_inv n b" and self: "phase_cluster_id p n \<notin> set (req_clusters p n)"
  shows "deps_inv (Suc n) (phase_deps_step p n b)"
proof -
  let ?cur = "phase_cluster_id p n" and ?ends = "db_section_ends b"
  have ends: "k < n" if "map_of ?ends c = Some k" for c k
    using inv that by (auto simp: deps_inv_def)
  have members: "k < n" if "(c, k) \<in> set ?ends" for c k
    using ends [of c k] that inv by (simp add: deps_inv_def)
  define rs where "rs = snd (last (db_required (phase_deps_step p n b)))"
  have req: "db_required (phase_deps_step p n b) = db_required b @ [(n, rs)]"
    and ends': "db_section_ends (phase_deps_step p n b) = AList.update ?cur n ?ends"
    by (auto simp: rs_def phase_deps_step_def Let_def split: option.split)
  have "r < n" if "r \<in> set rs" for r
  proof -
    have known: "the (if c = ?cur then Some n else map_of ?ends c) < n"
      if "c \<in> set (req_clusters p n)" "has_key c (AList.update ?cur n ?ends)" for c
      using that self ends by (cases "c = ?cur") (auto simp: has_key_def)
    show ?thesis
      using that known members ends unfolding rs_def phase_deps_step_def
      by (cases n) (auto simp: Let_def split: if_splits option.splits)
  qed
  then show ?thesis
    using inv ends by (auto simp: deps_inv_def req ends' less_Suc_eq distinct_update)
qed

lemma deps_inv_fold:
  assumes "no_self_dependency p" "n \<le> length (pl_phases p)"
  shows "deps_inv n (fold (phase_deps_step p) [0..<n] phase_deps_init)"
  using assms(2)
proof (induction n)
  case 0
  then show ?case by (simp add: deps_inv_def phase_deps_init_def)
next
  case (Suc n)
  with assms(1) have "phase_cluster_id p n \<notin> set (req_clusters p n)"
    by (auto simp: no_self_dependency_def list_all_iff)
  with Suc show ?case by (simp add: deps_inv_step)
qed

section \<open>Executing a plan\<close>

text \<open>
  The manager that runs a plan starts the phases \<open>ready_phases\<close> names, and asks again with the
  index of a phase whenever that phase has ended without error. \<open>exec_reach p0 m p R\<close>: after
  \<open>m\<close> such phase ends the plan \<open>p0\<close> has become \<open>p\<close> and the phases \<open>R\<close> are running.
\<close>

definition complete_phase :: "plan \<Rightarrow> nat \<Rightarrow> plan" where
  "complete_phase p k =
     p\<lparr>pl_phases := (pl_phases p)[k := map (\<lambda>t. t\<lparr>pt_state := TaskSuccess\<rparr>) (phase_tasks p k)]\<rparr>"

inductive exec_reach :: "plan \<Rightarrow> nat \<Rightarrow> plan \<Rightarrow> nat list \<Rightarrow> bool" for p0 :: plan where
  start: "ready_phases_first p0 = (p, R) \<Longrightarrow> exec_reach p0 0 p R"
| finish: "exec_reach p0 m p R \<Longrightarrow> k \<in> set R \<Longrightarrow> q = complete_phase p k \<Longrightarrow>
    exec_reach p0 (Suc m) q (removeAll k R @ ready_phases_after q k)"

inductive_cases exec_reach_0E: "exec_reach p0 0 p R"
inductive_cases exec_reach_SucE: "exec_reach p0 (Suc m) p R"

text \<open>
  A plan that may be run (again): every phase has succeeded, has failed or has tasks left; a
  failed phase had been started, so what it requires is complete; and if a phase has failed, the
  phases that require nothing had all been started.
\<close>

definition resumable :: "plan \<Rightarrow> bool" where
  "resumable p \<longleftrightarrow>
     (\<forall>i < length (pl_phases p). phase_complete p i \<or> phase_failed p i \<or> has_initial_task p i) \<and>
     (\<forall>i < length (pl_phases p). phase_failed p i \<longrightarrow> list_all (phase_complete p) (required_by p i)) \<and>
     ((\<exists>i < length (pl_phases p). phase_failed p i) \<longrightarrow>
        (\<forall>i < length (pl_phases p). required_by p i = [] \<longrightarrow> phase_complete p i \<or> phase_failed p i))"

lemma required_by_complete_phase [frame_simps, simp]: "required_by (complete_phase p k) i = required_by p i"
  by (simp add: complete_phase_def required_by_def)

lemma length_complete_phase [frame_simps, simp]:
  "length (pl_phases (complete_phase p k)) = length (pl_phases p)"
  by (simp add: complete_phase_def)

lemma phase_tasks_complete_phase:
  "phase_tasks (complete_phase p k) i =
     (if i = k then map (\<lambda>t. t\<lparr>pt_state := TaskSuccess\<rparr>) (phase_tasks p i) else phase_tasks p i)"
  by (simp add: complete_phase_def phase_tasks_def)

lemma phase_complete_complete_phase [simp]:
  "phase_complete (complete_phase p k) i \<longleftrightarrow> i = k \<or> phase_complete p i"
  by (auto simp: phase_complete_def phase_tasks_complete_phase list_all_iff)

lemma has_initial_task_complete_phase:
  "i \<noteq> k \<Longrightarrow> has_initial_task (complete_phase p k) i = has_initial_task p i"
  by (simp add: has_initial_task_def phase_tasks_complete_phase)

lemma has_initial_not_complete: "has_initial_task p i \<Longrightarrow> \<not> phase_complete p i"
  by (force simp: has_initial_task_def phase_complete_def list_all_iff list_ex_iff)

lemma required_by_reset_failed [frame_simps, simp]: "required_by (reset_failed p) i = required_by p i"
  by (simp add: reset_failed_def required_by_def)

lemma length_reset_failed [frame_simps, simp]: "length (pl_phases (reset_failed p)) = length (pl_phases p)"
  by (simp add: reset_failed_def)

lemma phase_tasks_reset_failed:
  "phase_tasks (reset_failed p) i = map reset_failed_task (phase_tasks p i)"
  by (simp add: reset_failed_def phase_tasks_def)

lemma phase_complete_reset_failed [simp]: "phase_complete (reset_failed p) i = phase_complete p i"
  by (simp add: phase_complete_def phase_tasks_reset_failed list.pred_map o_def reset_failed_task_def)
    (auto simp: list_all_iff)

lemma has_initial_task_reset_failed:
  "has_initial_task (reset_failed p) i \<longleftrightarrow> has_initial_task p i \<or> phase_failed p i"
proof -
  have "list_ex (\<lambda>t. pt_state t = TaskInitial) (map reset_failed_task ts) \<longleftrightarrow>
      list_ex (\<lambda>t. pt_state t = TaskInitial) ts \<or> list_ex (\<lambda>t. pt_state t = TaskFailed) ts" for ts
    by (induction ts) (auto simp: reset_failed_task_def)
  then show ?thesis by (simp add: has_initial_task_def phase_failed_def phase_tasks_reset_failed)
qed

lemma phase_failed_not_complete: "phase_failed p i \<Longrightarrow> \<not> phase_complete p i"
  by (force simp: phase_failed_def phase_complete_def list_all_iff list_ex_iff)

lemma startable_phases_iff:
  "i \<in> set (startable_phases p c) \<longleftrightarrow>
     i < length (pl_phases p) \<and> (case c of None \<Rightarrow> True | Some k \<Rightarrow> k < i \<and> k \<in> set (required_by p i)) \<and>
     has_initial_task p i \<and> (\<forall>r \<in> set (required_by p i). phase_complete p r)"
  by (auto simp: startable_phases_def list_all_iff)

lemma distinct_startable [simp]: "distinct (startable_phases p c)"
  by (simp add: startable_phases_def)

text \<open>What every reachable state of an execution satisfies.\<close>

definition exec_inv :: "plan \<Rightarrow> nat list \<Rightarrow> bool" where
  "exec_inv p R \<longleftrightarrow>
     (\<forall>i < length (pl_phases p). phase_complete p i \<or> has_initial_task p i) \<and>
     (\<forall>i < length (pl_phases p). phase_complete p i \<or> i \<in> set R \<or>
        (\<exists>r \<in> set (required_by p i). \<not> phase_complete p r)) \<and>
     (\<forall>i \<in> set R. i < length (pl_phases p) \<and> has_initial_task p i \<and>
        (\<forall>r \<in> set (required_by p i). phase_complete p r)) \<and>
     distinct R"

lemma exec_inv_start:
  assumes bw: "\<And>i r. r \<in> set (required_by p i) \<Longrightarrow> r < i \<and> i < length (pl_phases p)"
    and res: "resumable p" and start: "ready_phases_first p = (q, R)"
  shows "exec_inv q R"
proof -
  let ?n = "length (pl_phases p)"
  have q: "q = reset_failed p" using start by (auto simp: ready_phases_first_def Let_def split: if_splits)
  define fail where "fail = filter (phase_failed p) [0..<?n]"
  define ready where "ready = remdups (fail @ concat (map (ready_phases_after q)
    (filter (\<lambda>i. \<not> phase_failed p i \<and> phase_complete p i) [0..<?n])))"
  have R: "R = (if fail \<noteq> [] then ready else remdups (ready @ startable_phases q None))"
    using start by (auto simp: ready_phases_first_def Let_def q fail_def ready_def)
  have after: "i \<in> set (ready_phases_after q k) \<longleftrightarrow> i < ?n \<and> k \<in> set (required_by p i) \<and>
      has_initial_task q i \<and> (\<forall>r \<in> set (required_by p i). phase_complete p r)" for i k
    using bw [of k i] by (auto simp: ready_phases_after_def startable_phases_iff q)
  have ready: "i \<in> set ready \<longleftrightarrow> i < ?n \<and> (phase_failed p i \<or>
      (has_initial_task q i \<and> (\<forall>r \<in> set (required_by p i). phase_complete p r) \<and> required_by p i \<noteq> []))" for i
  proof -
    have "(\<exists>k < ?n. \<not> phase_failed p k \<and> phase_complete p k \<and> i \<in> set (ready_phases_after q k))"
      if "i < ?n" "has_initial_task q i" "\<forall>r \<in> set (required_by p i). phase_complete p r" "required_by p i \<noteq> []"
    proof -
      have "hd (required_by p i) \<in> set (required_by p i)" using that by simp
      with that show ?thesis using bw phase_failed_not_complete unfolding after
        by (meson order.strict_trans)
    qed
    then show ?thesis by (auto simp: ready_def fail_def after)
  qed
  have members: "i \<in> set R \<longrightarrow> i < ?n \<and> has_initial_task q i \<and> (\<forall>r \<in> set (required_by q i). phase_complete q r)" for i
    using res by (auto simp: R ready startable_phases_iff q resumable_def list_all_iff has_initial_task_reset_failed)
  have started: "phase_complete q i \<or> i \<in> set R \<or> (\<exists>r \<in> set (required_by q i). \<not> phase_complete q r)" if "i < ?n" for i
    using res that
    by (cases "required_by p i = []")
      (auto simp: R ready startable_phases_iff q resumable_def fail_def filter_empty_conv has_initial_task_reset_failed)
  have "distinct R" by (simp add: R ready_def)
  then show ?thesis
    using members started res by (auto simp: exec_inv_def q resumable_def has_initial_task_reset_failed)
qed

lemma exec_invD:
  assumes "exec_inv p R"
  shows "i < length (pl_phases p) \<Longrightarrow> phase_complete p i \<or> has_initial_task p i"
    and "i < length (pl_phases p) \<Longrightarrow> phase_complete p i \<or> i \<in> set R \<or>
      (\<exists>r \<in> set (required_by p i). \<not> phase_complete p r)"
    and "i \<in> set R \<Longrightarrow> i < length (pl_phases p) \<and> has_initial_task p i"
    and "i \<in> set R \<Longrightarrow> r \<in> set (required_by p i) \<Longrightarrow> phase_complete p r"
    and "distinct R"
  using assms by (simp_all add: exec_inv_def)

lemma exec_inv_finish:
  assumes bw: "\<And>i r. r \<in> set (required_by p i) \<Longrightarrow> r < i"
    and inv: "exec_inv p R" and k: "k \<in> set R" and q: "q = complete_phase p k"
  shows "exec_inv q (removeAll k R @ ready_phases_after q k)"
proof -
  note D = exec_invD [OF inv]
  have nk: "\<not> phase_complete p k" using D(3) [OF k] by (simp add: has_initial_not_complete)
  have init: "has_initial_task q i = has_initial_task p i" if "i \<noteq> k" for i
    using that by (simp add: q has_initial_task_complete_phase)
  have new: "i \<in> set (ready_phases_after q k) \<longleftrightarrow> i < length (pl_phases p) \<and> k \<in> set (required_by p i) \<and>
      has_initial_task p i \<and> (\<forall>r \<in> set (required_by p i). r = k \<or> phase_complete p r)" for i
    using bw [of k i] by (auto simp: ready_phases_after_def startable_phases_iff q has_initial_task_complete_phase)
  have fresh: "i \<notin> set R" "i \<noteq> k" if "i \<in> set (ready_phases_after q k)" for i
    using D(4) [of i k] bw [of k i] nk that unfolding new by auto
  have 1: "phase_complete q i \<or> has_initial_task q i" if "i < length (pl_phases p)" for i
    using D(1) [OF that] init [of i] by (auto simp: q)
  have 2: "phase_complete q i \<or> i \<in> set (removeAll k R @ ready_phases_after q k) \<or>
      (\<exists>r \<in> set (required_by q i). \<not> phase_complete q r)" if i: "i < length (pl_phases p)" for i
    using D(1,2) [OF i] i by (auto simp: q [symmetric] new) (auto simp: q)
  have 3: "i < length (pl_phases q) \<and> has_initial_task q i \<and> (\<forall>r \<in> set (required_by q i). phase_complete q r)"
    if "i \<in> set (removeAll k R @ ready_phases_after q k)" for i
  proof (cases "i \<in> set (ready_phases_after q k)")
    case True
    then show ?thesis using fresh(2) [OF True] init [of i] unfolding new by (auto simp: q)
  next
    case False
    then show ?thesis using that D(3,4) [of i] init [of i] by (auto simp: q)
  qed
  have 4: "distinct (removeAll k R @ ready_phases_after q k)"
    using D(5) fresh(1) by (auto simp: distinct_removeAll ready_phases_after_def)
  show ?thesis unfolding exec_inv_def using 1 2 3 4 by (simp add: q)
qed

text \<open>
  The interface of \<open>_build_phase_dependencies\<close>, which the plan classes implement differently:
  every phase gets an entry, and requires only earlier phases. The laws of the execution rest on
  it alone.
\<close>

locale phase_dependencies =
  fixes deps :: "plan \<Rightarrow> (nat \<times> nat list) list" and wf_deps :: "plan \<Rightarrow> bool"
  assumes deps_keys: "wf_deps p \<Longrightarrow> map fst (deps p) = [0..<length (pl_phases p)]"
    and deps_earlier: "wf_deps p \<Longrightarrow> (i, rs) \<in> set (deps p) \<Longrightarrow> r \<in> set rs \<Longrightarrow> r < i"
begin

lemma required_earlier:
  assumes "wf_deps p" "pl_required_phases q = Some (deps p)" "r \<in> set (required_by q i)"
  shows "r < i \<and> i < length (pl_phases p)"
proof -
  from assms obtain rs where "map_of (deps p) i = Some rs" and r: "r \<in> set rs"
    by (cases "map_of (deps p) i") (auto simp: required_by_def)
  then have m: "(i, rs) \<in> set (deps p)" by (auto dest: map_of_SomeD)
  then have "i \<in> set (map fst (deps p))" by force
  with m r assms(1) show ?thesis by (auto simp: deps_keys deps_earlier)
qed

lemma exec_reach_inv:
  assumes "wf_deps p" "pl_required_phases p = Some (deps p)" "resumable p" "exec_reach p m q R"
  shows "exec_inv q R \<and> length (pl_phases q) = length (pl_phases p) \<and>
    (\<forall>i. required_by q i = required_by p i)"
  using assms(4)
proof induction
  case (start q R)
  have "r < i \<and> i < length (pl_phases p)" if "r \<in> set (required_by p i)" for i r
    using required_earlier assms(1,2) that by blast
  then have "exec_inv q R" using exec_inv_start assms(3) start by blast
  moreover have "q = reset_failed p"
    using start by (auto simp: ready_phases_first_def Let_def split: if_splits)
  ultimately show ?case by simp
next
  case (finish m q R k q')
  have bw: "r < i" if "r \<in> set (required_by q i)" for i r
    using required_earlier [OF assms(1,2)] that finish.IH by auto
  have "exec_inv q R" using finish.IH by simp
  from exec_inv_finish [OF bw this finish.hyps(2,3)] finish.IH finish.hyps(3)
  show ?case by simp
qed

text \<open>When nothing runs, everything is complete: by induction on the phase index.\<close>

lemma idle_complete:
  assumes "exec_inv q []" and bw: "\<And>i r. r \<in> set (required_by q i) \<Longrightarrow> r < i"
  shows "i < length (pl_phases q) \<Longrightarrow> phase_complete q i"
proof (induction i rule: less_induct)
  case (less i)
  then show ?case using exec_invD(2) [OF assms(1) less.prems] bw by (auto dest: order.strict_trans)
qed

lemma exec_reach_idle:
  assumes "wf_deps p" "pl_required_phases p = Some (deps p)" "resumable p" "exec_reach p m q []"
  shows "all_phases_complete q"
proof -
  have inv: "exec_inv q []" and req: "\<And>i. required_by q i = required_by p i"
    using exec_reach_inv [OF assms] by auto
  have "r < i" if "r \<in> set (required_by q i)" for i r
    using required_earlier [OF assms(1,2)] that req by simp
  then have "phase_complete q i" if "i < length (pl_phases q)" for i
    using idle_complete [OF inv] that by blast
  then show ?thesis
    unfolding all_phases_complete_def list_all_length [of "list_all _"]
    by (simp add: phase_complete_def phase_tasks_def)
qed

lemma exec_reach_bounded:
  assumes "wf_deps p" "pl_required_phases p = Some (deps p)" "resumable p" "exec_reach p m q R"
  shows "m + card {i. i < length (pl_phases q) \<and> \<not> phase_complete q i} \<le> length (pl_phases p)"
  using assms(4)
proof induction
  case (start q R)
  then have "length (pl_phases q) = length (pl_phases p)"
    by (auto simp: ready_phases_first_def Let_def split: if_splits)
  moreover have "card {i. i < n \<and> P i} \<le> n" for n and P :: "nat \<Rightarrow> bool"
    using card_mono [of "{..<n}" "{i. i < n \<and> P i}"] by auto
  ultimately show ?case by (metis add_0)
next
  case (finish m q R k q')
  let ?open = "\<lambda>q. {i. i < length (pl_phases q) \<and> \<not> phase_complete q i}"
  have "exec_inv q R" using exec_reach_inv [OF assms(1-3) finish.hyps(1)] by simp
  then have "k \<in> ?open q" using finish.hyps(2) exec_invD(3) has_initial_not_complete by blast
  moreover have "?open q' = ?open q - {k}" using finish.hyps(3) by auto
  moreover have "finite (?open q)" by simp
  ultimately have "card (?open q) = Suc (card (?open q'))" by (simp only: card_Suc_Diff1)
  with finish.IH show ?case by simp
qed

end

interpretation base_deps: phase_dependencies base_phase_dependencies no_self_dependency
proof unfold_locales
  fix p assume "no_self_dependency p"
  then have inv: "deps_inv (length (pl_phases p))
      (fold (phase_deps_step p) [0..<length (pl_phases p)] phase_deps_init)"
    by (rule deps_inv_fold) simp
  then show "map fst (base_phase_dependencies p) = [0..<length (pl_phases p)]"
    by (simp add: deps_inv_def base_phase_dependencies_def)
  show "r < i" if "(i, rs) \<in> set (base_phase_dependencies p)" "r \<in> set rs" for i rs r
    using that inv by (auto simp: deps_inv_def base_phase_dependencies_def)
qed

interpretation snapshot_deps: phase_dependencies snapshot_phase_dependencies "\<lambda>_. True"
  by unfold_locales (auto simp: snapshot_phase_dependencies_def o_def split: if_splits)

section \<open>Properties\<close>

lemma pl_class_build [simp]: "pl_class (build_phase_dependencies p) = pl_class p"
  and pl_phases_build [simp]: "pl_phases (build_phase_dependencies p) = pl_phases p"
  and pl_state_build [simp]: "pl_state (build_phase_dependencies p) = pl_state p"
  by (simp_all add: build_phase_dependencies_def)

lemma tasks_build [simp]:
  "phase_tasks (build_phase_dependencies p) i = phase_tasks p i"
  by (simp add: phase_tasks_def)

lemma clusters_build [simp]:
  "phase_cluster_id (build_phase_dependencies p) i = phase_cluster_id p i"
  "req_clusters (build_phase_dependencies p) i = req_clusters p i"
  by (simp_all add: phase_cluster_id_def get_cluster_phase_def req_clusters_def get_clusters_in_phase_def)

lemma deps_build [simp]:
  "base_phase_dependencies (build_phase_dependencies p) = base_phase_dependencies p"
  "snapshot_phase_dependencies (build_phase_dependencies p) = snapshot_phase_dependencies p"
proof -
  have "phase_deps_step (build_phase_dependencies p) = phase_deps_step p"
    by (intro ext) (simp add: phase_deps_step_def)
  then show "base_phase_dependencies (build_phase_dependencies p) = base_phase_dependencies p"
    by (simp add: base_phase_dependencies_def)
qed (simp add: snapshot_phase_dependencies_def)

lemma self_build [simp]: "no_self_dependency (build_phase_dependencies p) = no_self_dependency p"
  by (simp add: no_self_dependency_def)

lemma required_phases_build [simp]:
  "pl_required_phases (build_phase_dependencies p) =
     Some (case pl_class p of PlanC \<Rightarrow> base_phase_dependencies p | SnapshotPlanC \<Rightarrow> snapshot_phase_dependencies p)"
  by (simp add: build_phase_dependencies_def)

text \<open>A plan whose clusters do not list themselves; a snapshot plan ignores the clusters.\<close>

definition sound_plan :: "plan \<Rightarrow> bool" where
  "sound_plan p \<longleftrightarrow> pl_class p = SnapshotPlanC \<or> no_self_dependency p"

text \<open>The phases a plan makes a phase wait for all come before it.\<close>

theorem required_phases_earlier:
  assumes "sound_plan p" and "r \<in> set (required_by (build_phase_dependencies p) i)"
  shows "r < i \<and> i < length (pl_phases p)"
proof (cases "pl_class p")
  case PlanC
  then show ?thesis
    using assms base_deps.required_earlier [of p "build_phase_dependencies p" r i]
    by (simp add: sound_plan_def)
next
  case SnapshotPlanC
  then show ?thesis
    using assms snapshot_deps.required_earlier [where p = p and q = "build_phase_dependencies p"]
    by simp
qed



subsection \<open>Snapshot plans\<close>

text \<open>Every phase has tasks and none of them has been run.\<close>

definition fresh_plan :: "plan \<Rightarrow> bool" where
  "fresh_plan p \<longleftrightarrow>
     list_all (\<lambda>ts. ts \<noteq> [] \<and> list_all (\<lambda>t. pt_state t = TaskInitial) ts) (pl_phases p)"

lemma fresh_phase:
  assumes "fresh_plan p" "i < length (pl_phases p)"
  shows "has_initial_task p i" "\<not> phase_complete p i" "\<not> phase_failed p i"
proof -
  from assms have "phase_tasks p i \<noteq> []" and init: "\<forall>t \<in> set (phase_tasks p i). pt_state t = TaskInitial"
    by (auto simp: fresh_plan_def phase_tasks_def list_all_iff)
  then have "hd (phase_tasks p i) \<in> set (phase_tasks p i)" by simp
  with init show "has_initial_task p i" by (auto simp: has_initial_task_def list_ex_iff)
  then show "\<not> phase_complete p i" by (rule has_initial_not_complete)
  show "\<not> phase_failed p i" using init by (auto simp: phase_failed_def list_ex_iff)
qed

lemma fresh_resumable: "fresh_plan p \<Longrightarrow> resumable p"
  using fresh_phase by (auto simp: resumable_def)

lemma ready_phases_fresh:
  assumes "fresh_plan p"
  shows "ready_phases_first p =
    (p, filter (\<lambda>i. list_all (phase_complete p) (required_by p i)) [0..<length (pl_phases p)])"
proof -
  have none: "filter (phase_failed p) [0..<length (pl_phases p)] = []"
    "filter (\<lambda>i. \<not> phase_failed p i \<and> phase_complete p i) [0..<length (pl_phases p)] = []"
    using fresh_phase [OF assms] by (auto simp: filter_empty_conv)
  have "map (map reset_failed_task) (pl_phases p) = pl_phases p"
    using assms by (auto simp: fresh_plan_def list_all_iff reset_failed_task_def intro!: map_idI)
  then have "reset_failed p = p" by (simp add: reset_failed_def)
  moreover have "startable_phases p None =
      filter (\<lambda>i. list_all (phase_complete p) (required_by p i)) [0..<length (pl_phases p)]"
    using fresh_phase [OF assms] by (auto simp: startable_phases_def intro!: filter_cong)
  ultimately show ?thesis unfolding ready_phases_first_def Let_def none by simp
qed

lemma required_by_snapshot:
  "pl_required_phases p = Some (snapshot_phase_dependencies p) \<Longrightarrow> i < length (pl_phases p) \<Longrightarrow>
    required_by p i = (if i = 0 then [] else [i - 1])"
  by (simp add: required_by_def snapshot_phase_dependencies_def map_of_map_restrict o_def restrict_map_def)

text \<open>After \<open>m\<close> phases exactly the first \<open>m\<close> are complete and the next one runs.\<close>

lemma snapshot_exec:
  assumes fresh: "fresh_plan p" and req: "pl_required_phases p = Some (snapshot_phase_dependencies p)"
    and "exec_reach p m q R"
  shows "length (pl_phases q) = length (pl_phases p) \<and> (\<forall>i. required_by q i = required_by p i) \<and>
    (\<forall>i < length (pl_phases p). phase_complete q i = (i < m)) \<and>
    (\<forall>i < length (pl_phases p). m \<le> i \<longrightarrow> has_initial_task q i) \<and>
    R = (if m < length (pl_phases p) then [m] else [])"
  using assms(3)
proof induction
  case (start q R)
  let ?n = "length (pl_phases p)"
  have q: "q = p" and R: "R = filter (\<lambda>i. list_all (phase_complete p) (required_by p i)) [0..<?n]"
    using start ready_phases_fresh [OF fresh] by auto
  have "R = filter (\<lambda>i. i = 0) [0..<?n]"
    unfolding R using required_by_snapshot [OF req] fresh_phase(2) [OF fresh] by (intro filter_cong) auto
  also have "\<dots> = (if 0 < ?n then [0] else [])"
    by (cases ?n) (auto simp: upt_conv_Cons filter_empty_conv simp del: upt_Suc)
  finally show ?case using fresh_phase [OF fresh] q by simp
next
  case (finish m q R k q')
  let ?n = "length (pl_phases p)"
  have k: "k = m" "m < ?n" and R: "R = [m]" using finish by (auto split: if_splits)
  have q': "phase_complete q' i = (i < Suc m)" if "i < ?n" for i
    using finish.IH finish.hyps(3) k that by auto
  have init: "has_initial_task q' i" if "i < ?n" "Suc m \<le> i" for i
    using finish.IH finish.hyps(3) k that by (simp add: has_initial_task_complete_phase)
  have "ready_phases_after q' k = filter (\<lambda>i. i = Suc m) [0..<?n]"
    unfolding ready_phases_after_def startable_phases_def
    using finish.IH finish.hyps(3) required_by_snapshot [OF req] q' init k
    by (intro filter_cong) (auto split: if_splits)
  also have "\<dots> = (if Suc m < ?n then [Suc m] else [])"
  proof (cases "Suc m < ?n")
    case True
    then have "[0..<?n] = [0..<Suc m] @ Suc m # [Suc (Suc m)..<?n]"
      by (metis le_add_diff_inverse less_imp_le_nat upt_add_eq_append upt_conv_Cons zero_le)
    with True show ?thesis by (simp add: filter_empty_conv del: upt_Suc)
  qed (auto simp: filter_empty_conv)
  finally show ?case using finish.IH finish.hyps(3) k R q' init by simp
qed

text \<open>The phases of a fresh snapshot plan run one at a time, in their order.\<close>

theorem snapshot_plan_serial:
  assumes "pl_class p = SnapshotPlanC" and "fresh_plan p" and "exec_reach (build_phase_dependencies p) m q R"
  shows "R = (if m < length (pl_phases p) then [m] else []) \<and>
    (\<forall>i < length (pl_phases p). phase_complete q i \<longleftrightarrow> i < m)"
proof -
  have "fresh_plan (build_phase_dependencies p)" using assms(2) by (simp add: fresh_plan_def)
  moreover have "pl_required_phases (build_phase_dependencies p) =
      Some (snapshot_phase_dependencies (build_phase_dependencies p))" using assms(1) by simp
  ultimately show ?thesis using snapshot_exec [OF _ _ assms(3)] by simp
qed

subsection \<open>Life cycle\<close>

text \<open>The operations on a plan, with the state changes of its tasks while it is executed.\<close>

datatype plan_op = OpReady | OpRun | OpStop | OpEnd | OpInvalid | OpTask nat nat task_state

definition set_task_state :: "plan \<Rightarrow> nat \<Rightarrow> nat \<Rightarrow> task_state \<Rightarrow> plan" where
  "set_task_state p i j s =
     (if i < length (pl_phases p)
      then p\<lparr>pl_phases := (pl_phases p)[i := (case drop j (pl_phases p ! i) of
          [] \<Rightarrow> pl_phases p ! i
        | t # ts \<Rightarrow> take j (pl_phases p ! i) @ t\<lparr>pt_state := s\<rparr> # ts)]\<rparr>
      else p)"

fun plan_step :: "plan_op \<Rightarrow> plan \<Rightarrow> plan res" where
  "plan_step OpReady p = Inr (set_ready p)"
| "plan_step OpRun p = plan_run p"
| "plan_step OpStop p = plan_stop p"
| "plan_step OpEnd p = plan_end p"
| "plan_step OpInvalid p = mark_invalid p"
| "plan_step (OpTask i j s) p = Inr (set_task_state p i j s)"

inductive life_cycle :: "plan_state \<Rightarrow> plan_state \<Rightarrow> bool" where
  "life_cycle s s"
| "life_cycle Uninitialised PInitial"
| "life_cycle PInitial PRunning"
| "life_cycle PFailed PRunning"
| "life_cycle PRunning PStopping"
| "life_cycle PRunning PSuccessful"
| "life_cycle PRunning PFailed"
| "life_cycle PStopping PSuccessful"
| "life_cycle PStopping PStopped"
| "life_cycle PInitial PInvalid"
| "life_cycle PFailed PInvalid"

inductive_simps life_cycle_from_final:
  "life_cycle PSuccessful s" "life_cycle PStopped s" "life_cycle PInvalid s"

lemma state_set_task_state [simp]: "pl_state (set_task_state p i j s) = pl_state p"
  by (simp add: set_task_state_def)

lemmas plan_op_defs = set_ready_def plan_run_def plan_stop_def plan_end_def mark_invalid_def

lemma plan_step_life_cycle:
  "plan_step op p = Inr q \<Longrightarrow> life_cycle (pl_state p) (pl_state q)"
  by (cases op) (auto simp: plan_op_defs intro: life_cycle.intros split: if_splits plan_state.splits)

text \<open>Every operation moves a plan along its life cycle; it becomes successful only by ending
  with every phase complete, and stopped or failed only by ending with an open phase.\<close>

theorem plan_step_outcome:
  assumes "plan_step op p = Inr q" and "pl_state q \<noteq> pl_state p"
  shows "life_cycle (pl_state p) (pl_state q) \<and>
    (pl_state q = PSuccessful \<longleftrightarrow> op = OpEnd \<and> all_phases_complete q) \<and>
    (pl_state q \<in> {PFailed, PStopped} \<longleftrightarrow> op = OpEnd \<and> \<not> all_phases_complete q)"
proof -
  have "all_phases_complete (p\<lparr>pl_state := s\<rparr>) = all_phases_complete p" for s
    by (simp add: all_phases_complete_def)
  then show ?thesis
    using assms plan_step_life_cycle [OF assms(1)]
    by (cases op) (auto simp: plan_op_defs split: if_splits plan_state.splits)
qed

interpretation successful: guarded_machine plan_step "\<lambda>p. pl_state p = PSuccessful"
  by unfold_locales (auto dest!: plan_step_life_cycle simp: life_cycle_from_final)

interpretation stopped: guarded_machine plan_step "\<lambda>p. pl_state p = PStopped"
  by unfold_locales (auto dest!: plan_step_life_cycle simp: life_cycle_from_final)

interpretation invalid: guarded_machine plan_step "\<lambda>p. pl_state p = PInvalid"
  by unfold_locales (auto dest!: plan_step_life_cycle simp: life_cycle_from_final)

text \<open>A plan that has succeeded, was stopped or became invalid stays so whatever is done to it.\<close>

theorem plan_final_states:
  assumes "pl_state p \<in> {PSuccessful, PStopped, PInvalid}"
  shows "pl_state (guarded_machine.run plan_step ops p) = pl_state p"
  using assms successful.run_inv [of p ops] stopped.run_inv [of p ops] invalid.run_inv [of p ops] by auto

section \<open>Examples\<close>

definition ex_task :: "string \<Rightarrow> cluster_item option \<Rightarrow> plan_task" where
  "ex_task i c = \<lparr>pt_id = i, pt_class = ConfigTaskC, pt_state = TaskInitial, pt_group = None,
     pt_model_item = LiveItem c, pt_node = Some c\<rparr>"

definition ex_plan :: "plan_class \<Rightarrow> cluster_item option list \<Rightarrow> plan" where
  "ex_plan c cls = \<lparr>pl_class = c, pl_phases = map (\<lambda>cl. [ex_task ''t'' cl]) cls, pl_has_lock_tasks = False,
     pl_state = PInitial, pl_plan_type = None, pl_snapshot_type = [], pl_required_phases = None,
     pl_celery_task_id = None\<rparr>"

definition ex_cluster :: "string \<Rightarrow> string \<Rightarrow> cluster_item" where
  "ex_cluster i deps = \<lparr>cl_vpath = ''/c/'' @ i, cl_item_id = i, cl_dependency_list = Some deps\<rparr>"

lemmas ex_simps = ex_plan_def ex_task_def ex_cluster_def phase_tasks_def phase_cluster_id_def
  get_cluster_phase_def get_task_cluster_def is_deleted_item_def req_clusters_def
  get_clusters_in_phase_def phase_deps_step_def phase_deps_init_def base_phase_dependencies_def
  build_phase_dependencies_def required_by_def Let_def has_key_def PRE_CLUSTER_GROUP_def

definition two_clusters :: plan where
  "two_clusters = ex_plan PlanC [None, Some (ex_cluster ''c1'' []), Some (ex_cluster ''c2'' ''c1''),
     Some (ex_cluster ''c3'' []), Some (ex_cluster ''c2'' ''c1'')]"

lemma two_clusters_deps:
  "base_phase_dependencies two_clusters = [(0, []), (1, [0]), (2, [1]), (3, [0]), (4, [1])]"
  by code_simp

lemma two_clusters_ok:
  "sound_plan two_clusters" "fresh_plan (build_phase_dependencies two_clusters)"
  "snd (ready_phases_first (build_phase_dependencies two_clusters)) = [0]"
  by code_simp+

lemma exec_reach_first: "exec_reach p 0 (fst (ready_phases_first p)) (snd (ready_phases_first p))"
  by (rule exec_reach.start) simp

lemma exec_reach_next:
  "exec_reach p m q R \<Longrightarrow> k \<in> set R \<Longrightarrow> S = removeAll k R @ ready_phases_after (complete_phase q k) k \<Longrightarrow>
    exec_reach p (Suc m) (complete_phase q k) S"
  using exec_reach.finish by blast

theorem required_phases_earlier_witness:
  "1 \<in> set (required_by (build_phase_dependencies two_clusters) 4) \<and> (1::nat) < 4"
proof -
  have r: "1 \<in> set (required_by (build_phase_dependencies two_clusters) 4)" by code_simp
  then show ?thesis using required_phases_earlier [OF two_clusters_ok(1) r] by simp
qed



definition snapshot_example :: plan where
  "snapshot_example = ex_plan SnapshotPlanC [None, None]"

theorem snapshot_plan_serial_witness:
  "snd (ready_phases_first (build_phase_dependencies snapshot_example)) = [0]"
proof -
  have "pl_class snapshot_example = SnapshotPlanC" "fresh_plan snapshot_example"
    "length (pl_phases snapshot_example) = 2"
    by code_simp+
  then show ?thesis
    using snapshot_plan_serial [OF _ _ exec_reach_first, of snapshot_example] by simp
qed

theorem plan_step_outcome_witness:
  "\<exists>q. plan_step OpRun two_clusters = Inr q \<and> life_cycle (pl_state two_clusters) (pl_state q)"
proof -
  let ?q = "(build_phase_dependencies two_clusters)\<lparr>pl_state := PRunning\<rparr>"
  have "plan_step OpRun two_clusters = Inr ?q" "pl_state ?q \<noteq> pl_state two_clusters"
    by (simp_all add: plan_run_def two_clusters_def ex_plan_def)
  then show ?thesis using plan_step_outcome by blast
qed

theorem plan_final_states_witness:
  "pl_state (guarded_machine.run plan_step [OpRun, OpEnd] (two_clusters\<lparr>pl_state := PStopped\<rparr>)) = PStopped"
  using plan_final_states [of "two_clusters\<lparr>pl_state := PStopped\<rparr>" "[OpRun, OpEnd]"] by simp

text \<open>
  Two clusters, the second depending on the first, each with an early and a late section: the late
  section of the second cluster waits for the first cluster only.
\<close>

definition two_sections :: plan where
  "two_sections = ex_plan PlanC [Some (ex_cluster ''c1'' []), Some (ex_cluster ''c2'' ''c1''),
     Some (ex_cluster ''c1'' []), Some (ex_cluster ''c2'' ''c1'')]"

text \<open>Two phases of the same cluster can run at the same time: when a cluster with
  dependencies returns in a later section of the plan, its new phase does not wait for its own
  earlier phase, although the code treats the continuation of other clusters that way.\<close>

theorem dependent_cluster_sections_overlap:
  "\<exists>q. exec_reach (build_phase_dependencies two_sections) 2 q [1, 3] \<and>
     phase_cluster_id q 1 = ''c2'' \<and> phase_cluster_id q 3 = ''c2'' \<and>
     \<not> phase_complete q 1 \<and> \<not> phase_complete q 3"
proof -
  let ?p = "build_phase_dependencies two_sections"
  let ?q = "complete_phase (complete_phase ?p 0) 2"
  have "fresh_plan ?p" by code_simp
  then have R0: "ready_phases_first ?p = (?p, snd (ready_phases_first ?p))"
    by (simp add: ready_phases_fresh)
  have R1: "snd (ready_phases_first ?p) = [0]" by code_simp
  have R2: "ready_phases_after (complete_phase ?p 0) 0 = [1, 2]" by code_simp
  have R3: "ready_phases_after ?q 2 = [3]" by code_simp
  have "exec_reach ?p 0 ?p [0]" using exec_reach.start [OF R0] R1 by simp
  then have "exec_reach ?p (Suc 0) (complete_phase ?p 0) [1, 2]"
    by (rule exec_reach_next) (simp_all add: R2)
  then have "exec_reach ?p (Suc (Suc 0)) ?q [1, 3]"
    by (rule exec_reach_next) (simp_all add: R3)
  moreover have "phase_cluster_id ?q 1 = ''c2''" "phase_cluster_id ?q 3 = ''c2''"
    "\<not> phase_complete ?q 1" "\<not> phase_complete ?q 3"
    by code_simp+
  ultimately show ?thesis by (metis numeral_2_eq_2)
qed

end
