(* ===== verification/Validators.thy ===== *)
theory Validators
  imports Prelude
begin

text \<open>
  \<open>litp/core/validators.py\<close>: property values, validation errors, and the validators of property
  and item types. The regular expressions of the property types are held compiled, with the
  matching of Python's \<open>re\<close>. What the validators ask of \<open>netaddr\<close>, of the file system and of
  validators that extensions define is an \<open>environ\<close>, an argument of everything that validates.
\<close>

section \<open>Property values\<close>

text \<open>A stored value: \<open>None\<close>, a string, or a callable (a view).\<close>

datatype pval = VNone | VStr string | VCall string

fun pval_str :: "pval \<Rightarrow> string" where
  "pval_str VNone = ''None''"
| "pval_str (VStr s) = s"
| "pval_str (VCall f) = f"

fun truthy :: "pval \<Rightarrow> bool" where
  "truthy VNone = False"
| "truthy (VStr s) = (s \<noteq> [])"
| "truthy (VCall f) = True"

fun is_callable :: "pval \<Rightarrow> bool" where
  "is_callable (VCall f) = True"
| "is_callable _ = False"

text \<open>\<open>v > w\<close> in Python 2: strings by their code points, values of different types by the names of
  the types, \<open>None\<close> before everything.\<close>

fun pval_greater :: "pval \<Rightarrow> pval \<Rightarrow> bool" where
  "pval_greater (VStr s) (VStr t) = (t < s)"
| "pval_greater (VStr s) _ = True"
| "pval_greater (VCall f) VNone = True"
| "pval_greater (VCall f) (VCall g) = (g < f)"
| "pval_greater _ _ = False"

section \<open>Validation errors\<close>

datatype error_type =
    CARDINALITY_ERROR | CHILD_NOT_ALLOWED_ERROR | INTERNAL_SERVER_ERROR | ITEM_EXISTS_ERROR
  | INVALID_CHILD_TYPE_ERROR | INVALID_LOCATION_ERROR | INVALID_REQUEST_ERROR | INVALID_TYPE_ERROR
  | METHOD_NOT_ALLOWED_ERROR | MISSING_REQ_ITEM_ERROR | MISSING_REQ_PROP_ERROR
  | PROP_NOT_ALLOWED_ERROR | VALIDATION_ERROR

record validation_error =
  ve_item_path :: "string option"
  ve_property_name :: "string option"
  ve_error_message :: string
  ve_error_type :: error_type

definition value_error :: "string \<Rightarrow> validation_error" where
  "value_error msg = \<lparr>ve_item_path = None, ve_property_name = None, ve_error_message = msg,
     ve_error_type = VALIDATION_ERROR\<rparr>"

definition property_error :: "string \<Rightarrow> string \<Rightarrow> error_type \<Rightarrow> validation_error" where
  "property_error name msg t = \<lparr>ve_item_path = None, ve_property_name = Some name,
     ve_error_message = msg, ve_error_type = t\<rparr>"

definition item_error :: "string option \<Rightarrow> string \<Rightarrow> error_type \<Rightarrow> validation_error" where
  "item_error path msg t = \<lparr>ve_item_path = path, ve_property_name = None,
     ve_error_message = msg, ve_error_type = t\<rparr>"

definition error_name :: "error_type \<Rightarrow> string" where
  "error_name t =
     (case t of CARDINALITY_ERROR \<Rightarrow> ''CardinalityError''
      | CHILD_NOT_ALLOWED_ERROR \<Rightarrow> ''ChildNotAllowedError''
      | INTERNAL_SERVER_ERROR \<Rightarrow> ''InternalServerError''
      | ITEM_EXISTS_ERROR \<Rightarrow> ''ItemExistsError''
      | INVALID_CHILD_TYPE_ERROR \<Rightarrow> ''InvalidChildTypeError''
      | INVALID_LOCATION_ERROR \<Rightarrow> ''InvalidLocationError''
      | INVALID_REQUEST_ERROR \<Rightarrow> ''InvalidRequestError''
      | INVALID_TYPE_ERROR \<Rightarrow> ''InvalidTypeError''
      | METHOD_NOT_ALLOWED_ERROR \<Rightarrow> ''MethodNotAllowedError''
      | MISSING_REQ_ITEM_ERROR \<Rightarrow> ''MissingRequiredItemError''
      | MISSING_REQ_PROP_ERROR \<Rightarrow> ''MissingRequiredPropertyError''
      | PROP_NOT_ALLOWED_ERROR \<Rightarrow> ''PropertyNotAllowedError''
      | VALIDATION_ERROR \<Rightarrow> ''ValidationError'')"

definition to_dict :: "validation_error \<Rightarrow> string dict" where
  "to_dict e =
     [(''error'', error_name (ve_error_type e)), (''message'', ve_error_message e)] @
     (case ve_item_path e of None \<Rightarrow> [] | Some p \<Rightarrow> [(''uri'', p)]) @
     (case ve_property_name e of None \<Rightarrow> [] | Some p \<Rightarrow> [(''property_name'', p)])"

section \<open>Regular expressions\<close>

datatype regex =
    Empty
  | AnyChar
  | CharIn string
  | CharNotIn string
  | Seq regex regex
  | Alt regex regex
  | Star regex
  | Begin
  | End
  | WordBoundary

definition word_char :: "char \<Rightarrow> bool" where
  "word_char c \<longleftrightarrow>
     (CHR ''a'' \<le> c \<and> c \<le> CHR ''z'') \<or> (CHR ''A'' \<le> c \<and> c \<le> CHR ''Z'') \<or>
     (CHR ''0'' \<le> c \<and> c \<le> CHR ''9'') \<or> c = CHR ''_''"

definition newline :: char where
  "newline = CHR 0x0A"

definition word_at :: "string \<Rightarrow> nat \<Rightarrow> bool" where
  "word_at s i \<longleftrightarrow> i < length s \<and> word_char (s ! i)"

text \<open>The end positions of the matches of \<open>r\<close> in \<open>s\<close> that start at \<open>i\<close>. A repetition goes on
  only after an iteration that consumed text, so the length of the subject is enough fuel.\<close>

fun star_ends :: "(nat \<Rightarrow> nat list) \<Rightarrow> nat \<Rightarrow> nat \<Rightarrow> nat list" where
  "star_ends f 0 i = [i]"
| "star_ends f (Suc n) i = i # concat (map (star_ends f n) (filter (\<lambda>j. i < j) (f i)))"

fun ends :: "regex \<Rightarrow> string \<Rightarrow> nat \<Rightarrow> nat list" where
  "ends Empty s i = [i]"
| "ends AnyChar s i = (if i < length s \<and> s ! i \<noteq> newline then [Suc i] else [])"
| "ends (CharIn cs) s i = (if i < length s \<and> s ! i \<in> set cs then [Suc i] else [])"
| "ends (CharNotIn cs) s i = (if i < length s \<and> s ! i \<notin> set cs then [Suc i] else [])"
| "ends (Seq a b) s i = concat (map (ends b s) (ends a s i))"
| "ends (Alt a b) s i = ends a s i @ ends b s i"
| "ends (Star a) s i = star_ends (ends a s) (length s) i"
| "ends Begin s i = (if i = 0 then [i] else [])"
| "ends End s i = (if i = length s \<or> Suc i = length s \<and> s ! i = newline then [i] else [])"
| "ends WordBoundary s i =
     (if word_at s i \<noteq> (0 < i \<and> word_at s (i - 1)) then [i] else [])"

definition re_match :: "regex \<Rightarrow> string \<Rightarrow> bool" where
  "re_match r s \<longleftrightarrow> ends r s 0 \<noteq> []"

definition re_search :: "regex \<Rightarrow> string \<Rightarrow> bool" where
  "re_search r s \<longleftrightarrow> list_ex (\<lambda>i. ends r s i \<noteq> []) [0..<Suc (length s)]"

fun re_literal :: "string \<Rightarrow> regex" where
  "re_literal [] = Empty"
| "re_literal (c # cs) = Seq (CharIn [c]) (re_literal cs)"

section \<open>The world around the validators\<close>

record ip_net =
  net_is_multicast :: bool
  net_is_reserved :: bool

record ip_addr =
  addr_version :: nat
  addr_value :: int

datatype net_exn = AddrFormatError string | NetValueError string | NetOtherError string

record environ =
  env_ip_network :: "pval \<Rightarrow> nat \<Rightarrow> net_exn + ip_net"
  env_ip_address :: "pval \<Rightarrow> net_exn + ip_addr"
  env_valid_ipv4 :: "pval \<Rightarrow> bool"
  env_valid_ipv6 :: "pval \<Rightarrow> bool"
  env_isdir :: "string \<Rightarrow> bool"
  env_property_validator :: "string \<Rightarrow> pval \<Rightarrow> validation_error option res"
  env_item_validator :: "string \<Rightarrow> pval dict \<Rightarrow> validation_error option res"

section \<open>Property validators\<close>

datatype property_validator =
    RegexValidator regex "string option"
  | IsNotDigitValidator
  | NetworkValidator
  | NetworkValidatorV6
  | NotEmptyStringValidator
  | ZeroAddressValidator
  | IPAddressValidator string
  | DirectoryExistValidator
  | PropertyLengthValidator int
  | IntValidator
  | IntRangeValidator "int option" "int option"
  | RestrictedPropertiesValidator "pval list" "string option"
  | IPv6AddressAndMaskValidator
  | ExtensionPropertyValidator string

definition digit :: "char \<Rightarrow> bool" where
  "digit c \<longleftrightarrow> CHR ''0'' \<le> c \<and> c \<le> CHR ''9''"

definition white :: "char \<Rightarrow> bool" where
  "white c \<longleftrightarrow> c \<in> {CHR '' '', CHR 0x09, CHR 0x0A, CHR 0x0B, CHR 0x0C, CHR 0x0D}"

definition strip :: "string \<Rightarrow> string" where
  "strip s = rev (dropWhile white (rev (dropWhile white s)))"

fun digits_value :: "int \<Rightarrow> string \<Rightarrow> int" where
  "digits_value n [] = n"
| "digits_value n (c # cs) = digits_value (10 * n + (of_char c - 48)) cs"

text \<open>\<open>int(s)\<close> for a string: \<open>None\<close> for the \<open>ValueError\<close>.\<close>

definition parse_int :: "string \<Rightarrow> int option" where
  "parse_int s =
     (let t = strip s;
          neg = (case t of c # _ \<Rightarrow> c = CHR ''-'' | [] \<Rightarrow> False);
          ds = (case t of c # u \<Rightarrow> if c = CHR ''-'' \<or> c = CHR ''+'' then u else t | [] \<Rightarrow> [])
      in if ds \<noteq> [] \<and> list_all digit ds
         then Some (if neg then - digits_value 0 ds else digits_value 0 ds) else None)"

text \<open>\<open>int(v)\<close>: \<open>Inr None\<close> is the \<open>ValueError\<close> the validators catch.\<close>

fun int_of_pval :: "pval \<Rightarrow> int option res" where
  "int_of_pval (VStr s) = Inr (parse_int s)"
| "int_of_pval VNone = Inl (TypeError ''int() argument must be a string or a number, not NoneType'')"
| "int_of_pval (VCall f) = Inl (TypeError ''int() argument must be a string or a number, not function'')"

text \<open>\<open>template % v\<close> for a template with one \<open>%s\<close>.\<close>

fun format1 :: "string \<Rightarrow> string \<Rightarrow> string" where
  "format1 [] v = []"
| "format1 (c # t) v =
     (if c = CHR ''%'' \<and> (case t of d # _ \<Rightarrow> d = CHR ''s'' | [] \<Rightarrow> False) then v @ tl t
      else c # format1 t v)"

definition quoted :: "string \<Rightarrow> string" where
  "quoted s = [CHR 0x27] @ s @ [CHR 0x27]"

definition opt_int_str :: "int option \<Rightarrow> string" where
  "opt_int_str m = (case m of None \<Rightarrow> ''None'' | Some i \<Rightarrow> str_of_int i)"

definition regex_validate :: "regex \<Rightarrow> string option \<Rightarrow> pval \<Rightarrow> validation_error option" where
  "regex_validate r desc v =
     (if \<not> re_search r (pval_str v)
      then Some (value_error (case desc of
             Some d \<Rightarrow> ''Invalid value '' @ quoted (pval_str v) @ ''. '' @ d
           | None \<Rightarrow> ''Invalid value '' @ quoted (pval_str v) @ ''.''))
      else None)"

definition is_not_digit_validate :: "pval \<Rightarrow> validation_error option res" where
  "is_not_digit_validate v =
     (if pval_str v = ''None'' then Inr (Some (value_error (''Invalid value: '' @ quoted (pval_str v))))
      else (case v of
              VStr s \<Rightarrow> Inr (if s \<noteq> [] \<and> list_all digit s
                 then Some (value_error (''Invalid value: '' @ quoted s @ '' is digit '')) else None)
            | _ \<Rightarrow> Inl (AttributeError ''isdigit'')))"

definition has_slash :: "pval \<Rightarrow> bool res" where
  "has_slash v = (case v of VStr s \<Rightarrow> Inr (slash \<in> set s) | _ \<Rightarrow> Inl (TypeError ''argument is not iterable''))"

definition network_validate :: "environ \<Rightarrow> pval \<Rightarrow> validation_error option res" where
  "network_validate env v =
     (if \<not> truthy v then Inr None
      else (case env_ip_network env v 4 of
              Inl (AddrFormatError m) \<Rightarrow> Inr (Some (value_error
                (if m = ''invalid prefix for IPv4 address!''
                 then ''Invalid prefix for destination IPv4 network at '' @ quoted (pval_str v)
                 else ''Invalid IPv4 subnet value '' @ quoted (pval_str v))))
            | Inl (NetValueError m) \<Rightarrow>
                Inr (Some (value_error (''Invalid IPv4 subnet value '' @ quoted (pval_str v))))
            | Inl (NetOtherError m) \<Rightarrow> Inr (Some (value_error (''Invalid value: '' @ m)))
            | Inr _ \<Rightarrow> rbind (has_slash v) (\<lambda>b.
                Inr (if b then None else Some (value_error ''Subnet must include prefix length'')))))"

definition network_v6_validate :: "environ \<Rightarrow> pval \<Rightarrow> validation_error option res" where
  "network_v6_validate env v =
     (if \<not> truthy v then Inr None
      else (case env_ip_network env v 6 of
              Inl (AddrFormatError m) \<Rightarrow> Inr (Some (value_error
                (if m = ''invalid prefix for IPv6 address!''
                 then ''Invalid prefix for destination IPv6 network at '' @ quoted (pval_str v)
                 else ''Invalid IPv6 subnet value '' @ quoted (pval_str v))))
            | Inl (NetValueError m) \<Rightarrow> Inr (Some (value_error (''Invalid value: '' @ m)))
            | Inl (NetOtherError m) \<Rightarrow> Inr (Some (value_error (''Invalid value: '' @ m)))
            | Inr net \<Rightarrow>
                if net_is_multicast net
                then Inr (Some (value_error ''Subnet cannot be a multicast address''))
                else if net_is_reserved net
                then Inr (Some (value_error ''Subnet cannot be a reserved network''))
                else rbind (has_slash v) (\<lambda>b.
                  Inr (if b then None else Some (value_error ''Subnet must include prefix length'')))))"

definition not_empty_string_validate :: "pval \<Rightarrow> validation_error option" where
  "not_empty_string_validate v =
     (if v \<noteq> VNone \<and> \<not> truthy v then Some (value_error ''Property cannot be empty'') else None)"

definition zero_address_validate :: "pval \<Rightarrow> validation_error option" where
  "zero_address_validate v =
     (if v = VStr ''0.0.0.0/0''
      then Some (value_error (''Invalid subnet value '' @ quoted (pval_str v))) else None)"

definition ip_address_validate :: "environ \<Rightarrow> string \<Rightarrow> pval \<Rightarrow> validation_error option res" where
  "ip_address_validate env version v =
     (let bad = Inr (Some (value_error (''Invalid '' @
            (if version = ''6'' then ''IPv6Address'' else ''IPAddress'') @ '' value '' @ quoted (pval_str v))))
      in if version = ''4'' \<and> \<not> env_valid_ipv4 env v \<or> version = ''6'' \<and> \<not> env_valid_ipv6 env v then bad
         else if version = ''both'' \<and> \<not> (env_valid_ipv4 env v \<or> env_valid_ipv6 env v) then bad
         else (case env_ip_address env v of
                 Inl (AddrFormatError _) \<Rightarrow> bad
               | Inl (NetValueError _) \<Rightarrow> bad
               | Inl (NetOtherError m) \<Rightarrow> Inl (GenericException m)
               | Inr a \<Rightarrow>
                   Inr (if str_of_int (int (addr_version a)) \<noteq> version \<and> version \<noteq> ''both''
                        then Some (value_error (''Invalid IPAddress value '' @ quoted (pval_str v) @
                          '' for IPv'' @ version)) else None)))"

definition property_length_validate :: "int \<Rightarrow> pval \<Rightarrow> validation_error option res" where
  "property_length_validate max_length v =
     (case v of
        VStr s \<Rightarrow> Inr (if max_length < int (length s)
          then Some (value_error (''Property cannot be longer than '' @ str_of_int max_length)) else None)
      | _ \<Rightarrow> Inl (TypeError ''object has no len()''))"

definition int_validate :: "pval \<Rightarrow> validation_error option res" where
  "int_validate v = rbind (int_of_pval v) (\<lambda>n. Inr (case n of
     None \<Rightarrow> Some (value_error (''Invalid value '' @ quoted (pval_str v) @ '', numeric value expected''))
   | Some _ \<Rightarrow> None))"

definition int_range_validate ::
  "int option \<Rightarrow> int option \<Rightarrow> pval \<Rightarrow> validation_error option res" where
  "int_range_validate min_value max_value v = rbind (int_of_pval v) (\<lambda>n. Inr (case n of
     None \<Rightarrow> Some (value_error (''Invalid value '' @ quoted (pval_str v) @ '', numeric value expected''))
   | Some i \<Rightarrow>
       if (case min_value of None \<Rightarrow> False | Some m \<Rightarrow> i < m) \<or>
          (case max_value of None \<Rightarrow> False | Some m \<Rightarrow> m < i)
       then Some (value_error (''Value outside range '' @ opt_int_str min_value @ '' - '' @
              opt_int_str max_value))
       else None))"

definition restricted_validate ::
  "pval list \<Rightarrow> string option \<Rightarrow> pval \<Rightarrow> validation_error option" where
  "restricted_validate values custom v =
     (if v \<in> set values
      then Some (value_error (format1 (case custom of
             Some m \<Rightarrow> if m \<noteq> [] then m else ''%s is not allowed as value for this property.''
           | None \<Rightarrow> ''%s is not allowed as value for this property.'') (pval_str v)))
      else None)"

text \<open>\<open>value.split("/", 1)\<close>, with \<open>None\<close> where the unpacking of the two parts fails.\<close>

definition split_first_slash :: "string \<Rightarrow> (string \<times> string) option" where
  "split_first_slash s =
     (case dropWhile (\<lambda>c. c \<noteq> slash) s of
        [] \<Rightarrow> None
      | c # t \<Rightarrow> Some (takeWhile (\<lambda>c. c \<noteq> slash) s, t))"

definition ipv6_mask_validate :: "environ \<Rightarrow> pval \<Rightarrow> validation_error option res" where
  "ipv6_mask_validate env v =
     (let err = (\<lambda>subtype. value_error (''IPv6 address '' @ quoted (pval_str v) @ '' '' @ subtype));
          check = (\<lambda>address. case env_ip_address env (VStr address) of
            Inl (AddrFormatError m) \<Rightarrow> Inl (GenericException m)
          | Inl (NetValueError m) \<Rightarrow> Inl (ValueError m)
          | Inl (NetOtherError m) \<Rightarrow> Inl (GenericException m)
          | Inr a \<Rightarrow>
              Inr (if Inr a = env_ip_address env (VStr ''::'') \<or> Inr a = env_ip_address env (VStr ''::1'')
                   then Some (err ''is not permitted'') else None))
      in (case env_ip_network env v 6 of
            Inl (AddrFormatError _) \<Rightarrow> Inr (Some (err ''is not valid''))
          | Inl (NetValueError m) \<Rightarrow> Inl (ValueError m)
          | Inl (NetOtherError m) \<Rightarrow> Inl (GenericException m)
          | Inr _ \<Rightarrow>
              (case v of
                 VStr s \<Rightarrow>
                   (case split_first_slash s of
                      None \<Rightarrow> check s
                    | Some (address, prefix_len) \<Rightarrow>
                        (case parse_int prefix_len of
                           None \<Rightarrow> Inr (Some (err ''is not valid''))
                         | Some n \<Rightarrow> if n = 0 then Inr (Some (err ''is not valid'')) else check address))
               | _ \<Rightarrow> Inl (AttributeError ''split''))))"

fun validate_property :: "environ \<Rightarrow> property_validator \<Rightarrow> pval \<Rightarrow> validation_error option res" where
  "validate_property env (RegexValidator r desc) v = Inr (regex_validate r desc v)"
| "validate_property env IsNotDigitValidator v = is_not_digit_validate v"
| "validate_property env NetworkValidator v = network_validate env v"
| "validate_property env NetworkValidatorV6 v = network_v6_validate env v"
| "validate_property env NotEmptyStringValidator v = Inr (not_empty_string_validate v)"
| "validate_property env ZeroAddressValidator v = Inr (zero_address_validate v)"
| "validate_property env (IPAddressValidator version) v = ip_address_validate env version v"
| "validate_property env DirectoryExistValidator v = Inl (AttributeError ''get'')"
| "validate_property env (PropertyLengthValidator n) v = property_length_validate n v"
| "validate_property env IntValidator v = int_validate v"
| "validate_property env (IntRangeValidator lo hi) v = int_range_validate lo hi v"
| "validate_property env (RestrictedPropertiesValidator vs m) v = Inr (restricted_validate vs m v)"
| "validate_property env IPv6AddressAndMaskValidator v = ipv6_mask_validate env v"
| "validate_property env (ExtensionPropertyValidator n) v = env_property_validator env n v"

section \<open>Item validators\<close>

datatype item_validator =
    MaxValueValidator string string
  | OnePropertyValidator "string list"
  | DirectoryExistItemValidator
  | ExtensionItemValidator string

definition get_or_none :: "pval dict \<Rightarrow> string \<Rightarrow> pval" where
  "get_or_none d k = (case map_of d k of None \<Rightarrow> VNone | Some v \<Rightarrow> v)"

definition max_value_validate :: "string \<Rightarrow> string \<Rightarrow> pval dict \<Rightarrow> validation_error option" where
  "max_value_validate limit_name name props =
     (let limit_value = get_or_none props limit_name; v = get_or_none props name
      in if truthy limit_value \<and> truthy v \<and> pval_greater v limit_value
         then Some (property_error name
           (name @ '' value is greater than '' @ limit_name @ '' value'') VALIDATION_ERROR)
         else None)"

definition one_property_validate :: "string list \<Rightarrow> pval dict \<Rightarrow> validation_error option" where
  "one_property_validate names props =
     (let n = length (filter (\<lambda>p. has_key p props) names)
      in if n = 0 \<or> 1 < n
         then Some (value_error (''One of '' @ join_with '' or '' names @ '' property must be set.''))
         else None)"

definition directory_exist_validate :: "environ \<Rightarrow> pval dict \<Rightarrow> validation_error option" where
  "directory_exist_validate env props =
     (let v = get_or_none props ''path'';
          msg = ''Invalid value: '' @ quoted (pval_str v) @ '' directory does not exist ''
      in if pval_str v = ''None'' then Some (value_error msg)
         else if \<not> env_isdir env (pval_str v) then Some (value_error msg) else None)"

fun validate_item :: "environ \<Rightarrow> item_validator \<Rightarrow> pval dict \<Rightarrow> validation_error option res" where
  "validate_item env (MaxValueValidator l n) props = Inr (max_value_validate l n props)"
| "validate_item env (OnePropertyValidator ns) props = Inr (one_property_validate ns props)"
| "validate_item env DirectoryExistItemValidator props = Inr (directory_exist_validate env props)"
| "validate_item env (ExtensionItemValidator n) props = env_item_validator env n props"

section \<open>Integers and their text\<close>

lemma of_char_digit: "k < 10 \<Longrightarrow> (of_char (char_of (48 + k) :: char) :: nat) = 48 + k"
  by (simp add: of_char_of)

lemma of_char_digit_int: "k < 10 \<Longrightarrow> (of_char (char_of (48 + k :: nat) :: char) :: int) = 48 + int k"
  using of_char_digit [of k] by (metis of_nat_add of_nat_numeral of_nat_of_char)

lemma digit_char: "k < 10 \<Longrightarrow> digit (char_of (48 + k :: nat))"
  by (simp add: digit_def less_eq_char_def of_char_digit)

lemma digits_value_append:
  "digits_value n (xs @ [c]) = 10 * digits_value n xs + (of_char c - 48)"
  by (induction n xs rule: digits_value.induct) simp_all

lemma nat_digits_ok:
  "nat_digits n \<noteq> [] \<and> list_all digit (nat_digits n) \<and> digits_value 0 (nat_digits n) = int n"
proof (induction n rule: nat_digits.induct)
  case (1 n)
  show ?case
  proof (cases "n < 10")
    case True
    then show ?thesis by (simp add: nat_digits.simps [of n] digit_char of_char_digit_int)
  next
    case False
    with "1.IH" have "digits_value 0 (nat_digits (n div 10)) = int (n div 10)" by simp
    moreover have "int n = 10 * int (n div 10) + int (n mod 10)"
      by (metis mult_div_mod_eq of_nat_add of_nat_mult of_nat_numeral)
    ultimately show ?thesis using False "1.IH"
      by (simp add: nat_digits.simps [of n] digits_value_append digit_char of_char_digit_int)
  qed
qed

lemma digit_not_white: "digit c \<Longrightarrow> \<not> white c"
  by (auto simp: digit_def white_def less_eq_char_def)

lemma digit_not_sign: "digit c \<Longrightarrow> c \<noteq> CHR ''-'' \<and> c \<noteq> CHR ''+''"
  by (auto simp: digit_def less_eq_char_def)

lemma strip_id: "s \<noteq> [] \<Longrightarrow> \<not> white (hd s) \<Longrightarrow> \<not> white (last s) \<Longrightarrow> strip s = s"
proof -
  have id: "dropWhile white t = t" if "t \<noteq> []" "\<not> white (hd t)" for t
    using that by (cases t) auto
  assume "s \<noteq> []" "\<not> white (hd s)" "\<not> white (last s)"
  then show ?thesis using id [of s] id [of "rev s"] by (simp add: strip_def hd_rev)
qed

lemma parse_int_digits:
  assumes "ds \<noteq> []" "list_all digit ds"
  shows "parse_int ds = Some (digits_value 0 ds)" "parse_int (CHR ''-'' # ds) = Some (- digits_value 0 ds)"
proof -
  have d: "digit (hd ds)" "digit (last ds)" using assms by (auto simp: list_all_iff)
  then have "strip ds = ds" using assms by (intro strip_id) (auto dest: digit_not_white)
  moreover have "hd ds \<noteq> CHR ''-''" "hd ds \<noteq> CHR ''+''" using digit_not_sign [OF d(1)] by simp_all
  ultimately show "parse_int ds = Some (digits_value 0 ds)"
    using assms by (cases ds) (simp_all add: parse_int_def Let_def)
  have "strip (CHR ''-'' # ds) = CHR ''-'' # ds"
    using d assms by (intro strip_id) (auto simp: white_def dest: digit_not_white)
  then show "parse_int (CHR ''-'' # ds) = Some (- digits_value 0 ds)"
    using assms by (simp add: parse_int_def Let_def)
qed

text \<open>The integer a validator reads back from the text of an integer is that integer.\<close>

lemma parse_int_str: "parse_int (str_of_int i) = Some i"
  using nat_digits_ok [of "nat i"] nat_digits_ok [of "nat (- i)"] parse_int_digits
  by (simp add: str_of_int_def)

text \<open>The integer range validator accepts exactly the texts of integers within its bounds.\<close>

theorem int_range_accepts:
  "validate_property env (IntRangeValidator lo hi) (VStr s) = Inr None \<longleftrightarrow>
     (\<exists>i. parse_int s = Some i \<and> (lo = None \<or> the lo \<le> i) \<and> (hi = None \<or> i \<le> the hi))"
  by (auto simp: int_range_validate_def not_less split: option.splits)

lemma card_1_iff_ex1: "card A = 1 \<longleftrightarrow> (\<exists>!x. x \<in> A)"
proof -
  have "card A = 1 \<longleftrightarrow> (\<exists>x. A = {x})" by (simp add: card_1_singleton_iff)
  also have "\<dots> \<longleftrightarrow> (\<exists>!x. x \<in> A)" by blast
  finally show ?thesis .
qed

text \<open>The one-property validator accepts an item exactly when one of its names is set.\<close>

theorem one_property_accepts:
  assumes "distinct names"
  shows "validate_item env (OnePropertyValidator names) props = Inr None \<longleftrightarrow>
    (\<exists>!n. n \<in> set names \<and> has_key n props)"
proof -
  let ?set = "filter (\<lambda>p. has_key p props) names"
  have "validate_item env (OnePropertyValidator names) props = Inr None \<longleftrightarrow>
      \<not> (length ?set = 0 \<or> 1 < length ?set)"
    by (simp add: one_property_validate_def Let_def)
  also have "\<dots> \<longleftrightarrow> length ?set = 1" by linarith
  also have "length ?set = card {n \<in> set names. has_key n props}"
    using assms distinct_card [of ?set] by simp
  finally show ?thesis by (simp only: card_1_iff_ex1 mem_Collect_eq)
qed

theorem one_property_accepts_witness:
  "\<forall>env. validate_item env (OnePropertyValidator [''a'', ''b'']) [(''a'', VNone)] = Inr None"
  using one_property_accepts [of "[''a'', ''b'']" _ "[(''a'', VNone)]"] by (auto simp: has_key_def)

text \<open>The maximum value validator orders the texts and not the numbers: it accepts a value of
  ten under a limit of nine.\<close>

theorem max_value_orders_texts:
  "validate_item env (MaxValueValidator ''limit'' ''size'')
     [(''limit'', VStr (str_of_int 9)), (''size'', VStr (str_of_int 10))] = Inr None"
proof -
  have "str_of_int 9 = ''9''" "str_of_int 10 = ''10''" by code_simp+
  then show ?thesis by (simp add: max_value_validate_def Let_def get_or_none_def)
qed

end
