(* ===== verification/Model_Type.thy ===== *)
theory Model_Type
  imports Validators
begin

text \<open>
  \<open>litp/core/model_type.py\<close> and the registration part of \<open>litp/core/model_manager.py\<close>: property
  types, item types with their structure, the registry that collects them, and the extension
  relation between item types, computed upwards (\<open>_all_supertypes\<close>) and downwards
  (\<open>get_extending_types\<close> of \<open>litp/core/model_dependency.py\<close>).
\<close>

section \<open>Property types and the members of a structure\<close>

record property_type =
  ptype_id :: string
  ptype_regex :: regex
  ptype_validators :: "property_validator list"
  ptype_deprecated :: bool

text \<open>The default pattern \<open>^.*$\<close>.\<close>

definition any_line :: regex where
  "any_line = Seq Begin (Seq (Star AnyChar) End)"

definition new_property_type ::
  "string \<Rightarrow> regex option \<Rightarrow> property_validator list \<Rightarrow> bool \<Rightarrow> string option \<Rightarrow> property_type" where
  "new_property_type i r validators deprecated desc =
     (let re = (case r of None \<Rightarrow> any_line | Some re \<Rightarrow> re)
      in \<lparr>ptype_id = i, ptype_regex = re, ptype_validators = RegexValidator re desc # validators,
          ptype_deprecated = deprecated\<rparr>)"

record property_field =
  pf_prop_type_id :: string
  pf_description :: string
  pf_default :: "string option"
  pf_required :: bool
  pf_deprecated :: bool
  pf_updatable_plugin :: bool
  pf_updatable_rest :: bool
  pf_configuration :: bool
  pf_site_specific :: bool
  pf_prop_type :: "property_type option"

record view_field =
  vf_prop_type_id :: string
  vf_description :: string
  vf_callable :: string
  vf_deprecated :: bool

record child_field =
  cf_item_type_id :: string
  cf_required :: bool
  cf_require :: "string option"
  cf_deprecated :: bool

record collection_field =
  lf_item_type_id :: string
  lf_min_count :: int
  lf_max_count :: int
  lf_require :: "string option"
  lf_deprecated :: bool

record ref_collection_field = collection_field +
  lf_exclusive :: bool
  lf_read_only :: bool

record reference_field =
  rf_item_type_id :: string
  rf_required :: bool
  rf_require :: "string option"
  rf_exclusive :: bool
  rf_deprecated :: bool
  rf_read_only :: bool

text \<open>The classes of \<open>_BaseStructure\<close>; their \<open>__eq__\<close> compares class and attributes, which is
  the equality of the datatype.\<close>

datatype field =
    Property property_field
  | View view_field
  | Child child_field
  | Collection collection_field
  | RefCollection ref_collection_field
  | Reference reference_field

fun is_property :: "field \<Rightarrow> bool" where
  "is_property (Property _) = True"
| "is_property _ = False"

fun is_view :: "field \<Rightarrow> bool" where
  "is_view (View _) = True"
| "is_view _ = False"

fun is_child :: "field \<Rightarrow> bool" where
  "is_child (Child _) = True"
| "is_child _ = False"

text \<open>\<open>isinstance(f, Collection)\<close>: a \<open>RefCollection\<close> is one.\<close>

fun is_collection_field :: "field \<Rightarrow> bool" where
  "is_collection_field (Collection _) = True"
| "is_collection_field (RefCollection _) = True"
| "is_collection_field _ = False"

fun field_item_type_id :: "field \<Rightarrow> string" where
  "field_item_type_id (Property f) = pf_prop_type_id f"
| "field_item_type_id (View f) = vf_prop_type_id f"
| "field_item_type_id (Child f) = cf_item_type_id f"
| "field_item_type_id (Collection f) = lf_item_type_id f"
| "field_item_type_id (RefCollection f) = lf_item_type_id f"
| "field_item_type_id (Reference f) = rf_item_type_id f"

fun field_require :: "field \<Rightarrow> string option" where
  "field_require (Property f) = None"
| "field_require (View f) = None"
| "field_require (Child f) = cf_require f"
| "field_require (Collection f) = lf_require f"
| "field_require (RefCollection f) = lf_require f"
| "field_require (Reference f) = rf_require f"

section \<open>Item types\<close>

record item_type =
  it_id :: string
  it_extend_item :: string
  it_description :: string
  it_deprecated :: bool
  it_validators :: "item_validator list"
  it_structure :: "field dict"

fun check_duplicate_child_types :: "field list \<Rightarrow> field dict \<Rightarrow> unit res" where
  "check_duplicate_child_types types [] = Inr ()"
| "check_duplicate_child_types types ((n, v) # s) =
     (if v \<notin> set types
      then check_duplicate_child_types (if is_child v then types @ [v] else types) s
      else Inl (DuplicateChildTypeException
        (n @ '' duplicates the type '' @ field_item_type_id v @ '' already defined in structure'')))"

definition new_item_type ::
  "string \<Rightarrow> string \<Rightarrow> string \<Rightarrow> item_validator list \<Rightarrow> bool \<Rightarrow> field dict \<Rightarrow> item_type res" where
  "new_item_type i ext desc validators deprecated structure =
     rbind (check_duplicate_child_types [] structure) (\<lambda>_.
       Inr \<lparr>it_id = i, it_extend_item = ext, it_description = desc, it_deprecated = deprecated,
            it_validators = validators, it_structure = structure\<rparr>)"

definition get_properties :: "item_type \<Rightarrow> string list" where
  "get_properties t = map fst (filter (\<lambda>(n, f). is_property f) (it_structure t))"

fun property_fields :: "field dict \<Rightarrow> property_field list" where
  "property_fields [] = []"
| "property_fields ((n, Property p) # s) = p # property_fields s"
| "property_fields ((n, f) # s) = property_fields s"

definition get_property_types :: "item_type \<Rightarrow> property_field list" where
  "get_property_types t = property_fields (it_structure t)"

section \<open>The registry\<close>

record type_registry =
  reg_item_types :: "item_type dict"
  reg_property_types :: "property_type dict"

definition register_property_type :: "property_type \<Rightarrow> type_registry \<Rightarrow> type_registry res" where
  "register_property_type pt reg =
     (if has_key (ptype_id pt) (reg_property_types reg)
      then Inl (GenericException (''Property type '' @ quoted (ptype_id pt) @ '' is already registered''))
      else Inr (reg\<lparr>reg_property_types := AList.update (ptype_id pt) pt (reg_property_types reg)\<rparr>))"

definition register_property_types :: "property_type list \<Rightarrow> type_registry \<Rightarrow> type_registry res" where
  "register_property_types pts reg = for_res register_property_type pts reg"

text \<open>\<open>diverges\<close> stands for a loop that does not end: a chain of extensions that runs in a circle.\<close>

definition diverges :: exn where
  "diverges = RuntimeError ''does not terminate''"

fun supertypes_fuel :: "nat \<Rightarrow> item_type dict \<Rightarrow> item_type \<Rightarrow> item_type list res" where
  "supertypes_fuel 0 types t = Inl diverges"
| "supertypes_fuel (Suc n) types t =
     (if it_extend_item t = [] then Inr []
      else (case map_of types (it_extend_item t) of
              None \<Rightarrow> Inl (KeyError (it_extend_item t))
            | Some s \<Rightarrow> rbind (supertypes_fuel n types s) (\<lambda>ss. Inr (s # ss))))"

definition all_supertypes :: "item_type dict \<Rightarrow> item_type \<Rightarrow> item_type list res" where
  "all_supertypes types t = supertypes_fuel (length types + 2) types t"

definition all_supertype_ids :: "item_type dict \<Rightarrow> item_type \<Rightarrow> string list res" where
  "all_supertype_ids types t = rbind (all_supertypes types t) (\<lambda>ss. Inr (map it_id ss))"

definition is_type :: "item_type dict \<Rightarrow> string \<Rightarrow> string \<Rightarrow> bool res" where
  "is_type types item_type_id base_type_id =
     (case map_of types item_type_id of
        None \<Rightarrow> Inl (KeyError item_type_id)
      | Some t \<Rightarrow>
          if base_type_id = item_type_id then Inr True
          else rbind (all_supertype_ids types t) (\<lambda>ids. Inr (base_type_id \<in> set ids)))"

definition check_itemtype_not_registered :: "item_type \<Rightarrow> type_registry \<Rightarrow> unit res" where
  "check_itemtype_not_registered t reg =
     (if has_key (it_id t) (reg_item_types reg)
      then Inl (GenericException (''Item type '' @ quoted (it_id t) @ '' is already registered''))
      else Inr ())"

definition check_propertytypes_exist :: "item_type \<Rightarrow> type_registry \<Rightarrow> unit res" where
  "check_propertytypes_exist t reg =
     (case filter (\<lambda>p. \<not> has_key (pf_prop_type_id p) (reg_property_types reg)) (get_property_types t) of
        [] \<Rightarrow> Inr ()
      | p # _ \<Rightarrow> Inl (GenericException (''Error registering itemtype '' @ it_id t @
          ''- property type '' @ pf_prop_type_id p @ '' not yet registered'')))"

definition check_supertypes_exist :: "item_type \<Rightarrow> type_registry \<Rightarrow> unit res" where
  "check_supertypes_exist t reg =
     (case all_supertypes (reg_item_types reg) t of
        Inr _ \<Rightarrow> Inr ()
      | Inl (KeyError k) \<Rightarrow> Inl (ModelManagerException (''Error registering itemtype '' @ it_id t @
          ''- base type '' @ k @ '' not yet registered''))
      | Inl e \<Rightarrow> Inl e)"

definition check_supertypes_dont_override_properties :: "item_type \<Rightarrow> type_registry \<Rightarrow> unit res" where
  "check_supertypes_dont_override_properties t reg =
     rbind (all_supertypes (reg_item_types reg) t) (\<lambda>ss.
       if list_ex (\<lambda>s. list_ex (\<lambda>p. p \<in> set (get_properties t)) (get_properties s)) ss
       then Inl (GenericException (''Error registering itemtype '' @ it_id t @
         '' - some fields are already defined in an extended item''))
       else Inr ())"

definition link_property_type :: "property_type dict \<Rightarrow> field \<Rightarrow> field" where
  "link_property_type pts f =
     (case f of Property p \<Rightarrow> Property (p\<lparr>pf_prop_type := map_of pts (pf_prop_type_id p)\<rparr>) | _ \<Rightarrow> f)"

definition update_structure_property :: "item_type \<Rightarrow> type_registry \<Rightarrow> item_type" where
  "update_structure_property t reg =
     t\<lparr>it_structure := map (\<lambda>(n, f). (n, link_property_type (reg_property_types reg) f)) (it_structure t)\<rparr>"

definition add_inherited_structure :: "item_type \<Rightarrow> type_registry \<Rightarrow> item_type res" where
  "add_inherited_structure t reg =
     rbind (all_supertypes (reg_item_types reg) t) (\<lambda>ss.
       Inr (t\<lparr>it_structure := fold (\<lambda>s d. dict_update d (it_structure s)) ss (it_structure t)\<rparr>))"

definition register_item_type :: "item_type \<Rightarrow> type_registry \<Rightarrow> type_registry res" where
  "register_item_type t reg =
     rbind (check_itemtype_not_registered t reg) (\<lambda>_.
     rbind (check_propertytypes_exist t reg) (\<lambda>_.
     rbind (check_supertypes_exist t reg) (\<lambda>_.
     rbind (check_supertypes_dont_override_properties t reg) (\<lambda>_.
     rbind (add_inherited_structure (update_structure_property t reg) reg) (\<lambda>u.
       Inr (reg\<lparr>reg_item_types := AList.update (it_id u) u (reg_item_types reg)\<rparr>))))))"

definition register_item_types :: "item_type list \<Rightarrow> type_registry \<Rightarrow> type_registry res" where
  "register_item_types ts reg = for_res register_item_type ts reg"

text \<open>\<open>_populate_direct_item_type_extensions\<close> and \<open>get_extending_types\<close>, without the caches.\<close>

definition direct_extended_by :: "item_type dict \<Rightarrow> string \<Rightarrow> string list" where
  "direct_extended_by types i =
     map fst (filter (\<lambda>(k, t). it_extend_item t \<noteq> [] \<and> it_extend_item t = i) types)"

fun extending_fuel :: "nat \<Rightarrow> item_type dict \<Rightarrow> string \<Rightarrow> string list" where
  "extending_fuel 0 types i = []"
| "extending_fuel (Suc n) types i =
     concat (map (\<lambda>k. k # extending_fuel n types k) (direct_extended_by types i))"

definition get_extending_types :: "item_type dict \<Rightarrow> string \<Rightarrow> string list" where
  "get_extending_types types i = extending_fuel (length types + 1) types i"

definition type_extends :: "item_type dict \<Rightarrow> string \<Rightarrow> string \<Rightarrow> bool" where
  "type_extends types item_type_id base \<longleftrightarrow>
     base = item_type_id \<or> has_key base types \<and> item_type_id \<in> set (get_extending_types types base)"

section \<open>Registries built by registration\<close>

text \<open>A registered type is filed under its own id, extends only types registered before it and
  carries the structure of the type it extends. The list is read from its end.\<close>

fun wf_rev :: "(string \<times> item_type) list \<Rightarrow> bool" where
  "wf_rev [] = True"
| "wf_rev ((k, t) # ts) \<longleftrightarrow>
     k \<notin> fst ` set ts \<and> it_id t = k \<and> distinct (map fst (it_structure t)) \<and>
     (it_extend_item t = [] \<or> it_extend_item t \<in> fst ` set ts \<and>
       map_of (it_structure (the (map_of ts (it_extend_item t)))) \<subseteq>\<^sub>m map_of (it_structure t)) \<and>
     wf_rev ts"

definition wf_types :: "item_type dict \<Rightarrow> bool" where
  "wf_types types \<longleftrightarrow> wf_rev (rev types)"

definition extends_rel :: "item_type dict \<Rightarrow> (string \<times> string) set" where
  "extends_rel types = {(k, it_extend_item t) | k t. (k, t) \<in> set types \<and> it_extend_item t \<noteq> []}"

text \<open>The position of a type in the registry: what a type extends stands before it.\<close>

definition reg_pos :: "item_type dict \<Rightarrow> string \<Rightarrow> nat" where
  "reg_pos types k = length (takeWhile (\<lambda>x. x \<noteq> k) (map fst types))"

lemma wf_types_Nil [simp]: "wf_types []"
  by (simp add: wf_types_def)

lemma wf_types_snoc:
  "wf_types (types @ [(k, t)]) \<longleftrightarrow>
     k \<notin> fst ` set types \<and> it_id t = k \<and> distinct (map fst (it_structure t)) \<and>
     (it_extend_item t = [] \<or> it_extend_item t \<in> fst ` set types \<and>
       map_of (it_structure (the (map_of (rev types) (it_extend_item t)))) \<subseteq>\<^sub>m map_of (it_structure t)) \<and>
     wf_types types"
  by (simp add: wf_types_def)

lemma wf_types_distinct: "wf_types types \<Longrightarrow> distinct (map fst types)"
proof (induction types rule: rev_induct)
  case (snoc x types)
  then show ?case by (cases x) (simp add: wf_types_snoc)
qed simp

lemma map_of_rev_distinct: "distinct (map fst d) \<Longrightarrow> map_of (rev d) = map_of d"
  by (rule map_of_inject_set [THEN iffD2]) (simp_all flip: rev_map)

lemma reg_pos_le: "reg_pos types k \<le> length types"
  unfolding reg_pos_def using length_takeWhile_le [of _ "map fst types"] by simp

lemma reg_pos_less: "k \<in> fst ` set types \<Longrightarrow> reg_pos types k < length types"
  by (induction types) (auto simp: reg_pos_def)

lemma reg_pos_snoc:
  "reg_pos (types @ [x]) k =
     (if k \<in> fst ` set types then reg_pos types k else length types + (if fst x = k then 0 else 1))"
  by (induction types) (auto simp: reg_pos_def)

definition registered_ok :: "item_type dict \<Rightarrow> string \<Rightarrow> item_type \<Rightarrow> bool" where
  "registered_ok types k t \<longleftrightarrow> it_id t = k \<and> distinct (map fst (it_structure t)) \<and>
     (it_extend_item t \<noteq> [] \<longrightarrow> (\<exists>s. map_of types (it_extend_item t) = Some s \<and>
        map_of (it_structure s) \<subseteq>\<^sub>m map_of (it_structure t) \<and>
        reg_pos types (it_extend_item t) < reg_pos types k))"

lemma key_iff: "k \<in> fst ` set d \<longleftrightarrow> (\<exists>v. map_of d k = Some v)"
  by (metis domD domI dom_map_of_conv_image_fst)

lemma map_of_snoc:
  "map_of (d @ [(k, v)]) j = (case map_of d j of Some w \<Rightarrow> Some w | None \<Rightarrow> if j = k then Some v else None)"
  by (simp add: map_add_def split: option.splits)

lemma registered_ok_weaken:
  assumes "registered_ok types k t" and "map_of types k \<noteq> None"
  shows "registered_ok (types @ [x]) k t"
proof (cases x)
  case (Pair k' t')
  have "k \<in> fst ` set types" using assms(2) by (auto simp: key_iff)
  moreover have "it_extend_item t \<in> fst ` set types" if "it_extend_item t \<noteq> []"
    using assms(1) that by (auto simp: registered_ok_def key_iff)
  ultimately show ?thesis using assms(1)
    by (auto simp: Pair registered_ok_def map_of_snoc reg_pos_snoc)
qed

lemma wf_types_lookup:
  assumes "wf_types types" and "map_of types k = Some t"
  shows "registered_ok types k t"
  using assms
proof (induction types rule: rev_induct)
  case (snoc x types)
  obtain k' t' where x: "x = (k', t')" by (cases x)
  have wf: "wf_types types" and k': "k' \<notin> fst ` set types" using snoc.prems by (auto simp: x wf_types_snoc)
  show ?case
  proof (cases "map_of types k")
    case None
    then have kt: "k = k'" "t = t'"
      using snoc.prems(2) by (auto simp: x map_of_snoc split: if_splits)
    have "map_of (rev types) = map_of types"
      using wf_types_distinct [OF wf] by (rule map_of_rev_distinct)
    with snoc.prems(1) k' reg_pos_less [of "it_extend_item t" types] show ?thesis
      by (auto simp: x kt wf_types_snoc registered_ok_def map_of_snoc reg_pos_snoc key_iff)
  next
    case (Some u)
    then have "u = t" using snoc.prems(2) by (simp add: x map_of_snoc)
    with Some snoc.IH [OF wf] show ?thesis by (intro registered_ok_weaken) auto
  qed
qed simp

section \<open>The extension relation, upwards and downwards\<close>

lemma extends_rel_iff:
  assumes "wf_types types"
  shows "(a, b) \<in> extends_rel types \<longleftrightarrow> (\<exists>t. map_of types a = Some t \<and> it_extend_item t = b \<and> b \<noteq> [])"
  using wf_types_distinct [OF assms] by (auto simp: extends_rel_def)

lemma extends_rel_pos:
  assumes "wf_types types" and "(a, b) \<in> extends_rel types"
  shows "reg_pos types b < reg_pos types a \<and> a \<in> fst ` set types \<and> b \<in> fst ` set types"
proof -
  from assms obtain t where "map_of types a = Some t" "it_extend_item t = b" "b \<noteq> []"
    by (auto simp: extends_rel_iff)
  then show ?thesis using wf_types_lookup [OF assms(1)] by (auto simp: registered_ok_def key_iff)
qed

lemma extends_rel_trancl_keys:
  assumes "wf_types types" and "(a, b) \<in> (extends_rel types)\<^sup>+"
  shows "a \<in> fst ` set types \<and> b \<in> fst ` set types"
  using assms(2) by (induction rule: trancl_induct) (auto dest: extends_rel_pos [OF assms(1)])

text \<open>The types above a type: what it extends and what that one extends in turn.\<close>

definition extends_above :: "item_type dict \<Rightarrow> item_type \<Rightarrow> string set" where
  "extends_above types t =
     (if it_extend_item t = [] then {} else {b. (it_extend_item t, b) \<in> (extends_rel types)\<^sup>*})"

lemma extends_above_registered:
  assumes "wf_types types" and "map_of types k = Some t"
  shows "extends_above types t = {b. (k, b) \<in> (extends_rel types)\<^sup>+}"
proof -
  have "(k, b) \<in> (extends_rel types)\<^sup>+ \<longleftrightarrow>
      it_extend_item t \<noteq> [] \<and> (it_extend_item t, b) \<in> (extends_rel types)\<^sup>*" for b
    using assms by (auto simp: trancl_unfold_left extends_rel_iff)
  then show ?thesis by (auto simp: extends_above_def)
qed

lemma supertypes_fuel_total:
  assumes "wf_types types" and "it_extend_item t \<noteq> [] \<Longrightarrow> it_extend_item t \<in> fst ` set types"
    and "it_extend_item t \<noteq> [] \<Longrightarrow> Suc (reg_pos types (it_extend_item t)) < n" and "0 < n"
  shows "\<exists>ss. supertypes_fuel n types t = Inr ss \<and> it_id ` set ss = extends_above types t \<and>
    set ss \<subseteq> snd ` set types"
  using assms(2-)
proof (induction n arbitrary: t)
  case (Suc n)
  note wf = assms(1)
  show ?case
  proof (cases "it_extend_item t = []")
    case False
    with Suc obtain s where s: "map_of types (it_extend_item t) = Some s" by (auto simp: key_iff)
    have ok: "registered_ok types (it_extend_item t) s" using wf s by (rule wf_types_lookup)
    have "\<exists>ss. supertypes_fuel n types s = Inr ss \<and> it_id ` set ss = extends_above types s \<and>
        set ss \<subseteq> snd ` set types"
      using Suc.prems False s ok by (intro Suc.IH) (auto simp: registered_ok_def key_iff)
    then obtain ss where ss: "supertypes_fuel n types s = Inr ss" "it_id ` set ss = extends_above types s"
      "set ss \<subseteq> snd ` set types" by blast
    have "it_id s = it_extend_item t" using ok by (simp add: registered_ok_def)
    moreover have "extends_above types t = insert (it_extend_item t) (extends_above types s)"
      using False extends_above_registered [OF wf s]
      by (auto simp: extends_above_def intro: trancl_into_rtrancl dest: rtranclD)
    ultimately show ?thesis using s ss False rev_image_eqI [OF map_of_SomeD [OF s], of s snd] by auto
  qed (simp add: extends_above_def)
qed simp

lemma all_supertypes_total:
  assumes "wf_types types" and "it_extend_item t \<noteq> [] \<Longrightarrow> it_extend_item t \<in> fst ` set types"
  shows "\<exists>ss. all_supertypes types t = Inr ss \<and> it_id ` set ss = extends_above types t \<and>
    set ss \<subseteq> snd ` set types"
  using reg_pos_le [of types "it_extend_item t"] assms
  unfolding all_supertypes_def by (intro supertypes_fuel_total) auto

lemma all_supertypes_registered:
  assumes "wf_types types" and "map_of types k = Some t"
  shows "\<exists>ss. all_supertypes types t = Inr ss \<and> it_id ` set ss = {b. (k, b) \<in> (extends_rel types)\<^sup>+}"
  using all_supertypes_total [OF assms(1), of t] wf_types_lookup [OF assms] extends_above_registered [OF assms]
  by (auto simp: registered_ok_def key_iff)

lemma direct_extended_by_iff:
  "k \<in> set (direct_extended_by types i) \<longleftrightarrow> (k, i) \<in> extends_rel types"
  by (auto simp: direct_extended_by_def extends_rel_def image_iff)

lemma extending_fuel_sound:
  "a \<in> set (extending_fuel n types i) \<Longrightarrow> (a, i) \<in> (extends_rel types)\<^sup>+"
proof (induction n arbitrary: i)
  case (Suc n)
  then obtain k where k: "(k, i) \<in> extends_rel types" and "a = k \<or> a \<in> set (extending_fuel n types k)"
    by (auto simp: direct_extended_by_iff)
  then show ?case using Suc.IH [of k] by (auto intro: trancl_into_trancl)
qed simp

lemma extending_fuel_complete:
  assumes "wf_types types" and "(a, i) \<in> (extends_rel types)\<^sup>+" and "length types \<le> n + reg_pos types i"
  shows "a \<in> set (extending_fuel n types i)"
  using assms(2,3)
proof (induction n arbitrary: i)
  case 0
  then obtain k where "(k, i) \<in> extends_rel types" by (auto dest: tranclD2)
  then show ?case using extends_rel_pos [OF assms(1)] 0 reg_pos_less [of i types] by fastforce
next
  case (Suc n)
  from tranclD2 [OF Suc.prems(1)] obtain k where
    k: "(a, k) \<in> (extends_rel types)\<^sup>*" "(k, i) \<in> extends_rel types" by blast
  have "length types \<le> n + reg_pos types k" using extends_rel_pos [OF assms(1) k(2)] Suc.prems(2) by simp
  then have "a = k \<or> a \<in> set (extending_fuel n types k)" using k(1) Suc.IH [of k] by (auto dest: rtranclD)
  with k(2) show ?case by (auto simp: direct_extended_by_iff)
qed

lemma get_extending_types_iff:
  assumes "wf_types types"
  shows "a \<in> set (get_extending_types types i) \<longleftrightarrow> (a, i) \<in> (extends_rel types)\<^sup>+"
proof
  assume "(a, i) \<in> (extends_rel types)\<^sup>+"
  then show "a \<in> set (get_extending_types types i)"
    unfolding get_extending_types_def by (rule extending_fuel_complete [OF assms]) simp
qed (unfold get_extending_types_def, rule extending_fuel_sound)

text \<open>On a registered type the model manager's walk up the base types and the dependency
  helper's walk down the extending types answer the same question, and neither fails.\<close>

theorem is_type_extends:
  assumes "wf_types types" and "has_key i types"
  shows "is_type types i base = Inr (type_extends types i base)"
proof -
  from assms(2) obtain t where t: "map_of types i = Some t" by (auto simp: has_key_def)
  from all_supertypes_registered [OF assms(1) t] obtain ss where
    ss: "all_supertypes types t = Inr ss" "it_id ` set ss = {b. (i, b) \<in> (extends_rel types)\<^sup>+}" by blast
  have "base \<in> it_id ` set ss \<longleftrightarrow> has_key base types \<and> i \<in> set (get_extending_types types base)"
    using ss(2) extends_rel_trancl_keys [OF assms(1)]
    by (auto simp: get_extending_types_iff [OF assms(1)] has_key_iff)
  with t ss(1) show ?thesis by (simp add: is_type_def all_supertype_ids_def type_extends_def)
qed

text \<open>Registration appends a type that carries the structure of the types above it.\<close>

lemma update_new_key: "k \<notin> fst ` set d \<Longrightarrow> AList.update k v d = d @ [(k, v)]"
  by (induction d) auto

lemma fold_dict_update:
  assumes "\<And>s. s \<in> set ss \<Longrightarrow> map_of (it_structure s) \<subseteq>\<^sub>m U \<and> distinct (map fst (it_structure s))"
  shows "map_of (fold (\<lambda>s d. dict_update d (it_structure s)) ss d) n =
    (if \<exists>s \<in> set ss. map_of (it_structure s) n \<noteq> None then U n else map_of d n)"
  using assms
proof (induction ss arbitrary: d)
  case (Cons s ss)
  have "map_of (dict_update d (it_structure s)) n =
      (case map_of (it_structure s) n of None \<Rightarrow> map_of d n | Some v \<Rightarrow> Some v)"
    using Cons.prems [of s] by (intro map_of_dict_update) simp
  moreover have "U n = Some v" if "map_of (it_structure s) n = Some v" for v
    using Cons.prems [of s] that by (force simp: map_le_def dom_def)
  moreover have "map_of (fold (\<lambda>s d. dict_update d (it_structure s)) ss e) n =
      (if \<exists>s \<in> set ss. map_of (it_structure s) n \<noteq> None then U n else map_of e n)" for e
    using Cons.prems by (intro Cons.IH) simp
  ultimately show ?case by (cases "map_of (it_structure s) n") simp_all
qed simp

lemma fold_dict_update_distinct:
  "distinct (map fst d) \<Longrightarrow> distinct (map fst (fold (\<lambda>s d. dict_update d (it_structure s)) ss d))"
  by (induction ss arbitrary: d) (auto simp: distinct_dict_update)

lemma supertypes_carry:
  assumes "wf_types types" and "supertypes_fuel n types t = Inr ss"
    and "it_extend_item t \<noteq> [] \<Longrightarrow> map_of types (it_extend_item t) = Some u" and "s \<in> set ss"
  shows "map_of (it_structure s) \<subseteq>\<^sub>m map_of (it_structure u) \<and> distinct (map fst (it_structure s))"
  using assms(2-)
proof (induction n arbitrary: t u ss)
  case (Suc n)
  show ?case
  proof (cases "it_extend_item t = []")
    case False
    with Suc.prems obtain rs where u: "map_of types (it_extend_item t) = Some u"
      and rs: "supertypes_fuel n types u = Inr rs" and ss: "ss = u # rs"
      by (auto simp: rbind_Inr_iff)
    have ok: "registered_ok types (it_extend_item t) u" using assms(1) u by (rule wf_types_lookup)
    show ?thesis
    proof (cases "s = u")
      case True
      then show ?thesis using ok by (simp add: registered_ok_def)
    next
      case False
      then have s: "s \<in> set rs" using Suc.prems ss by simp
      then have ne: "it_extend_item u \<noteq> []" using rs by (cases n) auto
      then obtain v where "map_of types (it_extend_item u) = Some v"
        "map_of (it_structure v) \<subseteq>\<^sub>m map_of (it_structure u)" using ok by (auto simp: registered_ok_def)
      then show ?thesis using Suc.IH [OF rs _ s] by (blast intro: map_le_trans)
    qed
  qed (use Suc in simp)
qed simp

lemma all_supertypes_base:
  assumes "all_supertypes types t = Inr ss" and "it_extend_item t \<noteq> []"
  shows "\<exists>u. map_of types (it_extend_item t) = Some u \<and> u \<in> set ss"
  using assms by (auto simp: all_supertypes_def rbind_Inr_iff split: option.splits)

lemma register_item_type_ok:
  assumes "register_item_type t reg = Inr reg'" and "distinct (map fst (it_structure t))"
    and wf: "wf_types (reg_item_types reg)"
  shows "wf_types (reg_item_types reg')"
proof -
  let ?types = "reg_item_types reg" and ?t = "update_structure_property t reg"
  from assms(1) obtain ss where new: "\<not> has_key (it_id t) ?types"
    and ss: "all_supertypes ?types ?t = Inr ss"
    and reg': "reg' = reg\<lparr>reg_item_types := AList.update (it_id t)
      (?t\<lparr>it_structure := fold (\<lambda>s d. dict_update d (it_structure s)) ss (it_structure ?t)\<rparr>) ?types\<rparr>"
    by (auto simp: register_item_type_def rbind_Inr_iff check_itemtype_not_registered_def
      add_inherited_structure_def update_structure_property_def Let_def split: if_splits)
  have ids: "it_id ?t = it_id t" "it_extend_item ?t = it_extend_item t"
    by (simp_all add: update_structure_property_def)
  have "map fst (it_structure ?t) = map fst (it_structure t)"
    by (simp add: update_structure_property_def case_prod_beta comp_def)
  with assms(2) have dis: "distinct (map fst (it_structure ?t))" by metis
  have carry: "map_of (it_structure u) \<subseteq>\<^sub>m map_of
      (fold (\<lambda>s d. dict_update d (it_structure s)) ss (it_structure ?t))"
    if "it_extend_item t \<noteq> []" "map_of ?types (it_extend_item t) = Some u" for u
  proof -
    have u: "u \<in> set ss" using all_supertypes_base [OF ss] that by (simp add: ids)
    have "map_of (it_structure s) \<subseteq>\<^sub>m map_of (it_structure u) \<and> distinct (map fst (it_structure s))"
      if "s \<in> set ss" for s
      using supertypes_carry [OF wf ss [unfolded all_supertypes_def] _ that] \<open>map_of ?types _ = Some u\<close>
      by (simp add: ids)
    then have "map_of (fold (\<lambda>s d. dict_update d (it_structure s)) ss (it_structure ?t)) n =
        (if \<exists>s \<in> set ss. map_of (it_structure s) n \<noteq> None then map_of (it_structure u) n
         else map_of (it_structure ?t) n)" for n
      by (rule fold_dict_update)
    with u show ?thesis unfolding map_le_def dom_def by simp
  qed
  have base: "it_extend_item t \<noteq> [] \<Longrightarrow> \<exists>u. map_of ?types (it_extend_item t) = Some u"
    using all_supertypes_base [OF ss] by (auto simp: ids)
  have rev: "map_of (rev ?types) = map_of ?types"
    using wf_types_distinct [OF wf] by (rule map_of_rev_distinct)
  have "reg_item_types reg' = ?types @ [(it_id t,
      ?t\<lparr>it_structure := fold (\<lambda>s d. dict_update d (it_structure s)) ss (it_structure ?t)\<rparr>)]"
    using new by (simp add: reg' has_key_iff update_new_key)
  moreover have "it_extend_item t = [] \<or> it_extend_item t \<in> fst ` set ?types \<and>
      map_of (it_structure (the (map_of ?types (it_extend_item t)))) \<subseteq>\<^sub>m
      map_of (fold (\<lambda>s d. dict_update d (it_structure s)) ss (it_structure ?t))"
    using carry base by (force simp: key_iff)
  ultimately show ?thesis
    using new dis wf by (simp add: wf_types_snoc rev ids has_key_iff fold_dict_update_distinct)
qed

text \<open>C11: what registration builds from nothing is well formed: every type is filed under its own id,
  a type extends one registered before it, and it carries the whole structure of that type.\<close>

theorem registration_wf:
  assumes "register_item_types ts reg = Inr reg'" and "reg_item_types reg = []"
    and "\<forall>t \<in> set ts. distinct (map fst (it_structure t))"
  shows "wf_types (reg_item_types reg') \<and>
    (\<forall>k t. map_of (reg_item_types reg') k = Some t \<longrightarrow> it_id t = k \<and>
      (it_extend_item t \<noteq> [] \<longrightarrow> (\<exists>s. map_of (reg_item_types reg') (it_extend_item t) = Some s \<and>
        map_of (it_structure s) \<subseteq>\<^sub>m map_of (it_structure t))))"
proof -
  have "wf_types (reg_item_types reg')"
    using assms(1) [unfolded register_item_types_def]
    by (rule for_res_invariant) (use assms register_item_type_ok in \<open>simp, blast\<close>)
  then show ?thesis using wf_types_lookup unfolding registered_ok_def by blast
qed

section \<open>Examples\<close>

definition ex_types :: "item_type list" where
  "ex_types =
     (let plain = (\<lambda>i ext s. \<lparr>it_id = i, it_extend_item = ext, it_description = [], it_deprecated = False,
        it_validators = [], it_structure = s\<rparr>);
          prop = (\<lambda>i. Property \<lparr>pf_prop_type_id = i, pf_description = [], pf_default = None,
            pf_required = False, pf_deprecated = False, pf_updatable_plugin = False,
            pf_updatable_rest = True, pf_configuration = True, pf_site_specific = False,
            pf_prop_type = None\<rparr>)
      in [plain ''node'' [] [(''hostname'', prop ''text'')],
          plain ''blade'' ''node'' [(''slot'', prop ''text'')]])"

definition ex_registry :: type_registry where
  "ex_registry = \<lparr>reg_item_types = [],
     reg_property_types = [(''text'', new_property_type ''text'' None [] False None)]\<rparr>"

theorem registration_wf_witness:
  "\<exists>reg'. register_item_types ex_types ex_registry = Inr reg' \<and> wf_types (reg_item_types reg')"
proof -
  have "\<not> isl (register_item_types ex_types ex_registry)" by code_simp
  then obtain reg' where r: "register_item_types ex_types ex_registry = Inr reg'"
    by (cases "register_item_types ex_types ex_registry") auto
  have "list_all (\<lambda>t. distinct (map fst (it_structure t))) ex_types" by code_simp
  then have "\<forall>t \<in> set ex_types. distinct (map fst (it_structure t))" by (simp add: list_all_iff)
  then have "wf_types (reg_item_types reg')"
    using registration_wf [OF r] by (simp add: ex_registry_def)
  with r show ?thesis by blast
qed

definition two_types :: "item_type dict" where
  "two_types = map (\<lambda>t. (it_id t, t))
     (map (\<lambda>t. t\<lparr>it_structure := []\<rparr>) ex_types)"

theorem is_type_extends_witness:
  "is_type two_types ''blade'' ''node'' = Inr (type_extends two_types ''blade'' ''node'') \<and>
   type_extends two_types ''blade'' ''node''"
proof
  have "wf_types two_types"
    by (simp add: wf_types_def two_types_def ex_types_def)
  moreover have "has_key ''blade'' two_types" by code_simp
  ultimately show "is_type two_types ''blade'' ''node'' = Inr (type_extends two_types ''blade'' ''node'')"
    by (rule is_type_extends)
  show "type_extends two_types ''blade'' ''node''" by code_simp
qed

end
