(* ===== verification/Model_Item.thy ===== *)
theory Model_Item
  imports Model_Type
begin

text \<open>
  \<open>litp/core/model_item.py\<close> with the columns of \<open>litp/data/types/model_item.py\<close>: an item of
  the deployment model, its state machine, its properties and their inheritance from the items it
  refers to. What an item asks of the model manager is a lookup in the table of items, the argument
  \<open>st\<close>, and in the item types, the argument \<open>types\<close>.
\<close>

section \<open>The columns of an item\<close>

datatype item_class = ModelItemC | CollectionItemC | RefCollectionItemC

datatype item_state = Initial | Applied | Updated | ForRemoval | Removed

record model_item =
  mi_class :: item_class
  mi_vpath :: string
  mi_item_id :: string
  mi_item_type_id :: string
  mi_parent_vpath :: "string option"
  mi_source_vpath :: "string option"
  mi_properties :: "pval dict"
  mi_applied_properties :: "pval dict"
  mi_state :: item_state
  mi_previous_state :: "item_state option"
  mi_apd :: bool

text \<open>The rows of one model, in the order of their vpaths. A text that may be \<open>None\<close> counts as
  false when it is \<open>None\<close> or empty.\<close>

type_synonym store = "model_item list"

definition st_get :: "store \<Rightarrow> string \<Rightarrow> model_item option" where
  "st_get st v = List.find (\<lambda>i. mi_vpath i = v) st"

fun given :: "string option \<Rightarrow> bool" where
  "given None = False"
| "given (Some s) = (s \<noteq> [])"

definition construct_vpath :: "string \<Rightarrow> string option \<Rightarrow> string" where
  "construct_vpath item_id parent =
     (if item_id = [] then ''/''
      else if \<not> given parent \<or> parent = Some ''/'' then ''/'' @ item_id
      else the parent @ ''/'' @ item_id)"

definition new_model_item ::
  "item_class \<Rightarrow> string \<Rightarrow> string \<Rightarrow> string option \<Rightarrow> pval dict \<Rightarrow> model_item" where
  "new_model_item c type_id item_id parent props =
     \<lparr>mi_class = c, mi_vpath = construct_vpath item_id parent, mi_item_id = item_id,
      mi_item_type_id = type_id, mi_parent_vpath = parent, mi_source_vpath = None,
      mi_properties = props, mi_applied_properties = [], mi_state = Initial,
      mi_previous_state = None, mi_apd = True\<rparr>"

definition is_collection :: "model_item \<Rightarrow> bool" where
  "is_collection i \<longleftrightarrow> mi_class i \<in> {CollectionItemC, RefCollectionItemC}"

definition item_type_of :: "item_type dict \<Rightarrow> model_item \<Rightarrow> item_type res" where
  "item_type_of types i =
     (case map_of types (mi_item_type_id i) of
        None \<Rightarrow> Inl (KeyError (mi_item_type_id i)) | Some t \<Rightarrow> Inr t)"

definition mi_extends :: "item_type dict \<Rightarrow> model_item \<Rightarrow> string \<Rightarrow> bool" where
  "mi_extends types i base = type_extends types (mi_item_type_id i) base"

definition mi_is_type :: "item_type dict \<Rightarrow> model_item \<Rightarrow> string \<Rightarrow> bool" where
  "mi_is_type types i base \<longleftrightarrow> mi_class i = ModelItemC \<and> mi_extends types i base"

definition is_node :: "item_type dict \<Rightarrow> model_item \<Rightarrow> bool" where
  "is_node types i \<longleftrightarrow>
     mi_class i = ModelItemC \<and> (mi_extends types i ''node'' \<or> mi_extends types i ''ms'')"

definition is_ms :: "item_type dict \<Rightarrow> model_item \<Rightarrow> bool" where
  "is_ms types i \<longleftrightarrow> is_node types i \<and> mi_item_type_id i = ''ms''"

definition is_cluster :: "item_type dict \<Rightarrow> model_item \<Rightarrow> bool" where
  "is_cluster types i = mi_is_type types i ''cluster-base''"

definition is_deployment :: "item_type dict \<Rightarrow> model_item \<Rightarrow> bool" where
  "is_deployment types i = mi_is_type types i ''deployment''"

section \<open>Properties and inheritance\<close>

definition get_source :: "store \<Rightarrow> model_item \<Rightarrow> model_item option" where
  "get_source st i = (if given (mi_source_vpath i) then st_get st (the (mi_source_vpath i)) else None)"

definition get_parent :: "store \<Rightarrow> model_item \<Rightarrow> model_item option" where
  "get_parent st i = (if given (mi_parent_vpath i) then st_get st (the (mi_parent_vpath i)) else None)"

text \<open>The loop follows the sources; a chain longer than the table runs in a circle.\<close>

fun chain_fuel :: "nat \<Rightarrow> store \<Rightarrow> model_item \<Rightarrow> model_item list res" where
  "chain_fuel 0 st i = Inl diverges"
| "chain_fuel (Suc n) st i =
     (case get_source st i of
        None \<Rightarrow> Inr [i]
      | Some s \<Rightarrow> rbind (chain_fuel n st s) (\<lambda>is. Inr (i # is)))"

definition inheritance_chain :: "store \<Rightarrow> model_item \<Rightarrow> model_item list res" where
  "inheritance_chain st i = chain_fuel (length st + 1) st i"

definition skip_callables :: "bool \<Rightarrow> pval dict \<Rightarrow> pval dict" where
  "skip_callables skip_views d = filter (\<lambda>(n, v). \<not> (skip_views \<and> is_callable v)) d"

definition get_properties_of :: "model_item \<Rightarrow> bool \<Rightarrow> pval dict" where
  "get_properties_of i skip_views = skip_callables skip_views (mi_properties i)"

definition get_applied_properties :: "model_item \<Rightarrow> bool \<Rightarrow> pval dict" where
  "get_applied_properties i skip_views = skip_callables skip_views (mi_applied_properties i)"

fun merge_missing :: "pval dict \<Rightarrow> pval dict \<Rightarrow> pval dict" where
  "merge_missing d [] = d"
| "merge_missing d ((n, v) # e) = merge_missing (if has_key n d then d else AList.update n v d) e"

definition merged_along :: "bool \<Rightarrow> model_item list \<Rightarrow> pval dict" where
  "merged_along skip_views is = fold (\<lambda>i d. merge_missing d (get_properties_of i skip_views)) is []"

definition get_merged_properties :: "store \<Rightarrow> model_item \<Rightarrow> bool \<Rightarrow> pval dict res" where
  "get_merged_properties st i skip_views =
     rbind (inheritance_chain st i) (\<lambda>is. Inr (merged_along skip_views is))"

text \<open>Only properties have the attribute \<open>configuration\<close>.\<close>

fun field_configuration :: "field \<Rightarrow> bool res" where
  "field_configuration (Property p) = Inr (pf_configuration p)"
| "field_configuration _ = Inl (AttributeError ''configuration'')"

fun non_config_loop :: "field dict \<Rightarrow> pval dict \<Rightarrow> pval dict res" where
  "non_config_loop s [] = Inr []"
| "non_config_loop s ((n, v) # d) =
     (case map_of s n of
        None \<Rightarrow> non_config_loop s d
      | Some f \<Rightarrow> rbind (field_configuration f) (\<lambda>c. rbind (non_config_loop s d) (\<lambda>r.
          Inr (if c then r else (n, v) # r))))"

definition get_non_config_properties :: "item_type dict \<Rightarrow> model_item \<Rightarrow> pval dict \<Rightarrow> pval dict res" where
  "get_non_config_properties types i props =
     (if props = [] then Inr []
      else rbind (item_type_of types i) (\<lambda>t. non_config_loop (it_structure t) props))"

definition has_overwritten_properties :: "store \<Rightarrow> model_item \<Rightarrow> bool" where
  "has_overwritten_properties st i \<longleftrightarrow> get_source st i \<noteq> None \<and> mi_properties i \<noteq> []"

definition is_property_overwritten :: "store \<Rightarrow> model_item \<Rightarrow> string \<Rightarrow> bool" where
  "is_property_overwritten st i n \<longleftrightarrow> has_overwritten_properties st i \<and> has_key n (mi_properties i)"

definition all_properties_overwritten :: "store \<Rightarrow> model_item \<Rightarrow> pval dict \<Rightarrow> bool" where
  "all_properties_overwritten st i props \<longleftrightarrow>
     props \<noteq> [] \<and> list_all (\<lambda>(n, v). is_property_overwritten st i n) props"

fun as_property :: "field option \<Rightarrow> property_field option" where
  "as_property (Some (Property p)) = Some p"
| "as_property _ = None"

text \<open>The default \<open>delete_property\<close> falls back to, for an item without a source.\<close>

definition fallback_default :: "model_item \<Rightarrow> property_field option \<Rightarrow> pval option" where
  "fallback_default i p =
     (case p of
        None \<Rightarrow> None
      | Some f \<Rightarrow>
          if \<not> given (mi_source_vpath i) \<and> pf_required f \<and> given (pf_default f)
          then Some (VStr (the (pf_default f))) else None)"

definition delete_property :: "item_type dict \<Rightarrow> store \<Rightarrow> string \<Rightarrow> bool \<Rightarrow> model_item \<Rightarrow> model_item res" where
  "delete_property types st n to_applied i =
     rbind (item_type_of types i) (\<lambda>t.
       let default = fallback_default i (as_property (map_of (it_structure t) n));
           reset = (\<lambda>d. case default of Some v \<Rightarrow> AList.update n v d | None \<Rightarrow> AList.delete n d)
       in if to_applied then
            Inr (if \<not> has_key n (mi_applied_properties i) then i
                 else (case get_source st i of
                         Some s \<Rightarrow>
                           (case map_of (mi_properties s) n of
                              Some v \<Rightarrow> i\<lparr>mi_applied_properties := AList.update n v (mi_applied_properties i)\<rparr>
                            | None \<Rightarrow> i\<lparr>mi_applied_properties := reset (mi_applied_properties i)\<rparr>)
                       | None \<Rightarrow> i\<lparr>mi_applied_properties := reset (mi_applied_properties i)\<rparr>))
          else Inr (if has_key n (mi_properties i) then i\<lparr>mi_properties := reset (mi_properties i)\<rparr> else i))"

definition set_property ::
  "item_type dict \<Rightarrow> store \<Rightarrow> string \<Rightarrow> pval \<Rightarrow> bool \<Rightarrow> model_item \<Rightarrow> model_item res" where
  "set_property types st n v to_applied i =
     (if take 1 n = ''^'' \<or> v = VNone then delete_property types st n to_applied i
      else if is_callable v then Inl (ValueError (''Invalid property value: '' @ pval_str v))
      else rbind (item_type_of types i) (\<lambda>t.
        case as_property (map_of (it_structure t) n) of
          None \<Rightarrow> Inl (ValueError (''Invalid property: '' @ n))
        | Some p \<Rightarrow> Inr
            (if \<not> to_applied then i\<lparr>mi_properties := AList.update n v (mi_properties i)\<rparr>
             else if mi_state i \<noteq> Initial
             then i\<lparr>mi_applied_properties := AList.update n v (mi_applied_properties i)\<rparr>
             else i)))"

definition get_property :: "item_type dict \<Rightarrow> string \<Rightarrow> model_item \<Rightarrow> pval option res" where
  "get_property types n i =
     rbind (item_type_of types i) (\<lambda>t.
       case as_property (map_of (it_structure t) n) of
         None \<Rightarrow> Inl (ValueError (''Invalid property: '' @ n))
       | Some p \<Rightarrow> Inr (map_of (mi_properties i) n))"

definition reset_applied_properties :: "model_item \<Rightarrow> model_item" where
  "reset_applied_properties i = i\<lparr>mi_applied_properties := []\<rparr>"

definition properties_match :: "model_item \<Rightarrow> pval dict \<Rightarrow> bool" where
  "properties_match i props \<longleftrightarrow> list_all (\<lambda>p. p \<in> set (mi_properties i)) props"

definition build_item_comparison ::
  "model_item \<Rightarrow> string \<times> item_state \<times> string \<times> string option \<times> string option" where
  "build_item_comparison i =
     (mi_vpath i, mi_state i, mi_item_type_id i, mi_parent_vpath i, mi_source_vpath i)"

definition mi_eq :: "model_item \<Rightarrow> model_item \<Rightarrow> bool" where
  "mi_eq i j \<longleftrightarrow> mi_class i = mi_class j \<and> build_item_comparison i = build_item_comparison j \<and>
     dict_eq (mi_properties i) (mi_properties j)"

section \<open>The state machine\<close>

definition set_apd :: "bool \<Rightarrow> model_item \<Rightarrow> model_item" where
  "set_apd b i = (if mi_apd i \<noteq> b then i\<lparr>mi_apd := b\<rparr> else i)"

definition set_state :: "store \<Rightarrow> item_state \<Rightarrow> model_item \<Rightarrow> model_item res" where
  "set_state st new i =
     (let i = (if new = Applied then set_apd True i else i)
      in if mi_state i = new then Inr i
         else let i = (if mi_state i \<noteq> ForRemoval then i\<lparr>mi_previous_state := Some (mi_state i)\<rparr> else i);
                  i = i\<lparr>mi_state := new\<rparr>
              in if new = Applied
                 then rbind (get_merged_properties st i False) (\<lambda>ps. Inr (i\<lparr>mi_applied_properties := ps\<rparr>))
                 else Inr i)"

definition set_initial :: "store \<Rightarrow> model_item \<Rightarrow> model_item res" where
  "set_initial st = set_state st Initial"

definition set_updated :: "store \<Rightarrow> model_item \<Rightarrow> model_item res" where
  "set_updated st = set_state st Updated"

definition set_applied :: "store \<Rightarrow> model_item \<Rightarrow> model_item res" where
  "set_applied st = set_state st Applied"

definition set_for_removal :: "store \<Rightarrow> model_item \<Rightarrow> model_item res" where
  "set_for_removal st = set_state st ForRemoval"

definition set_removed :: "store \<Rightarrow> model_item \<Rightarrow> model_item res" where
  "set_removed st = set_state st Removed"

definition set_previous_state :: "store \<Rightarrow> model_item \<Rightarrow> model_item res" where
  "set_previous_state st i =
     (if \<not> mi_apd i \<and> mi_state i = ForRemoval \<and> mi_previous_state i = Some Applied
      then set_updated st i
      else set_state st (case mi_previous_state i of None \<Rightarrow> Initial | Some s \<Rightarrow> s) i)"

text \<open>The loop of \<open>apply_non_config_properties\<close>; \<open>applied\<close> is the copy made before it.\<close>

fun apply_non_config_loop ::
  "item_type dict \<Rightarrow> store \<Rightarrow> bool \<Rightarrow> pval dict \<Rightarrow> pval dict \<Rightarrow> model_item \<times> bool \<Rightarrow> (model_item \<times> bool) res" where
  "apply_non_config_loop types st overwrite applied [] ib = Inr ib"
| "apply_non_config_loop types st overwrite applied ((n, v) # d) (i, b) =
     (if \<not> overwrite \<and> is_property_overwritten st i n
      then apply_non_config_loop types st overwrite applied d (i, b)
      else if map_of applied n \<noteq> Some v
      then rbind (set_property types st n v True i)
             (\<lambda>i. apply_non_config_loop types st overwrite applied d (i, True))
      else apply_non_config_loop types st overwrite applied d (i, True))"

definition apply_non_config_properties ::
  "item_type dict \<Rightarrow> store \<Rightarrow> pval dict \<Rightarrow> bool \<Rightarrow> model_item \<Rightarrow> (model_item \<times> bool) res" where
  "apply_non_config_properties types st props overwrite i =
     rbind (get_non_config_properties types i props) (\<lambda>ps.
       apply_non_config_loop types st overwrite (get_applied_properties i True) ps (i, False))"

definition update_state_after :: "store \<Rightarrow> bool \<Rightarrow> model_item \<Rightarrow> model_item res" where
  "update_state_after st non_config_applied i =
     rbind (get_merged_properties st i True) (\<lambda>merged.
       let applied = get_applied_properties i True
       in if mi_state i \<in> {Applied, ForRemoval} \<and> \<not> dict_eq applied merged then set_updated st i
          else if mi_state i = Updated \<and> mi_apd i \<and> dict_eq applied merged \<and>
                  mi_previous_state i \<in> {Some Applied, Some Updated} then set_applied st i
          else if mi_state i = ForRemoval \<and> non_config_applied \<and>
                  mi_previous_state i \<in> {Some Applied, Some Updated}
          then Inr (i\<lparr>mi_state := the (mi_previous_state i)\<rparr>)
          else Inr i)"

definition update_properties :: "item_type dict \<Rightarrow> store \<Rightarrow> pval dict \<Rightarrow> model_item \<Rightarrow> model_item res" where
  "update_properties types st props i =
     (if props = [] then Inr i
      else rbind (apply_non_config_properties types st props True i) (\<lambda>(i, non_config_applied).
           rbind (for_res (\<lambda>(n, v). set_property types st n v False) props i)
             (update_state_after st non_config_applied)))"

section \<open>Lookups\<close>

lemma st_get_Some: "st_get st v = Some i \<Longrightarrow> mi_vpath i = v \<and> i \<in> set st"
  by (auto simp: st_get_def find_Some_iff)

lemma st_get_None_iff: "st_get st v = None \<longleftrightarrow> v \<notin> mi_vpath ` set st"
  by (auto simp: st_get_def find_None_iff)

lemma given_iff: "given x \<longleftrightarrow> (\<exists>s. x = Some s \<and> s \<noteq> [])"
  by (cases x) auto

lemma chain_fuel_mono: "chain_fuel n st i = Inr ks \<Longrightarrow> n \<le> m \<Longrightarrow> chain_fuel m st i = Inr ks"
proof (induction n arbitrary: i ks m)
  case (Suc n)
  then obtain m' where m: "m = Suc m'" "n \<le> m'" by (cases m) auto
  show ?case
  proof (cases "get_source st i")
    case (Some s)
    with Suc.prems obtain js where "chain_fuel n st s = Inr js" "ks = i # js" by (auto simp: rbind_Inr_iff)
    with Suc.IH [of s js m'] m Some show ?thesis by simp
  qed (use Suc.prems m in simp)
qed simp

lemma inheritance_chain_None:
  "get_source st i = None \<Longrightarrow> inheritance_chain st i = Inr [i]"
  by (simp add: inheritance_chain_def)

lemma inheritance_chain_Some:
  assumes "inheritance_chain st i = Inr ks" and "get_source st i = Some s"
  shows "\<exists>js. ks = i # js \<and> inheritance_chain st s = Inr js"
proof -
  from assms obtain js where "chain_fuel (length st) st s = Inr js" "ks = i # js"
    by (auto simp: inheritance_chain_def rbind_Inr_iff)
  then show ?thesis
    unfolding inheritance_chain_def using chain_fuel_mono [of "length st" st s js "length st + 1"] by simp
qed

text \<open>The chain of an item depends on its source only.\<close>

lemma chain_fuel_same_source:
  assumes "mi_source_vpath i = mi_source_vpath j" and "chain_fuel n st i = Inr ks"
  shows "chain_fuel n st j = Inr (j # tl ks)"
  using assms by (cases n) (auto simp: get_source_def rbind_Inr_iff split: option.splits if_splits)

lemma map_of_skip:
  assumes "distinct (map fst d)"
  shows "map_of (skip_callables b d) n = Some v \<longleftrightarrow> map_of d n = Some v \<and> \<not> (b \<and> is_callable v)"
proof -
  have "distinct (map fst (skip_callables b d))"
    unfolding skip_callables_def using assms by (rule distinct_map_filter)
  then show ?thesis using assms by (auto simp: skip_callables_def)
qed

lemma map_of_merge_missing:
  "map_of (merge_missing d e) n = (case map_of d n of Some v \<Rightarrow> Some v | None \<Rightarrow> map_of e n)"
  by (induction d e rule: merge_missing.induct) (auto simp: has_key_def split: option.splits)

lemma map_of_fold_merge:
  "map_of (fold (\<lambda>i d. merge_missing d (get_properties_of i b)) ks d) n =
    (case map_of d n of Some v \<Rightarrow> Some v | None \<Rightarrow>
       map_of (fold (\<lambda>i d. merge_missing d (get_properties_of i b)) ks []) n)"
proof (induction ks arbitrary: d)
  case (Cons i ks)
  let ?m = "\<lambda>d. merge_missing d (get_properties_of i b)"
  show ?case
    using Cons [of "?m d"] Cons [of "?m []"] by (auto simp: map_of_merge_missing split: option.splits)
qed (simp split: option.splits)

lemma map_of_merged_Cons:
  "map_of (merged_along b (i # ks)) n =
    (case map_of (get_properties_of i b) n of Some v \<Rightarrow> Some v | None \<Rightarrow> map_of (merged_along b ks) n)"
proof -
  let ?m = "\<lambda>i d. merge_missing d (get_properties_of i b)"
  have "map_of (merged_along b (i # ks)) n = map_of (fold ?m ks (?m i [])) n"
    by (simp add: merged_along_def)
  also have "\<dots> = (case map_of (?m i []) n of Some v \<Rightarrow> Some v | None \<Rightarrow> map_of (fold ?m ks []) n)"
    by (rule map_of_fold_merge)
  finally show ?thesis unfolding merged_along_def by (simp add: map_of_merge_missing)
qed

text \<open>C7: an inherited item has its own properties and, where it sets none, those of its source,
  which come from the sources of that one in turn.\<close>

theorem merged_properties_inherit:
  assumes "get_merged_properties st i skip_views = Inr d"
  shows "case get_source st i of
      None \<Rightarrow> map_of d n = map_of (get_properties_of i skip_views) n
    | Some s \<Rightarrow> \<exists>e. get_merged_properties st s skip_views = Inr e \<and>
        map_of d n = (case map_of (get_properties_of i skip_views) n of
          Some v \<Rightarrow> Some v | None \<Rightarrow> map_of e n)"
proof -
  from assms obtain ks where chain: "inheritance_chain st i = Inr ks" and d: "d = merged_along skip_views ks"
    by (auto simp: get_merged_properties_def rbind_Inr_iff)
  show ?thesis
  proof (cases "get_source st i")
    case None
    then have "ks = [i]" using inheritance_chain_None [OF None] chain by simp
    moreover have "map_of (merged_along skip_views [i]) n = map_of (get_properties_of i skip_views) n"
      by (simp add: merged_along_def map_of_merge_missing)
    ultimately show ?thesis using None d by simp
  next
    case (Some s)
    then obtain js where "ks = i # js" "inheritance_chain st s = Inr js"
      using inheritance_chain_Some [OF chain Some] by blast
    then show ?thesis
      using Some d map_of_merged_Cons [of skip_views i js n] by (simp add: get_merged_properties_def)
  qed
qed

section \<open>What the operations leave alone\<close>

text \<open>The columns that place an item in the model.\<close>

definition mi_place ::
  "model_item \<Rightarrow> item_class \<times> string \<times> string \<times> string \<times> string option \<times> string option" where
  "mi_place i = (mi_class i, mi_vpath i, mi_item_id i, mi_item_type_id i, mi_parent_vpath i, mi_source_vpath i)"

lemma mi_place_eqD:
  assumes "mi_place i = mi_place j"
  shows "mi_class i = mi_class j" "mi_vpath i = mi_vpath j" "mi_item_id i = mi_item_id j"
    "mi_item_type_id i = mi_item_type_id j" "mi_parent_vpath i = mi_parent_vpath j"
    "mi_source_vpath i = mi_source_vpath j" "get_source st i = get_source st j"
    "item_type_of types i = item_type_of types j"
  using assms by (simp_all add: mi_place_def get_source_def item_type_of_def cong: option.case_cong)

lemma mi_place_update [frame_simps, simp]:
  "mi_place (i\<lparr>mi_properties := p\<rparr>) = mi_place i"
  "mi_place (i\<lparr>mi_applied_properties := p\<rparr>) = mi_place i"
  "mi_place (i\<lparr>mi_state := s\<rparr>) = mi_place i"
  "mi_place (i\<lparr>mi_previous_state := q\<rparr>) = mi_place i"
  "mi_place (i\<lparr>mi_apd := b\<rparr>) = mi_place i"
  by (simp_all add: mi_place_def)

lemma merged_properties_cong:
  assumes "mi_source_vpath i = mi_source_vpath j" and "mi_properties i = mi_properties j"
  shows "get_merged_properties st i b = get_merged_properties st j b"
proof -
  have unfold: "get_merged_properties st k b =
      (case get_source st k of None \<Rightarrow> Inr (merged_along b [k])
       | Some s \<Rightarrow> rbind (chain_fuel (length st) st s) (\<lambda>ks. Inr (merged_along b (k # ks))))" for k
    by (simp add: get_merged_properties_def inheritance_chain_def rbind_assoc split: option.split)
  have "get_source st i = get_source st j" using assms(1) by (simp add: get_source_def)
  moreover have "merged_along b (i # ks) = merged_along b (j # ks)" for ks
    using assms(2) by (simp add: merged_along_def get_properties_of_def)
  ultimately show ?thesis unfolding unfold by (simp split: option.split)
qed

lemma merged_properties_update [simp]:
  "get_merged_properties st (i\<lparr>mi_applied_properties := p\<rparr>) b = get_merged_properties st i b"
  "get_merged_properties st (i\<lparr>mi_state := s\<rparr>) b = get_merged_properties st i b"
  "get_merged_properties st (i\<lparr>mi_previous_state := q\<rparr>) b = get_merged_properties st i b"
  "get_merged_properties st (i\<lparr>mi_apd := c\<rparr>) b = get_merged_properties st i b"
  by (rule merged_properties_cong; simp)+

lemma set_state_result:
  assumes "set_state st new i = Inr j"
  shows "mi_state j = new \<and> mi_place j = mi_place i \<and> mi_properties j = mi_properties i \<and>
    mi_previous_state j =
      (if mi_state i \<in> {new, ForRemoval} then mi_previous_state i else Some (mi_state i)) \<and>
    mi_apd j = (new = Applied \<or> mi_apd i) \<and>
    (if new = Applied \<and> mi_state i \<noteq> Applied
     then get_merged_properties st i False = Inr (mi_applied_properties j)
     else mi_applied_properties j = mi_applied_properties i)"
proof (cases "mi_state i = new")
  case True
  then show ?thesis using assms by (cases "new = Applied"; cases "mi_apd i") (auto simp: set_state_def set_apd_def Let_def)
next
  case False
  then show ?thesis
    using assms
    by (cases "new = Applied"; cases "mi_state i = ForRemoval"; cases "mi_apd i")
       (simp_all add: set_state_def set_apd_def Let_def, auto simp: rbind_Inr_iff)
qed

lemmas set_state_ops = set_initial_def set_updated_def set_applied_def set_for_removal_def set_removed_def

lemma delete_property_result:
  assumes "delete_property types st n to_applied i = Inr j"
  shows "\<exists>d. j = (if to_applied then i\<lparr>mi_applied_properties := d\<rparr> else i\<lparr>mi_properties := d\<rparr>)"
proof (cases to_applied)
  case True
  then have "j = i \<or> (\<exists>d. j = i\<lparr>mi_applied_properties := d\<rparr>)"
    using assms by (auto simp: delete_property_def rbind_Inr_iff Let_def split: if_splits option.splits)
  moreover have "i = i\<lparr>mi_applied_properties := mi_applied_properties i\<rparr>" by simp
  ultimately show ?thesis using True by metis
next
  case False
  then have "j = i \<or> (\<exists>d. j = i\<lparr>mi_properties := d\<rparr>)"
    using assms by (auto simp: delete_property_def rbind_Inr_iff Let_def split: if_splits)
  moreover have "i = i\<lparr>mi_properties := mi_properties i\<rparr>" by simp
  ultimately show ?thesis using False by metis
qed

lemma set_property_result:
  assumes "set_property types st n v to_applied i = Inr j"
  shows "\<exists>d. j = (if to_applied then i\<lparr>mi_applied_properties := d\<rparr> else i\<lparr>mi_properties := d\<rparr>)"
proof (cases "take 1 n = ''^'' \<or> v = VNone")
  case True
  then show ?thesis using assms delete_property_result by (simp add: set_property_def)
next
  case False
  then have "\<not> to_applied \<and> (\<exists>d. j = i\<lparr>mi_properties := d\<rparr>) \<or>
      to_applied \<and> ((\<exists>d. j = i\<lparr>mi_applied_properties := d\<rparr>) \<or> j = i)"
    using assms by (auto simp: set_property_def rbind_Inr_iff split: if_splits option.splits)
  moreover have "i = i\<lparr>mi_applied_properties := mi_applied_properties i\<rparr>" by simp
  ultimately show ?thesis by metis
qed

lemma set_property_keeps:
  assumes "set_property types st n v to_applied i = Inr j"
  shows "mi_place j = mi_place i \<and> mi_state j = mi_state i \<and> mi_previous_state j = mi_previous_state i \<and>
    mi_apd j = mi_apd i \<and> (if to_applied then mi_properties j = mi_properties i
      else mi_applied_properties j = mi_applied_properties i)"
  using set_property_result [OF assms] by (cases to_applied) auto

lemma apply_non_config_loop_keeps:
  assumes "apply_non_config_loop types st overwrite applied d (i, b) = Inr (j, c)"
  shows "mi_place j = mi_place i \<and> mi_state j = mi_state i \<and> mi_previous_state j = mi_previous_state i \<and>
    mi_apd j = mi_apd i \<and> mi_properties j = mi_properties i"
  using assms
proof (induction d arbitrary: i b)
  case (Cons nv d)
  obtain n v where nv: "nv = (n, v)" by (cases nv)
  show ?case
  proof (cases "(\<not> overwrite \<and> is_property_overwritten st i n) \<or> map_of applied n = Some v")
    case True
    then show ?thesis using Cons by (auto simp: nv split: if_splits)
  next
    case False
    then obtain k where k: "set_property types st n v True i = Inr k"
      and "apply_non_config_loop types st overwrite applied d (k, True) = Inr (j, c)"
      using Cons.prems by (auto simp: nv rbind_Inr_iff split: if_splits)
    then show ?thesis using Cons.IH [of k True] set_property_keeps [OF k] by simp
  qed
qed simp

lemma apply_non_config_keeps:
  assumes "apply_non_config_properties types st props overwrite i = Inr (j, c)"
  shows "mi_place j = mi_place i \<and> mi_state j = mi_state i \<and> mi_previous_state j = mi_previous_state i \<and>
    mi_apd j = mi_apd i \<and> mi_properties j = mi_properties i"
  using assms apply_non_config_loop_keeps
  by (auto simp: apply_non_config_properties_def rbind_Inr_iff)

lemma set_properties_keeps:
  assumes "for_res (\<lambda>(n, v). set_property types st n v False) props i = Inr j"
  shows "mi_place j = mi_place i \<and> mi_state j = mi_state i \<and> mi_previous_state j = mi_previous_state i \<and>
    mi_apd j = mi_apd i \<and> mi_applied_properties j = mi_applied_properties i"
  using assms
  by (rule for_res_preorder [where R = "\<lambda>i j. mi_place j = mi_place i \<and> mi_state j = mi_state i \<and>
      mi_previous_state j = mi_previous_state i \<and> mi_apd j = mi_apd i \<and>
      mi_applied_properties j = mi_applied_properties i"])
    (auto dest: set_property_keeps)

lemma update_state_after_keeps:
  assumes "update_state_after st b i = Inr j"
  shows "mi_place j = mi_place i \<and> mi_properties j = mi_properties i \<and>
    (mi_previous_state i \<noteq> Some ForRemoval \<longrightarrow> mi_previous_state j \<noteq> Some ForRemoval)"
  using assms
  by (auto simp: update_state_after_def set_state_ops rbind_Inr_iff Let_def split: if_splits
      dest!: set_state_result)

section \<open>The state an item returns to\<close>

datatype item_op = SetState item_state | SetPrevious | Update "pval dict"

fun item_step :: "item_type dict \<Rightarrow> store \<Rightarrow> item_op \<Rightarrow> model_item \<Rightarrow> model_item res" where
  "item_step types st (SetState s) i = set_state st s i"
| "item_step types st SetPrevious i = set_previous_state st i"
| "item_step types st (Update props) i = update_properties types st props i"

lemma update_properties_cases:
  assumes "update_properties types st props i = Inr j"
  shows "props = [] \<and> j = i \<or> (\<exists>k b l. apply_non_config_properties types st props True i = Inr (k, b) \<and>
    for_res (\<lambda>(n, v). set_property types st n v False) props k = Inr l \<and>
    update_state_after st b l = Inr j)"
  using assms by (auto simp: update_properties_def rbind_Inr_iff split: if_splits)

lemma update_properties_keeps:
  assumes "update_properties types st props i = Inr j"
  shows "mi_place j = mi_place i \<and>
    (mi_previous_state i \<noteq> Some ForRemoval \<longrightarrow> mi_previous_state j \<noteq> Some ForRemoval)"
  using update_properties_cases [OF assms]
proof
  assume "\<exists>k b l. apply_non_config_properties types st props True i = Inr (k, b) \<and>
    for_res (\<lambda>(n, v). set_property types st n v False) props k = Inr l \<and> update_state_after st b l = Inr j"
  then obtain k b l where "apply_non_config_properties types st props True i = Inr (k, b)"
    and "for_res (\<lambda>(n, v). set_property types st n v False) props k = Inr l"
    and "update_state_after st b l = Inr j" by blast
  then show ?thesis
    using apply_non_config_keeps set_properties_keeps update_state_after_keeps by metis
qed simp

interpretation never_removal: guarded_machine "item_step types st"
  "\<lambda>i. mi_previous_state i \<noteq> Some ForRemoval" for types st
proof
  fix i j and op
  assume prev: "mi_previous_state i \<noteq> Some ForRemoval" and step: "item_step types st op i = Inr j"
  show "mi_previous_state j \<noteq> Some ForRemoval"
  proof (cases op)
    case (SetState s)
    then show ?thesis using step prev set_state_result [of st s i j] by auto
  next
    case SetPrevious
    then show ?thesis using step prev
      by (auto simp: set_previous_state_def set_updated_def split: if_splits dest!: set_state_result)
  next
    case (Update props)
    then show ?thesis using step prev update_properties_keeps [of types st props i j] by simp
  qed
qed

text \<open>Whatever is done to an item, the state it returns to when its removal is taken back is
  never the state of an item marked for removal.\<close>

theorem previous_state_never_removal:
  assumes "mi_previous_state i \<noteq> Some ForRemoval"
    and "j = guarded_machine.run (item_step types st) ops i" and "set_previous_state st j = Inr k"
  shows "mi_previous_state j \<noteq> Some ForRemoval \<and> mi_state k \<noteq> ForRemoval"
proof -
  have j: "mi_previous_state j \<noteq> Some ForRemoval" unfolding assms(2) using assms(1) by (rule never_removal.run_inv)
  obtain s where "set_state st s j = Inr k" "s \<noteq> ForRemoval"
    using assms(3) j by (auto simp: set_previous_state_def set_updated_def split: if_splits option.splits)
  with j show ?thesis using set_state_result [of st s j k] by simp
qed

text \<open>C8: marking an item for removal and taking the mark back returns it to the state it had, except
  that an applied item whose applied properties cannot be determined comes back as updated.\<close>

theorem removal_taken_back:
  assumes "mi_state i \<noteq> ForRemoval" and "set_for_removal st i = Inr j" and "set_previous_state st j = Inr k"
  shows "mi_state k = (if mi_state i = Applied \<and> \<not> mi_apd i then Updated else mi_state i) \<and>
    mi_place k = mi_place i \<and> mi_properties k = mi_properties i \<and> mi_apd k = mi_apd i \<and>
    (if mi_state k = Applied then get_merged_properties st i False = Inr (mi_applied_properties k)
     else mi_applied_properties k = mi_applied_properties i)"
proof -
  have j: "mi_state j = ForRemoval" "mi_previous_state j = Some (mi_state i)" "mi_place j = mi_place i"
    "mi_properties j = mi_properties i" "mi_apd j = mi_apd i" "mi_applied_properties j = mi_applied_properties i"
    using set_state_result [of st ForRemoval i j] assms(1,2) by (auto simp: set_for_removal_def)
  have merged: "get_merged_properties st j False = get_merged_properties st i False"
    using j(3,4) by (intro merged_properties_cong) (auto simp: mi_place_def)
  obtain s where s: "set_state st s j = Inr k" "s = (if mi_state i = Applied \<and> \<not> mi_apd i then Updated else mi_state i)"
    using assms(3) j by (auto simp: set_previous_state_def set_updated_def split: if_splits)
  then show ?thesis
    using set_state_result [OF s(1)] j merged
    by (cases "mi_state i = Applied"; cases "mi_apd i"; cases "s = Applied") auto
qed

section \<open>What an update does\<close>

text \<open>The value a single assignment leaves: the new one, or the fallback where the property is unset.\<close>

definition assigned :: "item_type \<Rightarrow> model_item \<Rightarrow> string \<Rightarrow> pval \<Rightarrow> pval option" where
  "assigned t i n v =
     (if take 1 n = ''^'' \<or> v = VNone
      then (if has_key n (mi_properties i)
            then fallback_default i (as_property (map_of (it_structure t) n)) else None)
      else Some v)"

lemma fallback_default_place:
  "mi_place i = mi_place j \<Longrightarrow> fallback_default i p = fallback_default j p"
  unfolding fallback_default_def by (simp add: mi_place_def cong: option.case_cong)

lemma set_property_assigns:
  assumes "set_property types st n v False i = Inr j"
  shows "\<exists>t. item_type_of types i = Inr t \<and> map_of (mi_properties j) = (map_of (mi_properties i))(n := assigned t i n v)"
proof (cases "take 1 n = ''^'' \<or> v = VNone")
  case True
  have absent: "map_of (mi_properties i) = (map_of (mi_properties i))(n := None)" if "\<not> has_key n (mi_properties i)"
    using that by (auto simp: has_key_def)
  from True assms have d: "delete_property types st n False i = Inr j" by (auto simp: set_property_def)
  then obtain t where t: "item_type_of types i = Inr t" by (auto simp: delete_property_def rbind_Inr_iff)
  have "map_of (mi_properties j) = (map_of (mi_properties i))(n := assigned t i n v)"
    using True d t absent
    by (cases "fallback_default i (as_property (map_of (it_structure t) n))"; cases "has_key n (mi_properties i)")
       (auto simp: delete_property_def assigned_def)
  with t show ?thesis by blast
next
  case False
  then show ?thesis using assms
    by (auto simp: set_property_def rbind_Inr_iff assigned_def split: if_splits option.splits)
qed

lemma set_properties_assign:
  assumes "for_res (\<lambda>(n, v). set_property types st n v False) props i = Inr j" and "distinct (map fst props)"
    and "item_type_of types i = Inr t"
  shows "map_of (mi_properties j) n =
    (case map_of props n of None \<Rightarrow> map_of (mi_properties i) n | Some v \<Rightarrow> assigned t i n v)"
  using assms
proof (induction props arbitrary: i)
  case (Cons nv props)
  obtain m v where nv: "nv = (m, v)" by (cases nv)
  with Cons.prems(1) obtain k where k: "set_property types st m v False i = Inr k"
    and rest: "for_res (\<lambda>(n, v). set_property types st n v False) props k = Inr j"
    by (auto simp: rbind_Inr_iff)
  have place: "mi_place k = mi_place i" using set_property_keeps [OF k] by simp
  then have type: "item_type_of types k = Inr t" using mi_place_eqD(8) [OF place, of types] Cons.prems(3) by simp
  have map: "map_of (mi_properties k) = (map_of (mi_properties i))(m := assigned t i m v)"
    using set_property_assigns [OF k] Cons.prems(3) by auto
  have IH: "map_of (mi_properties j) n =
      (case map_of props n of None \<Rightarrow> map_of (mi_properties k) n | Some v \<Rightarrow> assigned t k n v)"
    using Cons.IH [OF rest _ type] Cons.prems(2) by simp
  show ?case
  proof (cases "n = m")
    case True
    then have "map_of props n = None" using Cons.prems(2) by (simp add: nv map_of_eq_None_iff)
    then show ?thesis using IH map nv True by simp
  next
    case False
    then have "assigned t k n w = assigned t i n w" for w
      using map fallback_default_place [OF place] by (simp add: assigned_def has_key_def)
    then show ?thesis using IH map nv False by (simp split: option.split)
  qed
qed simp

lemma update_properties_map:
  assumes "update_properties types st props i = Inr j" and "distinct (map fst props)"
    and "item_type_of types i = Inr t"
  shows "map_of (mi_properties j) n =
    (case map_of props n of None \<Rightarrow> map_of (mi_properties i) n | Some v \<Rightarrow> assigned t i n v)"
  using update_properties_cases [OF assms(1)]
proof
  assume "\<exists>k b l. apply_non_config_properties types st props True i = Inr (k, b) \<and>
    for_res (\<lambda>(n, v). set_property types st n v False) props k = Inr l \<and> update_state_after st b l = Inr j"
  then obtain k b l where k: "apply_non_config_properties types st props True i = Inr (k, b)"
    and l: "for_res (\<lambda>(n, v). set_property types st n v False) props k = Inr l"
    and j: "update_state_after st b l = Inr j" by blast
  have place: "mi_place k = mi_place i" and props: "mi_properties k = mi_properties i"
    using apply_non_config_keeps [OF k] by simp_all
  have "item_type_of types k = Inr t" using mi_place_eqD(8) [OF place, of types] assms(3) by simp
  from set_properties_assign [OF l assms(2) this, of n] show ?thesis
    using update_state_after_keeps [OF j] props fallback_default_place [OF place]
    by (simp add: assigned_def split: option.split)
qed simp

text \<open>An update changes exactly the properties it names: each gets its new value; one that is unset
  falls back to the required default of an item without source, and otherwise goes.\<close>

theorem update_properties_sets:
  assumes "update_properties types st props i = Inr j" and "distinct (map fst props)"
    and "item_type_of types i = Inr t"
  shows "map_of (mi_properties j) n =
    (case map_of props n of None \<Rightarrow> map_of (mi_properties i) n | Some v \<Rightarrow> assigned t i n v)"
  using assms by (rule update_properties_map)

text \<open>Stored properties hold no callables: a view is evaluated, never stored.\<close>

definition plain_item :: "model_item \<Rightarrow> bool" where
  "plain_item i \<longleftrightarrow> (\<forall>(n, v) \<in> set (mi_properties i). \<not> is_callable v)"

definition plain_dict :: "pval dict \<Rightarrow> bool" where
  "plain_dict d \<longleftrightarrow> skip_callables True d = d"

lemma plain_dict_iff: "plain_dict d \<longleftrightarrow> (\<forall>(n, v) \<in> set d. \<not> is_callable v)"
  by (auto simp: plain_dict_def skip_callables_def filter_id_conv)

lemma plain_item_dict: "plain_item i \<longleftrightarrow> plain_dict (mi_properties i)"
  by (simp add: plain_item_def plain_dict_iff)

lemma plain_update: "plain_dict d \<Longrightarrow> \<not> is_callable v \<Longrightarrow> plain_dict (AList.update n v d)"
  by (induction d) (auto simp: plain_dict_iff)

lemma set_delete_subset: "set (AList.delete n d) \<subseteq> set d"
  by (induction d) auto

lemma plain_delete: "plain_dict d \<Longrightarrow> plain_dict (AList.delete n d)"
  using set_delete_subset [of n d] unfolding plain_dict_iff by blast

lemma plain_merge_missing: "plain_dict d \<Longrightarrow> plain_dict e \<Longrightarrow> plain_dict (merge_missing d e)"
proof (induction e arbitrary: d)
  case (Cons nv e)
  obtain n v where nv: "nv = (n, v)" by (cases nv)
  have "\<not> is_callable v" "plain_dict e" using Cons.prems(2) by (auto simp: nv plain_dict_iff)
  then show ?case using Cons.IH Cons.prems(1) by (simp add: nv plain_update)
qed simp

lemma chain_items: "chain_fuel n st i = Inr ks \<Longrightarrow> set ks \<subseteq> insert i (set st)"
proof (induction n arbitrary: i ks)
  case (Suc n)
  show ?case
  proof (cases "get_source st i")
    case (Some s)
    then have "s \<in> set st" by (auto simp: get_source_def dest: st_get_Some split: if_splits)
    moreover obtain js where "chain_fuel n st s = Inr js" "ks = i # js"
      using Suc.prems Some by (auto simp: rbind_Inr_iff)
    ultimately show ?thesis using Suc.IH [of s js] by auto
  qed (use Suc.prems in auto)
qed simp

lemma merged_along_plain:
  assumes "\<forall>k \<in> set ks. plain_item k"
  shows "merged_along False ks = merged_along True ks \<and> plain_dict (merged_along True ks)"
proof -
  have "plain_dict d \<Longrightarrow> fold (\<lambda>i d. merge_missing d (get_properties_of i False)) ks d =
      fold (\<lambda>i d. merge_missing d (get_properties_of i True)) ks d \<and>
      plain_dict (fold (\<lambda>i d. merge_missing d (get_properties_of i True)) ks d)" for d
    using assms
  proof (induction ks arbitrary: d)
    case (Cons k ks)
    have "get_properties_of k True = mi_properties k" "get_properties_of k False = mi_properties k"
      using Cons.prems(2) by (simp_all add: get_properties_of_def plain_item_dict plain_dict_def)
         (simp add: skip_callables_def)
    moreover have "plain_dict (merge_missing d (mi_properties k))"
      using Cons.prems by (simp add: plain_merge_missing plain_item_dict)
    ultimately show ?case using Cons by simp
  qed simp
  moreover have "plain_dict []" by (simp add: plain_dict_iff)
  ultimately show ?thesis unfolding merged_along_def by blast
qed

lemma merged_properties_plain:
  assumes "get_merged_properties st i False = Inr d" and "plain_item i" and "\<forall>k \<in> set st. plain_item k"
  shows "get_merged_properties st i True = Inr d \<and> plain_dict d"
proof -
  from assms(1) obtain ks where ks: "chain_fuel (length st + 1) st i = Inr ks" and d: "d = merged_along False ks"
    by (auto simp: get_merged_properties_def inheritance_chain_def rbind_Inr_iff)
  have "\<forall>k \<in> set ks. plain_item k" using chain_items [OF ks] assms(2,3) by blast
  then show ?thesis using ks d merged_along_plain by (simp add: get_merged_properties_def inheritance_chain_def)
qed

lemma set_property_plain:
  assumes "set_property types st n v False i = Inr j" and "plain_item i"
  shows "plain_item j"
proof (cases "take 1 n = ''^'' \<or> v = VNone")
  case True
  then have "delete_property types st n False i = Inr j" using assms(1) by (auto simp: set_property_def)
  moreover have "\<not> is_callable w" if "fallback_default i p = Some w" for w p
    using that by (auto simp: fallback_default_def split: option.splits if_splits)
  ultimately show ?thesis using assms(2)
    by (auto simp: delete_property_def rbind_Inr_iff Let_def plain_item_dict plain_update plain_delete
        split: if_splits option.splits)
next
  case False
  then show ?thesis using assms
    by (auto simp: set_property_def rbind_Inr_iff plain_item_dict plain_update split: if_splits option.splits)
qed

lemma update_properties_plain:
  assumes "update_properties types st props i = Inr j" and "plain_item i"
  shows "plain_item j"
  using update_properties_cases [OF assms(1)]
proof
  assume "\<exists>k b l. apply_non_config_properties types st props True i = Inr (k, b) \<and>
    for_res (\<lambda>(n, v). set_property types st n v False) props k = Inr l \<and> update_state_after st b l = Inr j"
  then obtain k b l where k: "apply_non_config_properties types st props True i = Inr (k, b)"
    and l: "for_res (\<lambda>(n, v). set_property types st n v False) props k = Inr l"
    and j: "update_state_after st b l = Inr j" by blast
  have "plain_item k" using apply_non_config_keeps [OF k] assms(2) by (simp add: plain_item_dict)
  with l have "plain_item l" by (rule for_res_invariant) (auto dest: set_property_plain)
  then show ?thesis using update_state_after_keeps [OF j] by (simp add: plain_item_dict)
qed (use assms in auto)

text \<open>The last step of an update, on an item that is applied or updated.\<close>

text \<open>When an item that has been deployed counts as applied again.\<close>

definition may_settle :: "model_item \<Rightarrow> bool" where
  "may_settle i \<longleftrightarrow> mi_state i = Applied \<or> mi_apd i \<and> mi_previous_state i \<in> {Some Applied, Some Updated}"

lemma update_state_after_settles:
  assumes "update_state_after st b i = Inr j" and "mi_state i \<in> {Applied, Updated}"
    and "plain_item i" and "\<forall>k \<in> set st. plain_item k"
  shows "\<exists>m. get_merged_properties st j True = Inr m \<and>
    mi_state j = (if dict_eq (get_applied_properties j True) m \<and> may_settle i then Applied else Updated)"
proof -
  from assms(1) obtain m where m: "get_merged_properties st i True = Inr m"
    by (auto simp: update_state_after_def rbind_Inr_iff)
  let ?eq = "dict_eq (get_applied_properties i True) m"
  have j: "if mi_state i = Applied \<and> \<not> ?eq then set_state st Updated i = Inr j
      else if mi_state i = Updated \<and> ?eq \<and> may_settle i then set_state st Applied i = Inr j else j = i"
    using assms(1,2) m by (auto simp: update_state_after_def may_settle_def set_state_ops Let_def split: if_splits)
  have merged: "get_merged_properties st j True = Inr m" if "mi_place j = mi_place i" "mi_properties j = mi_properties i"
    using merged_properties_cong [of j i st True] that m by (simp add: mi_place_def)
  show ?thesis
  proof (cases "mi_state i = Updated \<and> ?eq \<and> may_settle i")
    case True
    then have s: "set_state st Applied i = Inr j" using j by simp
    note r = set_state_result [OF s]
    then have "get_merged_properties st i False = Inr (mi_applied_properties j)" using True by simp
    from merged_properties_plain [OF this assms(3,4)] m
    have "get_applied_properties j True = m" by (simp add: get_applied_properties_def plain_dict_def)
    then show ?thesis using merged r True by (simp add: dict_eq_iff)
  next
    case False
    then have "j = i \<and> (mi_state i = Applied \<longleftrightarrow> ?eq \<and> may_settle i) \<or> set_state st Updated i = Inr j \<and> \<not> ?eq"
      using j assms(2) by (auto simp: may_settle_def split: if_splits)
    then show ?thesis
    proof
      assume "j = i \<and> (mi_state i = Applied \<longleftrightarrow> ?eq \<and> may_settle i)"
      then show ?thesis using m assms(2) by auto
    next
      assume u: "set_state st Updated i = Inr j \<and> \<not> ?eq"
      then show ?thesis using merged set_state_result [of st Updated i j] by (simp add: get_applied_properties_def)
    qed
  qed
qed

text \<open>C6: when no property value in the model is a view, an update with some properties of an item in
  state Applied or Updated leaves it in state Applied exactly when its properties, inherited ones included,
  are then the applied ones and the item was Applied before, or what is applied of it can be determined and
  it was Applied or Updated before it last changed its state; otherwise it is Updated.\<close>

theorem update_settles_state:
  assumes "update_properties types st props i = Inr j" and "props \<noteq> []"
    and "mi_state i \<in> {Applied, Updated}" and "\<forall>k \<in> set (i # st). plain_item k"
  shows "\<exists>m. get_merged_properties st j True = Inr m \<and>
    mi_state j = (if dict_eq (get_applied_properties j True) m \<and>
        (mi_state i = Applied \<or> mi_apd i \<and> mi_previous_state i \<in> {Some Applied, Some Updated})
      then Applied else Updated)"
proof -
  from update_properties_cases [OF assms(1)] assms(2) obtain k b l
    where k: "apply_non_config_properties types st props True i = Inr (k, b)"
      and l: "for_res (\<lambda>(n, v). set_property types st n v False) props k = Inr l"
      and j: "update_state_after st b l = Inr j" by blast
  have keep: "mi_state l = mi_state i" "mi_apd l = mi_apd i" "mi_previous_state l = mi_previous_state i"
    "mi_properties k = mi_properties i"
    using apply_non_config_keeps [OF k] set_properties_keeps [OF l] by simp_all
  have "plain_item k" using assms(4) keep(4) by (simp add: plain_item_dict)
  with l have "plain_item l" by (rule for_res_invariant) (auto dest: set_property_plain)
  with update_state_after_settles [OF j] assms(3,4) keep show ?thesis by (simp add: may_settle_def)
qed

section \<open>Examples\<close>

text \<open>A node with an applied host name, a blade that inherits from it, and their types.\<close>

definition ex_item_types :: "item_type dict" where
  "ex_item_types = map (\<lambda>t. (it_id t, t)) ex_types"

definition ex_node :: model_item where
  "ex_node = (new_model_item ModelItemC ''node'' ''n1'' (Some ''/nodes'') [(''hostname'', VStr ''a'')])
     \<lparr>mi_state := Applied, mi_applied_properties := [(''hostname'', VStr ''a'')]\<rparr>"

definition ex_blade :: model_item where
  "ex_blade = (new_model_item ModelItemC ''blade'' ''b1'' (Some ''/nodes'') [(''slot'', VStr ''1'')])
     \<lparr>mi_source_vpath := Some ''/nodes/n1''\<rparr>"

definition ex_store :: store where
  "ex_store = [ex_blade, ex_node]"

lemmas ex_item_simps = ex_item_types_def ex_types_def ex_store_def ex_node_def ex_blade_def
  new_model_item_def construct_vpath_def Let_def

theorem merged_properties_inherit_witness:
  "\<exists>d. get_merged_properties ex_store ex_blade False = Inr d \<and> map_of d ''hostname'' = Some (VStr ''a'')"
proof -
  have m: "get_merged_properties ex_store ex_blade False =
      Inr [(''slot'', VStr ''1''), (''hostname'', VStr ''a'')]" by code_simp
  have src: "get_source ex_store ex_blade = Some ex_node" by code_simp
  have n: "get_merged_properties ex_store ex_node False = Inr [(''hostname'', VStr ''a'')]" by code_simp
  have b: "get_properties_of ex_blade False = [(''slot'', VStr ''1'')]" by code_simp
  from merged_properties_inherit [OF m, of "''hostname''"] m show ?thesis by (auto simp: src n b)
qed

theorem previous_state_never_removal_witness:
  "\<exists>j k. j = guarded_machine.run (item_step ex_item_types ex_store) [SetState ForRemoval, SetState Removed] ex_node \<and>
    set_previous_state ex_store j = Inr k \<and> mi_state k \<noteq> ForRemoval"
proof -
  let ?run = "guarded_machine.run (item_step ex_item_types ex_store)"
  define j where "j = ?run [SetState ForRemoval, SetState Removed] ex_node"
  have j: "j = ex_node\<lparr>mi_state := Removed, mi_previous_state := Some Applied\<rparr>"
    by (simp add: j_def never_removal.run.simps set_state_def ex_node_def new_model_item_def)
  have "\<not> isl (set_previous_state ex_store (ex_node\<lparr>mi_state := Removed, mi_previous_state := Some Applied\<rparr>))"
    by code_simp
  then obtain k where k: "set_previous_state ex_store j = Inr k"
    by (cases "set_previous_state ex_store j") (auto simp: j)
  have "mi_previous_state ex_node \<noteq> Some ForRemoval" by code_simp
  from previous_state_never_removal [OF this j_def k] k j_def show ?thesis by blast
qed

theorem removal_taken_back_witness:
  "\<exists>j k. set_for_removal ex_store ex_node = Inr j \<and> set_previous_state ex_store j = Inr k \<and> mi_state k = Applied"
proof -
  let ?j = "ex_node\<lparr>mi_state := ForRemoval, mi_previous_state := Some Applied\<rparr>"
  let ?k = "ex_node\<lparr>mi_previous_state := Some Applied\<rparr>"
  have j: "set_for_removal ex_store ex_node = Inr ?j" by code_simp
  have k: "set_previous_state ex_store ?j = Inr ?k" by code_simp
  have "mi_state ex_node \<noteq> ForRemoval" by code_simp
  from removal_taken_back [OF this j k] j k show ?thesis by (auto simp: ex_node_def new_model_item_def)
qed

definition ex_update :: "pval dict" where
  "ex_update = [(''hostname'', VStr ''b'')]"

definition ex_node_updated :: model_item where
  "ex_node_updated = ex_node\<lparr>mi_properties := ex_update, mi_state := Updated, mi_previous_state := Some Applied\<rparr>"

lemma ex_update_result: "update_properties ex_item_types ex_store ex_update ex_node = Inr ex_node_updated"
  by code_simp

theorem update_properties_sets_witness:
  "map_of (mi_properties ex_node_updated) ''hostname'' = Some (VStr ''b'')"
proof -
  have "distinct (map fst ex_update)" by code_simp
  moreover have "item_type_of ex_item_types ex_node = Inr (hd ex_types)" by code_simp
  ultimately show ?thesis
    using update_properties_sets [OF ex_update_result, of "hd ex_types" "''hostname''"]
    by (simp add: ex_update_def assigned_def)
qed

theorem update_settles_state_witness:
  "mi_state ex_node_updated = Updated \<and>
   \<not> dict_eq (get_applied_properties ex_node_updated True) [(''hostname'', VStr ''b'')]"
proof -
  have "ex_update \<noteq> []" "mi_state ex_node \<in> {Applied, Updated}" "mi_state ex_node = Applied"
    by (simp_all add: ex_update_def ex_node_def new_model_item_def)
  moreover have "\<forall>k \<in> set (ex_node # ex_store). plain_item k"
    by (auto simp: plain_item_def ex_item_simps)
  moreover have m: "get_merged_properties ex_store ex_node_updated True = Inr [(''hostname'', VStr ''b'')]"
    by code_simp
  moreover have "mi_state ex_node_updated = Updated" by code_simp
  ultimately show ?thesis using update_settles_state [OF ex_update_result] by (auto split: if_splits)
qed

end
