(* ===== verification/Model_Store.thy ===== *)
theory Model_Store
  imports Model_Item
begin

text \<open>
  \<open>litp/data/base_model_data_manager.py\<close>: the table of model items. The rows of a model are a list
  sorted by vpath, with one row for each vpath: the primary key is the pair of model id and vpath,
  and every query orders by vpath. The prefix test of the database, SQL's \<open>LIKE\<close> in
  \<open>column.startswith\<close>, is the parameter \<open>like\<close>.
\<close>

section \<open>The rows of one model\<close>

definition sorted_rows :: "store \<Rightarrow> bool" where
  "sorted_rows st \<longleftrightarrow> sorted (map mi_vpath st) \<and> distinct (map mi_vpath st)"

text \<open>\<open>add\<close> replaces the row that has the vpath of the item; \<open>delete\<close> removes it.\<close>

fun st_put :: "model_item \<Rightarrow> store \<Rightarrow> store" where
  "st_put i [] = [i]"
| "st_put i (j # st) =
     (if mi_vpath i < mi_vpath j then i # j # st
      else if mi_vpath i = mi_vpath j then i # st
      else j # st_put i st)"

definition st_delete :: "string \<Rightarrow> store \<Rightarrow> store" where
  "st_delete v st = filter (\<lambda>i. mi_vpath i \<noteq> v) st"

definition bm_get :: "string \<Rightarrow> store \<Rightarrow> model_item option" where
  "bm_get v st = st_get st v"

definition bm_exists :: "string \<Rightarrow> store \<Rightarrow> bool" where
  "bm_exists v st \<longleftrightarrow> bm_get v st \<noteq> None"

definition bm_add :: "model_item \<Rightarrow> store \<Rightarrow> store" where
  "bm_add i st = st_put i st"

definition bm_delete :: "model_item \<Rightarrow> store \<Rightarrow> store" where
  "bm_delete i st = st_delete (mi_vpath i) st"

definition bm_query_children :: "string \<Rightarrow> store \<Rightarrow> store" where
  "bm_query_children parent st = filter (\<lambda>i. mi_parent_vpath i = Some parent) st"

definition bm_count_children :: "string \<Rightarrow> store \<Rightarrow> nat" where
  "bm_count_children parent st = length (filter (\<lambda>i. mi_parent_vpath i = Some parent) st)"

definition bm_query_inherited :: "string \<Rightarrow> store \<Rightarrow> store" where
  "bm_query_inherited source st = filter (\<lambda>i. mi_source_vpath i = Some source) st"

definition bm_query_by_item_types :: "string list \<Rightarrow> store \<Rightarrow> store" where
  "bm_query_by_item_types ids st = filter (\<lambda>i. mi_item_type_id i \<in> set ids) st"

definition bm_query_by_states :: "item_state list \<Rightarrow> store \<Rightarrow> store" where
  "bm_query_by_states states st = filter (\<lambda>i. mi_state i \<in> set states) st"

definition bm_query :: "store \<Rightarrow> store" where
  "bm_query st = st"

text \<open>The tree of a model: apart from the root every item is filed below an item of the table, under
  an id without a slash.\<close>

definition tree_rows :: "store \<Rightarrow> bool" where
  "tree_rows st \<longleftrightarrow> (\<forall>i \<in> set st.
     mi_vpath i = ''/'' \<and> mi_parent_vpath i = None \<or>
     (\<exists>p. mi_parent_vpath i = Some p \<and> st_get st p \<noteq> None \<and> mi_item_id i \<noteq> [] \<and>
        slash \<notin> set (mi_item_id i) \<and> mi_vpath i = construct_vpath (mi_item_id i) (Some p)))"

text \<open>\<open>LIKE\<close> of the database: an underscore stands for any character, a percent sign for any text and
  a backslash takes the next character as it is. \<open>startswith\<close> of SQLAlchemy puts its argument into the
  pattern as it is, so the wildcards in it count.\<close>

function sql_like :: "string \<Rightarrow> string \<Rightarrow> bool" where
  "sql_like [] s \<longleftrightarrow> s = []"
| "sql_like (c # p) s \<longleftrightarrow>
     (if c = CHR ''%'' then sql_like p s \<or> (case s of [] \<Rightarrow> False | _ # t \<Rightarrow> sql_like (c # p) t)
      else if c = CHR 0x5C then p \<noteq> [] \<and> s \<noteq> [] \<and> hd p = hd s \<and> sql_like (tl p) (tl s)
      else s \<noteq> [] \<and> (c = CHR ''_'' \<or> c = hd s) \<and> sql_like p (tl s))"
  by pat_completeness auto
termination by (relation "measure (\<lambda>(p, s). length p + length s)") auto

declare sql_like.simps(2) [simp del]

definition column_startswith :: "string \<Rightarrow> string \<Rightarrow> bool" where
  "column_startswith p s \<longleftrightarrow> sql_like (p @ ''%'') s"

text \<open>The definitions take the test as an argument, \<open>like p s\<close> for \<open>s LIKE p || '%'\<close>; the database's is
  \<open>column_startswith\<close>.\<close>

type_synonym like = "string \<Rightarrow> string \<Rightarrow> bool"

definition bm_query_descends :: "like \<Rightarrow> string \<Rightarrow> store \<Rightarrow> store" where
  "bm_query_descends like v st =
     (if v = ''/''
      then filter (\<lambda>i. case mi_parent_vpath i of None \<Rightarrow> False | Some p \<Rightarrow> like v p) st
      else filter (\<lambda>i. case mi_parent_vpath i of None \<Rightarrow> False
                       | Some p \<Rightarrow> p = v \<or> like (v @ ''/'') p) st)"

section \<open>The models of the database\<close>

definition LIVE_MODEL_ID :: string where
  "LIVE_MODEL_ID = ''LIVE''"

definition LAST_SUCCESSFUL_PLAN_MODEL_ID :: string where
  "LAST_SUCCESSFUL_PLAN_MODEL_ID = ''LAST_SUCCESSFUL_PLAN''"

definition SNAPSHOT_PLAN_MODEL_ID_PREFIX :: string where
  "SNAPSHOT_PLAN_MODEL_ID_PREFIX = ''SNAPSHOT_''"

text \<open>The rows of the tables \<open>model\<close> and of the extensions, for each model id.\<close>

record 'e database =
  db_models :: "string \<Rightarrow> store"
  db_extensions :: "string \<Rightarrow> 'e list"

definition in_scope :: "like \<Rightarrow> string list \<Rightarrow> string \<Rightarrow> bool" where
  "in_scope like exclude v \<longleftrightarrow>
     list_ex (\<lambda>e. if e \<noteq> [] \<and> last e = slash then like e v else v = e \<or> like (e @ ''/'') v) exclude"

definition duplicate_model :: "like \<Rightarrow> string \<Rightarrow> string \<Rightarrow> string list \<Rightarrow> 'e database \<Rightarrow> 'e database" where
  "duplicate_model like from_id to_id exclude db =
     db\<lparr>db_models := (db_models db)(to_id :=
       fold st_put (filter (\<lambda>i. \<not> in_scope like exclude (mi_vpath i)) (db_models db from_id))
         (db_models db to_id))\<rparr>"

definition duplicate_extensions :: "string \<Rightarrow> string \<Rightarrow> 'e database \<Rightarrow> 'e database" where
  "duplicate_extensions from_id to_id db =
     db\<lparr>db_extensions := (db_extensions db)(to_id := db_extensions db to_id @ db_extensions db from_id)\<rparr>"

definition delete_backup_rows :: "like \<Rightarrow> string \<Rightarrow> string list \<Rightarrow> 'e database \<Rightarrow> 'e database" where
  "delete_backup_rows like model_id exclude db =
     db\<lparr>db_models := (db_models db)(model_id :=
       filter (\<lambda>i. in_scope like exclude (mi_vpath i)) (db_models db model_id))\<rparr>"

definition delete_extension_rows :: "string \<Rightarrow> 'e database \<Rightarrow> 'e database" where
  "delete_extension_rows model_id db = db\<lparr>db_extensions := (db_extensions db)(model_id := [])\<rparr>"

definition backup_exists :: "string \<Rightarrow> 'e database \<Rightarrow> bool" where
  "backup_exists model_id db \<longleftrightarrow> db_models db model_id \<noteq> [] \<and> db_extensions db model_id \<noteq> []"

definition create_backup :: "like \<Rightarrow> string \<Rightarrow> 'e database \<Rightarrow> 'e database" where
  "create_backup like model_id db =
     duplicate_extensions LIVE_MODEL_ID model_id
       (duplicate_model like LIVE_MODEL_ID model_id []
         (delete_extension_rows model_id (delete_backup_rows like model_id [] db)))"

definition delete_backup :: "like \<Rightarrow> string \<Rightarrow> string list \<Rightarrow> 'e database \<Rightarrow> 'e database" where
  "delete_backup like model_id exclude db =
     delete_extension_rows model_id (delete_backup_rows like model_id exclude db)"

definition restore_backup :: "like \<Rightarrow> string \<Rightarrow> string list \<Rightarrow> 'e database \<Rightarrow> 'e database" where
  "restore_backup like model_id exclude db =
     duplicate_model like model_id LIVE_MODEL_ID exclude (delete_backup_rows like LIVE_MODEL_ID exclude db)"

definition delete_snapshot_sets :: "model_item list \<Rightarrow> 'e database \<Rightarrow> 'e database" where
  "delete_snapshot_sets exclude_snapshots db =
     (let kept = [LIVE_MODEL_ID, LAST_SUCCESSFUL_PLAN_MODEL_ID] @
            map (\<lambda>i. SNAPSHOT_PLAN_MODEL_ID_PREFIX @ mi_item_id i) exclude_snapshots
      in db\<lparr>db_models := (\<lambda>m. if m \<in> set kept then db_models db m else []),
            db_extensions := (\<lambda>m. if m \<in> set kept then db_extensions db m else [])\<rparr>)"

section \<open>Lookups and rows\<close>

lemma set_st_put:
  "sorted_rows st \<Longrightarrow> set (st_put i st) = insert i {j \<in> set st. mi_vpath j \<noteq> mi_vpath i}"
  by (induction st) (auto simp: sorted_rows_def image_iff)

lemma sorted_st_put:
  assumes "sorted_rows st"
  shows "sorted_rows (st_put i st)"
  using assms
proof (induction st)
  case (Cons j st)
  then have st: "sorted_rows st" and IH: "sorted_rows (st_put i st)" by (auto simp: sorted_rows_def)
  have "mi_vpath ` set (st_put i st) = insert (mi_vpath i) (mi_vpath ` set st - {mi_vpath i})"
    using set_st_put [OF st, of i] by auto
  then show ?case using Cons.prems IH by (auto simp: sorted_rows_def)
qed (simp add: sorted_rows_def)

lemma sorted_st_delete: "sorted_rows st \<Longrightarrow> sorted_rows (st_delete v st)"
  by (simp add: sorted_rows_def st_delete_def sorted_filter distinct_map_filter)

lemma st_get_put [store_simps]: "st_get (st_put i st) v = (if v = mi_vpath i then Some i else st_get st v)"
  if "sorted_rows st"
  using that by (induction st) (auto simp: st_get_def sorted_rows_def)

lemma st_get_delete [store_simps]: "st_get (st_delete v st) w = (if w = v then None else st_get st w)"
  by (induction st) (auto simp: st_get_def st_delete_def)

lemma st_get_iff: "sorted_rows st \<Longrightarrow> st_get st v = Some i \<longleftrightarrow> i \<in> set st \<and> mi_vpath i = v"
  by (induction st) (auto simp: st_get_def sorted_rows_def)

text \<open>Two tables with the same rows are the same list.\<close>

lemma sorted_rows_unique:
  assumes "sorted_rows st" and "sorted_rows ut" and "set st = set ut"
  shows "st = ut"
  using assms
proof (induction st arbitrary: ut)
  case (Cons i st)
  then obtain j u where ut: "ut = j # u" by (cases ut) auto
  have "mi_vpath i \<le> mi_vpath j" "mi_vpath j \<le> mi_vpath i"
    using Cons.prems by (auto simp: ut sorted_rows_def)
  then have "mi_vpath i = mi_vpath j" by simp
  moreover have "j \<in> set (i # st)" using Cons.prems(3) ut by auto
  ultimately have j: "j = i" using Cons.prems(1) by (auto simp: sorted_rows_def)
  have "i \<notin> set st" "i \<notin> set u" using Cons.prems(1,2) by (auto simp: ut j sorted_rows_def)
  then have "set st = set u" using Cons.prems(3) by (auto simp: ut j)
  then show ?case using Cons by (simp add: ut j sorted_rows_def)
qed simp

lemma sorted_rows_filter: "sorted_rows st \<Longrightarrow> sorted_rows (filter P st)"
  by (simp add: sorted_rows_def sorted_filter distinct_map_filter)

lemma set_st_delete: "set (st_delete v st) = {j \<in> set st. mi_vpath j \<noteq> v}"
  by (auto simp: st_delete_def)

lemma sorted_fold_put: "sorted_rows st \<Longrightarrow> sorted_rows (fold st_put is st)"
  by (induction "is" arbitrary: st) (auto intro: sorted_st_put)

lemma set_fold_put:
  assumes "sorted_rows st" and "distinct (map mi_vpath ks)" and "mi_vpath ` set ks \<inter> mi_vpath ` set st = {}"
  shows "set (fold st_put ks st) = set ks \<union> set st"
  using assms
proof (induction ks arbitrary: st)
  case (Cons k ks)
  have put: "set (st_put k st) = insert k (set st)"
    using set_st_put [OF Cons.prems(1), of k] Cons.prems(3) by (auto simp: image_iff)
  have "mi_vpath ` set ks \<inter> mi_vpath ` set (st_put k st) = {}" using Cons.prems(2,3) by (auto simp: put)
  then show ?case using Cons put by (simp add: sorted_st_put)
qed simp

section \<open>Backups\<close>

text \<open>Filling an empty part of a table with rows of another.\<close>

lemma fold_put_scope:
  assumes "sorted_rows a" and "sorted_rows b"
  shows "fold st_put (filter (\<lambda>i. \<not> P (mi_vpath i)) a) (filter (\<lambda>i. P (mi_vpath i)) b) = c \<longleftrightarrow>
    sorted_rows c \<and> set c = {i \<in> set a. \<not> P (mi_vpath i)} \<union> {i \<in> set b. P (mi_vpath i)}"
proof -
  let ?r = "fold st_put (filter (\<lambda>i. \<not> P (mi_vpath i)) a) (filter (\<lambda>i. P (mi_vpath i)) b)"
  have b: "sorted_rows (filter (\<lambda>i. P (mi_vpath i)) b)" using assms(2) by (rule sorted_rows_filter)
  then have s: "sorted_rows ?r" by (rule sorted_fold_put)
  have "distinct (map mi_vpath (filter (\<lambda>i. \<not> P (mi_vpath i)) a))"
    using sorted_rows_filter [OF assms(1)] by (simp add: sorted_rows_def)
  then have "set ?r = {i \<in> set a. \<not> P (mi_vpath i)} \<union> {i \<in> set b. P (mi_vpath i)}"
    using b by (subst set_fold_put) auto
  with s show ?thesis using sorted_rows_unique [of ?r c] by auto
qed

lemma create_backup_models:
  assumes "sorted_rows (db_models db LIVE_MODEL_ID)" and "m \<noteq> LIVE_MODEL_ID"
  shows "db_models (create_backup like m db) = (db_models db)(m := db_models db LIVE_MODEL_ID)"
proof -
  have "fold st_put (db_models db LIVE_MODEL_ID) [] = db_models db LIVE_MODEL_ID"
    using fold_put_scope [of "db_models db LIVE_MODEL_ID" "[]" "\<lambda>v. False" "db_models db LIVE_MODEL_ID"] assms(1)
    by (simp add: sorted_rows_def)
  then show ?thesis using assms(2)
    by (simp add: create_backup_def duplicate_extensions_def duplicate_model_def delete_extension_rows_def
      delete_backup_rows_def in_scope_def fun_eq_iff)
qed

text \<open>C9: restoring a backup brings back the live model as it was when the backup was made, except for
  the trees excluded from the restore, which stay as they are now.\<close>

theorem restore_brings_back:
  assumes "m \<noteq> LIVE_MODEL_ID" and "sorted_rows (db_models db LIVE_MODEL_ID)"
    and "sorted_rows (db_models db' LIVE_MODEL_ID)"
    and "db_models db' m = db_models (create_backup like m db) m"
  shows "bm_get v (db_models (restore_backup like m exclude db') LIVE_MODEL_ID) =
    bm_get v (db_models (if in_scope like exclude v then db' else db) LIVE_MODEL_ID)"
proof -
  let ?P = "in_scope like exclude"
  have m: "db_models db' m = db_models db LIVE_MODEL_ID"
    using create_backup_models [OF assms(2,1)] assms(4) by simp
  let ?r = "db_models (restore_backup like m exclude db') LIVE_MODEL_ID"
  have "fold st_put (filter (\<lambda>i. \<not> ?P (mi_vpath i)) (db_models db LIVE_MODEL_ID))
      (filter (\<lambda>i. ?P (mi_vpath i)) (db_models db' LIVE_MODEL_ID)) = ?r"
    using assms(1) m by (simp add: restore_backup_def duplicate_model_def delete_backup_rows_def)
  then have "sorted_rows ?r" and "set ?r = {i \<in> set (db_models db LIVE_MODEL_ID). \<not> ?P (mi_vpath i)} \<union>
      {i \<in> set (db_models db' LIVE_MODEL_ID). ?P (mi_vpath i)}"
    using fold_put_scope [OF assms(2,3), of ?P ?r] by simp_all
  then have "bm_get v ?r = Some i \<longleftrightarrow>
      bm_get v (db_models (if ?P v then db' else db) LIVE_MODEL_ID) = Some i" for i
    using assms(2,3) by (auto simp: bm_get_def st_get_iff)
  then show ?thesis by (metis not_None_eq)
qed

text \<open>A backup exists after it is made exactly when the live model has items and extensions, and not
  after it is deleted; making or deleting it changes no other model.\<close>

theorem backup_life:
  assumes "sorted_rows (db_models db LIVE_MODEL_ID)" and "m \<noteq> LIVE_MODEL_ID"
  shows "backup_exists m (create_backup like m db) = backup_exists LIVE_MODEL_ID db \<and>
    \<not> backup_exists m (delete_backup like m [] db) \<and>
    (k \<noteq> m \<longrightarrow> db_models (create_backup like m db) k = db_models db k \<and>
      db_models (delete_backup like m [] db) k = db_models db k \<and>
      db_extensions (create_backup like m db) k = db_extensions db k \<and>
      db_extensions (delete_backup like m [] db) k = db_extensions db k)"
  using create_backup_models [OF assms, of like] assms(2)
  by (auto simp: backup_exists_def create_backup_def duplicate_extensions_def duplicate_model_def
      delete_extension_rows_def delete_backup_rows_def delete_backup_def in_scope_def)

section \<open>The tree of a model\<close>

lemma tree_child:
  assumes "tree_rows st" and "k \<in> set st" and "mi_parent_vpath k = Some p" and "p \<noteq> []"
  shows "mi_vpath k = (if p = ''/'' then ''/'' else p @ ''/'') @ mi_item_id k" and "mi_item_id k \<noteq> []"
    and "slash \<notin> set (mi_item_id k)" and "\<exists>q \<in> set st. mi_vpath q = p" and "length p < length (mi_vpath k)"
proof -
  have k: "st_get st p \<noteq> None" "mi_item_id k \<noteq> []" "slash \<notin> set (mi_item_id k)"
    "mi_vpath k = construct_vpath (mi_item_id k) (Some p)"
    using assms(1-3) by (auto simp: tree_rows_def)
  then show v: "mi_vpath k = (if p = ''/'' then ''/'' else p @ ''/'') @ mi_item_id k"
    using assms(4) by (simp add: construct_vpath_def)
  show "mi_item_id k \<noteq> []" "slash \<notin> set (mi_item_id k)" using k by simp_all
  show "\<exists>q \<in> set st. mi_vpath q = p" using k(1) st_get_Some by blast
  show "length p < length (mi_vpath k)" using v k(2) by simp
qed

lemma tree_cases:
  assumes "tree_rows st" and "k \<in> set st" and "\<forall>i \<in> set st. mi_parent_vpath i \<noteq> Some []"
  shows "mi_vpath k = ''/'' \<and> mi_parent_vpath k = None \<or> (\<exists>p. p \<noteq> [] \<and> mi_parent_vpath k = Some p)"
  using assms by (fastforce simp: tree_rows_def)

definition parent_rel :: "store \<Rightarrow> (string \<times> string) set" where
  "parent_rel st = {(mi_vpath j, p) | j p. j \<in> set st \<and> mi_parent_vpath j = Some p}"

definition below :: "store \<Rightarrow> string \<Rightarrow> store" where
  "below st v = filter (\<lambda>j. (mi_vpath j, v) \<in> (parent_rel st)\<^sup>+) st"

lemma parent_rel_row:
  assumes "sorted_rows st" and "k \<in> set st"
  shows "(mi_vpath k, p) \<in> parent_rel st \<longleftrightarrow> mi_parent_vpath k = Some p"
  using assms by (auto simp: parent_rel_def sorted_rows_def distinct_map dest: inj_onD)

lemma trancl_parent:
  assumes "sorted_rows st" and "k \<in> set st"
  shows "(mi_vpath k, v) \<in> (parent_rel st)\<^sup>+ \<longleftrightarrow>
    (\<exists>p. mi_parent_vpath k = Some p \<and> (p = v \<or> (p, v) \<in> (parent_rel st)\<^sup>+))"
proof
  assume "(mi_vpath k, v) \<in> (parent_rel st)\<^sup>+"
  then obtain p where "(mi_vpath k, p) \<in> parent_rel st" "(p, v) \<in> (parent_rel st)\<^sup>*" by (auto dest: tranclD)
  then show "\<exists>p. mi_parent_vpath k = Some p \<and> (p = v \<or> (p, v) \<in> (parent_rel st)\<^sup>+)"
    using parent_rel_row [OF assms] by (auto dest: rtranclD)
next
  assume "\<exists>p. mi_parent_vpath k = Some p \<and> (p = v \<or> (p, v) \<in> (parent_rel st)\<^sup>+)"
  then show "(mi_vpath k, v) \<in> (parent_rel st)\<^sup>+"
    using parent_rel_row [OF assms] by (auto intro: trancl_into_trancl2)
qed

lemma prefix_of_child:
  assumes "slash \<notin> set d" and "prefix (v @ [slash]) (q @ slash # d)"
  shows "v = q \<or> prefix (v @ [slash]) q"
proof -
  from assms(2) consider "prefix (v @ [slash]) q" | us where "v @ [slash] = q @ us" "prefix us (slash # d)"
    by (auto simp: prefix_append)
  then show ?thesis
  proof cases
    case 2
    show ?thesis
    proof (cases us rule: rev_cases)
      case Nil
      then show ?thesis using 2 by (metis append.right_neutral prefix_order.refl)
    next
      case (snoc ws c)
      then have "c = slash" "v = q @ ws" using 2(1) by auto
      moreover have "ws = []"
      proof (rule ccontr)
        assume "ws \<noteq> []"
        then have "slash \<in> set d" using 2(2) snoc \<open>c = slash\<close> by (cases ws) (auto simp: prefix_def)
        with assms(1) show False by simp
      qed
      ultimately show ?thesis by simp
    qed
  qed simp
qed

text \<open>On a tree the prefix query of the base manager finds the items below an item.\<close>

lemma descends_below:
  assumes "tree_rows st" and "sorted_rows st" and "\<forall>i \<in> set st. mi_parent_vpath i \<noteq> Some []"
    and "v \<noteq> []" and "k \<in> set st"
  shows "(case mi_parent_vpath k of None \<Rightarrow> False
      | Some p \<Rightarrow> v = ''/'' \<or> p = v \<or> prefix (v @ ''/'') p) \<longleftrightarrow> (mi_vpath k, v) \<in> (parent_rel st)\<^sup>+"
  using assms(5)
proof (induction "length (mi_vpath k)" arbitrary: k rule: less_induct)
  case less
  show ?case
  proof (cases "mi_parent_vpath k")
    case None
    then show ?thesis using trancl_parent [OF assms(2) less.prems] by simp
  next
    case (Some p)
    then have p: "p \<noteq> []" using assms(3) less.prems by auto
    note child = tree_child [OF assms(1) less.prems Some p]
    obtain q where q: "q \<in> set st" "mi_vpath q = p" using child(4) by blast
    have IH: "(case mi_parent_vpath q of None \<Rightarrow> False
        | Some r \<Rightarrow> v = ''/'' \<or> r = v \<or> prefix (v @ ''/'') r) \<longleftrightarrow> (p, v) \<in> (parent_rel st)\<^sup>+"
      using less.hyps [OF _ q(1)] child(5) q(2) by simp
    have up: "(mi_vpath k, v) \<in> (parent_rel st)\<^sup>+ \<longleftrightarrow> p = v \<or> (p, v) \<in> (parent_rel st)\<^sup>+"
      using trancl_parent [OF assms(2) less.prems, of v] Some by simp
    have "p = v \<or> (case mi_parent_vpath q of None \<Rightarrow> False
        | Some r \<Rightarrow> v = ''/'' \<or> r = v \<or> prefix (v @ ''/'') r) \<longleftrightarrow> v = ''/'' \<or> p = v \<or> prefix (v @ ''/'') p"
      using tree_cases [OF assms(1) q(1) assms(3)]
    proof (elim disjE exE)
      assume root: "mi_vpath q = ''/'' \<and> mi_parent_vpath q = None"
      have "\<not> prefix (v @ ''/'') ''/''" using assms(4) by (cases v) auto
      then show ?thesis using root q(2) by auto
    next
      fix r assume r: "r \<noteq> [] \<and> mi_parent_vpath q = Some r"
      note qc = tree_child [OF assms(1) q(1) _ , of r]
      have sl: "''/'' = [slash]" by (simp add: slash_def)
      show ?thesis
      proof (cases "r = ''/''")
        case True
        have "\<not> prefix (v @ [slash]) (slash # mi_item_id q)"
          using assms(4) qc(3) r by (cases v) (auto simp: prefix_def)
        moreover have "p = slash # mi_item_id q" using qc(1) r True q(2) by (simp add: slash_def)
        moreover have "\<not> prefix (v @ [slash]) [slash]" using assms(4) by (cases v) auto
        ultimately show ?thesis using r unfolding True sl by auto
      next
        case False
        have pr: "p = r @ slash # mi_item_id q" using qc(1) r False q(2) by (simp add: slash_def)
        have "prefix (v @ [slash]) p \<longleftrightarrow> v = r \<or> prefix (v @ [slash]) r"
          using prefix_of_child [of "mi_item_id q" v r] qc(3) r
          by (auto simp: pr prefix_def)
        then show ?thesis using r by (auto simp: sl)
      qed
    qed
    then show ?thesis using IH up Some by simp
  qed
qed

lemma tree_slash:
  assumes "tree_rows st" and "\<forall>i \<in> set st. mi_parent_vpath i \<noteq> Some []" and "k \<in> set st"
  shows "prefix ''/'' (mi_vpath k)"
  using assms(3)
proof (induction "length (mi_vpath k)" arbitrary: k rule: less_induct)
  case less
  from tree_cases [OF assms(1) less.prems assms(2)] show ?case
  proof (elim disjE exE)
    fix p assume p: "p \<noteq> [] \<and> mi_parent_vpath k = Some p"
    note child = tree_child [OF assms(1) less.prems, of p]
    obtain q where q: "q \<in> set st" "mi_vpath q = p" using child(4) p by blast
    then have "prefix ''/'' p" using less.hyps [OF _ q(1)] child(5) p by simp
    then show ?thesis using child(1) p by (auto simp: prefix_def)
  qed simp
qed

text \<open>A text without wildcards is a plain prefix; without percent signs and backslashes it still matches
  what it is a prefix of.\<close>

lemma sql_like_all: "sql_like ''%'' s"
proof (induction s)
  case (Cons c s)
  then show ?case by (subst sql_like.simps(2)) simp
qed (subst sql_like.simps(2), simp)

lemma sql_like_char:
  assumes "c \<notin> {CHR ''%'', CHR 0x5C}"
  shows "sql_like (c # p) s \<longleftrightarrow> s \<noteq> [] \<and> (c = CHR ''_'' \<or> c = hd s) \<and> sql_like p (tl s)"
  using assms by (subst sql_like.simps(2)) simp

lemma column_startswith_prefix:
  assumes "set p \<inter> {CHR ''_'', CHR ''%'', CHR 0x5C} = {}"
  shows "column_startswith p s = prefix p s"
  using assms unfolding column_startswith_def
proof (induction p arbitrary: s)
  case (Cons c p)
  then have c: "c \<notin> {CHR ''%'', CHR 0x5C}" "c \<noteq> CHR ''_''" and p: "set p \<inter> {CHR ''_'', CHR ''%'', CHR 0x5C} = {}"
    by auto
  show ?case
  proof (cases s)
    case (Cons d t)
    then show ?thesis
      unfolding append_Cons sql_like_char [OF c(1)] using c(2) Cons.IH [OF p, of t] by auto
  qed (unfold append_Cons sql_like_char [OF c(1)], simp)
qed (simp add: sql_like_all)

lemma prefix_column_startswith:
  assumes "set p \<inter> {CHR ''%'', CHR 0x5C} = {}" and "prefix p s"
  shows "column_startswith p s"
  using assms unfolding column_startswith_def
proof (induction p arbitrary: s)
  case (Cons c p)
  then have c: "c \<notin> {CHR ''%'', CHR 0x5C}" and p: "set p \<inter> {CHR ''%'', CHR 0x5C} = {}" by auto
  from Cons.prems(2) obtain t where "s = c # t" "prefix p t" by (cases s) auto
  then show ?case unfolding append_Cons sql_like_char [OF c] using Cons.IH [OF p, of t] by simp
qed (simp add: sql_like_all)

lemma bm_query_descends_below:
  assumes "tree_rows st" and "sorted_rows st" and "\<forall>i \<in> set st. mi_parent_vpath i \<noteq> Some []" and "v \<noteq> []"
    and "\<And>s. like v s = prefix v s" and "\<And>s. like (v @ ''/'') s = prefix (v @ ''/'') s"
  shows "bm_query_descends like v st = below st v"
proof -
  have "(if v = ''/'' then case mi_parent_vpath k of None \<Rightarrow> False | Some p \<Rightarrow> like v p
      else case mi_parent_vpath k of None \<Rightarrow> False | Some p \<Rightarrow> p = v \<or> like (v @ ''/'') p) \<longleftrightarrow>
      (mi_vpath k, v) \<in> (parent_rel st)\<^sup>+" if k: "k \<in> set st" for k
  proof -
    have "prefix ''/'' p" if p: "mi_parent_vpath k = Some p" for p
    proof -
      have "p \<noteq> []" using assms(3) k p by auto
      from tree_child(4) [OF assms(1) k p this] show ?thesis using tree_slash [OF assms(1,3)] by blast
    qed
    then show ?thesis
      unfolding descends_below [OF assms(1-4) k, symmetric] assms(5,6) by (auto split: option.split)
  qed
  then show ?thesis unfolding bm_query_descends_def below_def by (auto intro: filter_cong)
qed

section \<open>What a data manager promises\<close>

text \<open>An assignment to a column of an item that is in the table.\<close>

datatype assignment =
    SetState item_state
  | SetSource "string option"
  | SetParent "string option"
  | SetType string
  | SetProperties "pval dict"

fun assign_column :: "assignment \<Rightarrow> model_item \<Rightarrow> model_item" where
  "assign_column (SetState s) i = i\<lparr>mi_state := s\<rparr>"
| "assign_column (SetSource s) i = i\<lparr>mi_source_vpath := s\<rparr>"
| "assign_column (SetParent p) i = i\<lparr>mi_parent_vpath := p\<rparr>"
| "assign_column (SetType t) i = i\<lparr>mi_item_type_id := t\<rparr>"
| "assign_column (SetProperties d) i = i\<lparr>mi_properties := d\<rparr>"

lemma bm_query_descends_mono:
  assumes "\<And>p s. p \<in> {v, v @ ''/''} \<Longrightarrow> like p s \<Longrightarrow> like' p s"
  shows "set (bm_query_descends like v st) \<subseteq> set (bm_query_descends like' v st)"
  using assms by (auto simp: bm_query_descends_def split: option.splits)

lemma vpath_assign_column [simp]: "mi_vpath (assign_column a i) = mi_vpath i"
  by (cases a) auto

text \<open>The calls of the model manager, and what they answer.\<close>

datatype table_query =
    QChildren string
  | QInherited string
  | QTypes "string list"
  | QStates "item_state list"
  | QAll

datatype table_call =
    Get string
  | Count string
  | Query table_query
  | Add model_item
  | Delete string
  | Assign string assignment

datatype table_answer = Item "model_item option" | Number nat | Items store | Done

fun bm_answer :: "table_query \<Rightarrow> store \<Rightarrow> store" where
  "bm_answer (QChildren v) st = bm_query_children v st"
| "bm_answer (QInherited v) st = bm_query_inherited v st"
| "bm_answer (QTypes ids) st = bm_query_by_item_types ids st"
| "bm_answer (QStates ss) st = bm_query_by_states ss st"
| "bm_answer QAll st = bm_query st"

text \<open>A column that is not \<open>None\<close> is not the empty text.\<close>

definition proper_item :: "model_item \<Rightarrow> bool" where
  "proper_item i \<longleftrightarrow> mi_parent_vpath i \<noteq> Some [] \<and> mi_source_vpath i \<noteq> Some [] \<and> mi_item_type_id i \<noteq> []"

fun proper_assignment :: "assignment \<Rightarrow> bool" where
  "proper_assignment (SetSource s) \<longleftrightarrow> s \<noteq> Some []"
| "proper_assignment (SetParent p) \<longleftrightarrow> p \<noteq> Some []"
| "proper_assignment (SetType t) \<longleftrightarrow> t \<noteq> []"
| "proper_assignment _ \<longleftrightarrow> True"

lemma proper_assign_column: "proper_item i \<Longrightarrow> proper_assignment a \<Longrightarrow> proper_item (assign_column a i)"
  by (cases a) (auto simp: proper_item_def)

fun proper_query :: "table_query \<Rightarrow> bool" where
  "proper_query (QChildren v) \<longleftrightarrow> v \<noteq> []"
| "proper_query (QInherited v) \<longleftrightarrow> v \<noteq> []"
| "proper_query (QTypes ids) \<longleftrightarrow> [] \<notin> set ids"
| "proper_query _ \<longleftrightarrow> True"

text \<open>A call is legal when it adds an item whose vpath is free, and deletes or assigns to an item
  that is there.\<close>

fun legal_call :: "table_call \<Rightarrow> store \<Rightarrow> bool" where
  "legal_call (Add i) st \<longleftrightarrow> st_get st (mi_vpath i) = None \<and> proper_item i"
| "legal_call (Delete v) st \<longleftrightarrow> st_get st v \<noteq> None"
| "legal_call (Assign v a) st \<longleftrightarrow> st_get st v \<noteq> None \<and> proper_assignment a"
| "legal_call (Count v) st \<longleftrightarrow> v \<noteq> []"
| "legal_call (Query q) st \<longleftrightarrow> proper_query q"
| "legal_call _ st \<longleftrightarrow> True"

fun bm_call :: "table_call \<Rightarrow> store \<Rightarrow> table_answer \<times> store" where
  "bm_call (Get v) st = (Item (bm_get v st), st)"
| "bm_call (Count v) st = (Number (bm_count_children v st), st)"
| "bm_call (Query q) st = (Items (bm_answer q st), st)"
| "bm_call (Add i) st = (Done, bm_add i st)"
| "bm_call (Delete v) st = (case bm_get v st of None \<Rightarrow> (Done, st) | Some i \<Rightarrow> (Done, bm_delete i st))"
| "bm_call (Assign v a) st =
     (case bm_get v st of None \<Rightarrow> (Done, st) | Some i \<Rightarrow> (Done, st_put (assign_column a i) st))"

fun bm_run :: "table_call list \<Rightarrow> store \<Rightarrow> table_answer list \<times> store" where
  "bm_run [] st = ([], st)"
| "bm_run (c # cs) st = (case bm_call c st of (a, st) \<Rightarrow> case bm_run cs st of (as, st) \<Rightarrow> (a # as, st))"

fun legal_run :: "table_call list \<Rightarrow> store \<Rightarrow> bool" where
  "legal_run [] st \<longleftrightarrow> True"
| "legal_run (c # cs) st \<longleftrightarrow> legal_call c st \<and> legal_run cs (snd (bm_call c st))"

locale data_manager =
  fixes rows :: "'s \<Rightarrow> store" and valid :: "'s \<Rightarrow> bool"
    and get_item :: "string \<Rightarrow> 's \<Rightarrow> (model_item option \<times> 's) res"
    and count_children :: "string \<Rightarrow> 's \<Rightarrow> (nat \<times> 's) res"
    and answer :: "table_query \<Rightarrow> 's \<Rightarrow> (store \<times> 's) res"
    and add_item :: "model_item \<Rightarrow> 's \<Rightarrow> 's res"
    and delete_item :: "model_item \<Rightarrow> 's \<Rightarrow> 's res"
    and assign_item :: "string \<Rightarrow> assignment \<Rightarrow> 's \<Rightarrow> 's res"
  assumes valid_sorted: "valid s \<Longrightarrow> sorted_rows (rows s)"
    and get_rows: "valid s \<Longrightarrow> \<exists>t. get_item v s = Inr (st_get (rows s) v, t) \<and> valid t \<and> rows t = rows s"
    and count_rows: "valid s \<Longrightarrow> v \<noteq> [] \<Longrightarrow>
      \<exists>t. count_children v s = Inr (bm_count_children v (rows s), t) \<and> valid t \<and> rows t = rows s"
    and answer_rows: "valid s \<Longrightarrow> proper_query q \<Longrightarrow>
      \<exists>t. answer q s = Inr (bm_answer q (rows s), t) \<and> valid t \<and> rows t = rows s"
    and add_rows: "valid s \<Longrightarrow> st_get (rows s) (mi_vpath i) = None \<Longrightarrow> proper_item i \<Longrightarrow>
      \<exists>t. add_item i s = Inr t \<and> valid t \<and> rows t = st_put i (rows s)"
    and delete_rows: "valid s \<Longrightarrow> st_get (rows s) (mi_vpath i) = Some i \<Longrightarrow>
      \<exists>t. delete_item i s = Inr t \<and> valid t \<and> rows t = st_delete (mi_vpath i) (rows s)"
    and assign_rows: "valid s \<Longrightarrow> st_get (rows s) v = Some i \<Longrightarrow> proper_assignment a \<Longrightarrow>
      \<exists>t. assign_item v a s = Inr t \<and> valid t \<and> rows t = st_put (assign_column a i) (rows s)"
begin

fun call :: "table_call \<Rightarrow> 's \<Rightarrow> (table_answer \<times> 's) res" where
  "call (Get v) s = rbind (get_item v s) (\<lambda>(i, s). Inr (Item i, s))"
| "call (Count v) s = rbind (count_children v s) (\<lambda>(n, s). Inr (Number n, s))"
| "call (Query q) s = rbind (answer q s) (\<lambda>(is, s). Inr (Items is, s))"
| "call (Add i) s = rbind (add_item i s) (\<lambda>s. Inr (Done, s))"
| "call (Delete v) s = rbind (get_item v s) (\<lambda>(i, s). case i of
     None \<Rightarrow> Inr (Done, s) | Some i \<Rightarrow> rbind (delete_item i s) (\<lambda>s. Inr (Done, s)))"
| "call (Assign v a) s = rbind (get_item v s) (\<lambda>(i, s). case i of
     None \<Rightarrow> Inr (Done, s) | Some i \<Rightarrow> rbind (assign_item v a s) (\<lambda>s. Inr (Done, s)))"

fun run :: "table_call list \<Rightarrow> 's \<Rightarrow> (table_answer list \<times> 's) res" where
  "run [] s = Inr ([], s)"
| "run (c # cs) s = rbind (call c s) (\<lambda>(a, s). rbind (run cs s) (\<lambda>(as, s). Inr (a # as, s)))"

lemma call_rows:
  assumes "valid s" and "legal_call c (rows s)"
  shows "\<exists>t. call c s = Inr (fst (bm_call c (rows s)), t) \<and> valid t \<and> rows t = snd (bm_call c (rows s))"
proof (cases c)
  case (Get v)
  then show ?thesis using get_rows [OF assms(1), of v] by (auto simp: bm_get_def)
next
  case (Count v)
  then show ?thesis using count_rows [OF assms(1), of v] assms(2) by auto
next
  case (Query q)
  then show ?thesis using answer_rows [OF assms(1), of q] assms(2) by auto
next
  case (Add i)
  then show ?thesis using add_rows [OF assms(1), of i] assms(2) by (auto simp: bm_add_def)
next
  case (Delete v)
  with assms(2) obtain i where i: "st_get (rows s) v = Some i" by auto
  obtain u where u: "get_item v s = Inr (st_get (rows s) v, u)" "valid u" "rows u = rows s"
    using get_rows [OF assms(1), of v] by blast
  have "mi_vpath i = v" using st_get_Some [OF i] by simp
  then obtain t where "delete_item i u = Inr t" "valid t" "rows t = st_delete v (rows s)"
    using delete_rows [OF u(2), of i] i u(3) by auto
  then show ?thesis using Delete i u \<open>mi_vpath i = v\<close> by (simp add: bm_get_def bm_delete_def)
next
  case (Assign v a)
  with assms(2) obtain i where i: "st_get (rows s) v = Some i" by auto
  obtain u where u: "get_item v s = Inr (st_get (rows s) v, u)" "valid u" "rows u = rows s"
    using get_rows [OF assms(1), of v] by blast
  then obtain t where "assign_item v a u = Inr t" "valid t" "rows t = st_put (assign_column a i) (rows s)"
    using assign_rows [OF u(2), of v i a] i assms(2) Assign by auto
  then show ?thesis using Assign i u by (simp add: bm_get_def)
qed

text \<open>Whatever the data manager remembers, its answers are those of the table.\<close>

lemma run_transparent:
  assumes "valid s" and "legal_run cs (rows s)"
  shows "\<exists>t. run cs s = Inr (fst (bm_run cs (rows s)), t) \<and> valid t \<and> rows t = snd (bm_run cs (rows s))"
  using assms
proof (induction cs arbitrary: s)
  case (Cons c cs)
  then obtain t where t: "call c s = Inr (fst (bm_call c (rows s)), t)" "valid t"
    "rows t = snd (bm_call c (rows s))" using call_rows [of s c] by auto
  then obtain u where "run cs t = Inr (fst (bm_run cs (rows t)), u)" "valid u"
    "rows u = snd (bm_run cs (rows t))" using Cons.IH [of t] Cons.prems(2) by auto
  with t show ?case by (simp add: case_prod_beta)
qed simp

end

text \<open>The base manager keeps nothing beside the table.\<close>

interpretation base_manager: data_manager "\<lambda>st. st" sorted_rows
  "\<lambda>v st. Inr (bm_get v st, st)" "\<lambda>v st. Inr (bm_count_children v st, st)" "\<lambda>q st. Inr (bm_answer q st, st)"
  "\<lambda>i st. Inr (bm_add i st)" "\<lambda>i st. Inr (bm_delete i st)"
  "\<lambda>v a st. Inr (case bm_get v st of None \<Rightarrow> st | Some i \<Rightarrow> st_put (assign_column a i) st)"
  by unfold_locales
    (auto simp: bm_get_def bm_add_def bm_delete_def intro: sorted_st_put sorted_st_delete)

section \<open>Examples\<close>

text \<open>The root, a collection of nodes, and in it a node and a blade that inherits from it.\<close>

definition ex_root :: model_item where
  "ex_root = new_model_item ModelItemC ''root'' [] None []"

definition ex_nodes :: model_item where
  "ex_nodes = new_model_item CollectionItemC ''node'' ''nodes'' (Some ''/'') []"

definition ex_tree :: store where
  "ex_tree = [ex_root, ex_nodes, ex_blade, ex_node]"

lemma ex_tree_rows: "tree_rows ex_tree"
  by (simp add: tree_rows_def ex_tree_def ex_root_def ex_nodes_def ex_blade_def ex_node_def
    new_model_item_def construct_vpath_def st_get_def slash_def)

lemma ex_tree_sorted: "sorted_rows ex_tree"
  by code_simp

lemma ex_tree_proper: "\<forall>i \<in> set ex_tree. proper_item i"
  by (simp add: proper_item_def ex_tree_def ex_root_def ex_nodes_def ex_blade_def ex_node_def
    new_model_item_def)

definition ex_database :: "string database" where
  "ex_database = \<lparr>db_models = (\<lambda>m. if m = LIVE_MODEL_ID then [ex_blade, ex_node] else []),
     db_extensions = (\<lambda>m. if m = LIVE_MODEL_ID then [''core''] else [])\<rparr>"

lemma ex_database_live: "sorted_rows (db_models ex_database LIVE_MODEL_ID)"
  by code_simp

theorem restore_brings_back_witness:
  "bm_get ''/nodes/n1'' (db_models (restore_backup prefix ''b'' []
     (create_backup prefix ''b'' ex_database)) LIVE_MODEL_ID) = Some ex_node"
proof -
  have b: "''b'' \<noteq> LIVE_MODEL_ID" by (simp add: LIVE_MODEL_ID_def)
  have "db_models (create_backup prefix ''b'' ex_database) LIVE_MODEL_ID = db_models ex_database LIVE_MODEL_ID"
    using create_backup_models [OF ex_database_live b] b by simp
  then have "sorted_rows (db_models (create_backup prefix ''b'' ex_database) LIVE_MODEL_ID)"
    using ex_database_live by simp
  from restore_brings_back [OF b ex_database_live this refl, of "''/nodes/n1''" "[]"]
  show ?thesis by (simp add: in_scope_def) code_simp
qed

theorem backup_life_witness:
  "backup_exists ''b'' (create_backup prefix ''b'' ex_database)"
proof -
  have "''b'' \<noteq> LIVE_MODEL_ID" by (simp add: LIVE_MODEL_ID_def)
  moreover have "backup_exists LIVE_MODEL_ID ex_database" by code_simp
  ultimately show ?thesis using backup_life [OF ex_database_live] by blast
qed

end
