(* ===== verification/Model_Data_Manager.thy ===== *)
theory Model_Data_Manager
  imports Model_Store
begin

text \<open>
  \<open>litp/data/model_data_manager.py\<close>: the data manager that remembers the items it has handed out
  and the answers to its queries, and forgets the answers when a column that a query reads is set.
  An item is one object: what is assigned to it is seen through every place that holds it.
\<close>

section \<open>What is remembered\<close>

datatype query_key =
    KDescends string
  | KCount string
  | KChildren string
  | KInherited string
  | KTypes "string list"
  | KStates "string list"
  | KAll

datatype cached = CItems store | CNumber nat

record data_cache =
  dc_items :: "(string \<times> model_item option) list"
  dc_queries :: "(query_key \<times> cached) list"

definition item_state_name :: "item_state \<Rightarrow> string" where
  "item_state_name s =
     (case s of Initial \<Rightarrow> ''Initial'' | Applied \<Rightarrow> ''Applied'' | Updated \<Rightarrow> ''Updated''
      | ForRemoval \<Rightarrow> ''ForRemoval'' | Removed \<Rightarrow> ''Removed'')"

type_synonym dm_state = "data_cache \<times> store"

definition new_data_cache :: data_cache where
  "new_data_cache = \<lparr>dc_items = [], dc_queries = []\<rparr>"

definition dm_cache_item :: "model_item \<Rightarrow> data_cache \<Rightarrow> data_cache" where
  "dm_cache_item i dc =
     (case map_of (dc_items dc) (mi_vpath i) of
        Some (Some j) \<Rightarrow> dc
      | _ \<Rightarrow> dc\<lparr>dc_items := AList.update (mi_vpath i) (Some i) (dc_items dc)\<rparr>)"

definition dm_cache_all_items :: "store \<Rightarrow> data_cache \<Rightarrow> data_cache" where
  "dm_cache_all_items ks dc = fold dm_cache_item ks dc"

definition dm_cache_nonexistent_item :: "string \<Rightarrow> data_cache \<Rightarrow> data_cache" where
  "dm_cache_nonexistent_item v dc = dc\<lparr>dc_items := AList.update v None (dc_items dc)\<rparr>"

text \<open>Only an item that was remembered is registered with the manager.\<close>

definition dm_uncache_item :: "model_item \<Rightarrow> data_cache \<Rightarrow> data_cache res" where
  "dm_uncache_item i dc =
     (case map_of (dc_items dc) (mi_vpath i) of
        None \<Rightarrow> Inr dc
      | Some None \<Rightarrow> Inl (KeyError ''model_data_manager_instances'')
      | Some (Some j) \<Rightarrow> Inr (dc\<lparr>dc_items := AList.delete (mi_vpath i) (dc_items dc)\<rparr>))"

definition dm_invalidate_cache :: "data_cache \<Rightarrow> data_cache" where
  "dm_invalidate_cache dc = dc\<lparr>dc_items := [], dc_queries := []\<rparr>"

definition dm_on_attribute_set :: "data_cache \<Rightarrow> data_cache" where
  "dm_on_attribute_set dc = dc\<lparr>dc_queries := []\<rparr>"

definition dm_cached :: "query_key \<Rightarrow> (store \<Rightarrow> cached) \<Rightarrow> dm_state \<Rightarrow> cached \<times> dm_state" where
  "dm_cached key f s =
     (case s of (dc, st) \<Rightarrow>
        (case map_of (dc_queries dc) key of
           Some r \<Rightarrow> (r, (dc, st))
         | None \<Rightarrow>
             (let r = f st;
                  dc = dc\<lparr>dc_queries := AList.update key r (dc_queries dc)\<rparr>
              in (r, (case r of CItems ks \<Rightarrow> dm_cache_all_items ks dc | CNumber n \<Rightarrow> dc, st)))))"

section \<open>The operations\<close>

definition dm_get :: "string \<Rightarrow> dm_state \<Rightarrow> model_item option \<times> dm_state" where
  "dm_get v s =
     (case s of (dc, st) \<Rightarrow>
        (case map_of (dc_items dc) v of
           Some r \<Rightarrow> (r, (dc, st))
         | None \<Rightarrow>
             (case bm_get v st of
                None \<Rightarrow> (None, (dm_cache_nonexistent_item v dc, st))
              | Some i \<Rightarrow> (Some i, (dm_cache_item i dc, st)))))"

definition dm_exists :: "string \<Rightarrow> dm_state \<Rightarrow> bool \<times> dm_state" where
  "dm_exists v s = (case dm_get v s of (r, t) \<Rightarrow> (r \<noteq> None, t))"

definition dm_add :: "model_item \<Rightarrow> dm_state \<Rightarrow> dm_state" where
  "dm_add i s = (case s of (dc, st) \<Rightarrow> (dm_cache_item i (dc\<lparr>dc_queries := []\<rparr>), bm_add i st))"

definition dm_delete :: "model_item \<Rightarrow> dm_state \<Rightarrow> dm_state res" where
  "dm_delete i s =
     (case s of (dc, st) \<Rightarrow>
        rbind (dm_uncache_item i (dc\<lparr>dc_queries := []\<rparr>)) (\<lambda>dc. Inr (dc, bm_delete i st)))"

definition dm_query_descends :: "like \<Rightarrow> string \<Rightarrow> dm_state \<Rightarrow> cached \<times> dm_state" where
  "dm_query_descends like v = dm_cached (KDescends v) (\<lambda>st. CItems (bm_query_descends like v st))"

definition dm_count_children :: "string \<Rightarrow> dm_state \<Rightarrow> cached \<times> dm_state" where
  "dm_count_children v = dm_cached (KCount v) (\<lambda>st. CNumber (bm_count_children v st))"

definition dm_query_children :: "string \<Rightarrow> dm_state \<Rightarrow> cached \<times> dm_state" where
  "dm_query_children v = dm_cached (KChildren v) (\<lambda>st. CItems (bm_query_children v st))"

definition dm_query_inherited :: "string \<Rightarrow> dm_state \<Rightarrow> cached \<times> dm_state" where
  "dm_query_inherited v = dm_cached (KInherited v) (\<lambda>st. CItems (bm_query_inherited v st))"

definition dm_query_by_item_types :: "string list \<Rightarrow> dm_state \<Rightarrow> cached \<times> dm_state" where
  "dm_query_by_item_types ids = dm_cached (KTypes (sort ids)) (\<lambda>st. CItems (bm_query_by_item_types ids st))"

definition dm_query_by_states :: "item_state list \<Rightarrow> dm_state \<Rightarrow> cached \<times> dm_state" where
  "dm_query_by_states ss =
     dm_cached (KStates (sort (map item_state_name ss))) (\<lambda>st. CItems (bm_query_by_states ss st))"

definition dm_query :: "dm_state \<Rightarrow> cached \<times> dm_state" where
  "dm_query = dm_cached KAll (\<lambda>st. CItems (bm_query st))"

definition dm_create_backup :: "like \<Rightarrow> string \<Rightarrow> data_cache \<times> 'e database \<Rightarrow> data_cache \<times> 'e database" where
  "dm_create_backup like m s = (case s of (dc, db) \<Rightarrow> (dm_invalidate_cache dc, create_backup like m db))"

definition dm_delete_backup ::
  "like \<Rightarrow> string \<Rightarrow> string list \<Rightarrow> data_cache \<times> 'e database \<Rightarrow> data_cache \<times> 'e database" where
  "dm_delete_backup like m exclude s =
     (case s of (dc, db) \<Rightarrow> (dm_invalidate_cache dc, delete_backup like m exclude db))"

definition dm_restore_backup ::
  "like \<Rightarrow> string \<Rightarrow> string list \<Rightarrow> data_cache \<times> 'e database \<Rightarrow> data_cache \<times> 'e database" where
  "dm_restore_backup like m exclude s =
     (case s of (dc, db) \<Rightarrow> (dm_invalidate_cache dc, restore_backup like m exclude db))"

text \<open>Assigning to an item the manager has handed out: the four columns of the queries report the
  assignment, and the new value is seen wherever the item is held.\<close>

fun reported :: "assignment \<Rightarrow> bool" where
  "reported (SetProperties d) = False"
| "reported _ = True"

definition see_item :: "model_item \<Rightarrow> model_item \<Rightarrow> model_item" where
  "see_item i j = (if mi_vpath j = mi_vpath i then i else j)"

fun see_cached :: "model_item \<Rightarrow> cached \<Rightarrow> cached" where
  "see_cached i (CItems ks) = CItems (map (see_item i) ks)"
| "see_cached i (CNumber n) = CNumber n"

definition dm_see :: "model_item \<Rightarrow> data_cache \<Rightarrow> data_cache" where
  "dm_see i dc = dc\<lparr>dc_items := map (\<lambda>(v, j). (v, map_option (see_item i) j)) (dc_items dc),
     dc_queries := map (\<lambda>(k, r). (k, see_cached i r)) (dc_queries dc)\<rparr>"

definition dm_assign :: "string \<Rightarrow> assignment \<Rightarrow> dm_state \<Rightarrow> dm_state" where
  "dm_assign v a s =
     (case dm_get v s of
        (None, t) \<Rightarrow> t
      | (Some i, (dc, st)) \<Rightarrow>
          (dm_see (assign_column a i) (if reported a then dm_on_attribute_set dc else dc),
           st_put (assign_column a i) st))"

fun dm_answer :: "table_query \<Rightarrow> dm_state \<Rightarrow> cached \<times> dm_state" where
  "dm_answer (QChildren v) s = dm_query_children v s"
| "dm_answer (QInherited v) s = dm_query_inherited v s"
| "dm_answer (QTypes ids) s = dm_query_by_item_types ids s"
| "dm_answer (QStates ss) s = dm_query_by_states ss s"
| "dm_answer QAll s = dm_query s"

fun cached_items :: "cached \<Rightarrow> store" where
  "cached_items (CItems ks) = ks"
| "cached_items (CNumber n) = []"

fun cached_number :: "cached \<Rightarrow> nat" where
  "cached_number (CItems ks) = 0"
| "cached_number (CNumber n) = n"

section \<open>What is remembered is true\<close>

fun key_answer :: "like \<Rightarrow> query_key \<Rightarrow> store \<Rightarrow> cached" where
  "key_answer like (KDescends v) st = CItems (bm_query_descends like v st)"
| "key_answer like (KCount v) st = CNumber (bm_count_children v st)"
| "key_answer like (KChildren v) st = CItems (bm_query_children v st)"
| "key_answer like (KInherited v) st = CItems (bm_query_inherited v st)"
| "key_answer like (KTypes ids) st = CItems (bm_query_by_item_types ids st)"
| "key_answer like (KStates ns) st = CItems (filter (\<lambda>i. item_state_name (mi_state i) \<in> set ns) st)"
| "key_answer like KAll st = CItems (bm_query st)"

definition dm_valid :: "like \<Rightarrow> dm_state \<Rightarrow> bool" where
  "dm_valid like s \<longleftrightarrow>
     (case s of (dc, st) \<Rightarrow> sorted_rows st \<and>
        (\<forall>v r. map_of (dc_items dc) v = Some r \<longrightarrow> r = st_get st v) \<and>
        (\<forall>k r. map_of (dc_queries dc) k = Some r \<longrightarrow> r = key_answer like k st))"

lemma item_state_name_inj: "item_state_name s = item_state_name t \<longleftrightarrow> s = t"
  by (cases s; cases t) (simp_all add: item_state_name_def)

lemma key_answer_rows: "key_answer like k st = CItems ks \<Longrightarrow> set ks \<subseteq> set st"
  by (cases k) (auto simp: bm_query_descends_def bm_query_children_def bm_query_inherited_def
    bm_query_by_item_types_def bm_query_def split: if_splits)

lemma dm_cache_item_queries [frame_simps, simp]: "dc_queries (dm_cache_item i dc) = dc_queries dc"
  by (simp add: dm_cache_item_def split: option.split)

lemma dm_cache_all_queries [frame_simps, simp]: "dc_queries (dm_cache_all_items ks dc) = dc_queries dc"
  by (induction ks arbitrary: dc) (simp_all add: dm_cache_all_items_def)

lemma dm_valid_sorted: "dm_valid like (dc, st) \<Longrightarrow> sorted_rows st"
  by (simp add: dm_valid_def)

lemma dm_cache_item_valid:
  assumes "dm_valid like (dc, st)" and "st_get st (mi_vpath i) = Some i"
  shows "dm_valid like (dm_cache_item i dc, st)"
  using assms by (auto simp: dm_valid_def dm_cache_item_def split: option.split)

lemma dm_cache_all_valid:
  assumes "dm_valid like (dc, st)" and "set ks \<subseteq> set st"
  shows "dm_valid like (dm_cache_all_items ks dc, st)"
  using assms
proof (induction ks arbitrary: dc)
  case (Cons k ks)
  have "k \<in> set st" using Cons.prems(2) by simp
  then have "st_get st (mi_vpath k) = Some k" using dm_valid_sorted [OF Cons.prems(1)] by (simp add: st_get_iff)
  then have "dm_valid like (dm_cache_item k dc, st)" by (rule dm_cache_item_valid [OF Cons.prems(1)])
  then show ?case using Cons by (simp add: dm_cache_all_items_def)
qed (simp add: dm_cache_all_items_def)

lemma dm_cached_valid:
  assumes "dm_valid like (dc, st)" and "f st = key_answer like k st"
  shows "\<exists>dc'. dm_cached k f (dc, st) = (f st, (dc', st)) \<and> dm_valid like (dc', st)"
proof (cases "map_of (dc_queries dc) k")
  case None
  let ?dc = "dc\<lparr>dc_queries := AList.update k (f st) (dc_queries dc)\<rparr>"
  have valid: "dm_valid like (?dc, st)" using assms by (auto simp: dm_valid_def)
  have "dm_valid like (case f st of CItems ks \<Rightarrow> dm_cache_all_items ks ?dc | CNumber n \<Rightarrow> ?dc, st)"
  proof (cases "f st")
    case (CItems ks)
    then have "set ks \<subseteq> set st" using assms(2) key_answer_rows by simp
    with valid have "dm_valid like (dm_cache_all_items ks ?dc, st)"
      by (rule dm_cache_all_valid)
    with CItems show ?thesis by simp
  qed (use valid in simp)
  then show ?thesis using None by (simp add: dm_cached_def Let_def)
next
  case (Some r)
  then have "r = f st" using assms by (auto simp: dm_valid_def)
  then show ?thesis using Some assms(1) by (simp add: dm_cached_def)
qed

lemma dm_get_valid:
  assumes "dm_valid like (dc, st)"
  shows "\<exists>dc'. dm_get v (dc, st) = (st_get st v, (dc', st)) \<and> dm_valid like (dc', st)"
proof (cases "map_of (dc_items dc) v")
  case None
  show ?thesis
  proof (cases "st_get st v")
    case None
    with \<open>map_of _ v = None\<close> show ?thesis using assms
      by (auto simp: dm_get_def bm_get_def dm_cache_nonexistent_item_def dm_valid_def)
  next
    case (Some i)
    then have "mi_vpath i = v" using st_get_Some by blast
    with \<open>map_of _ v = None\<close> Some show ?thesis using assms dm_cache_item_valid [OF assms, of i]
      by (simp add: dm_get_def bm_get_def)
  qed
next
  case (Some r)
  then show ?thesis using assms by (auto simp: dm_get_def dm_valid_def)
qed

lemma dm_answer_valid:
  assumes "dm_valid like (dc, st)"
  shows "\<exists>dc'. dm_answer q (dc, st) = (CItems (bm_answer q st), (dc', st)) \<and> dm_valid like (dc', st)"
proof (cases q)
  case (QChildren v)
  then show ?thesis using dm_cached_valid [OF assms, of _ "KChildren v"] by (simp add: dm_query_children_def)
next
  case (QInherited v)
  then show ?thesis using dm_cached_valid [OF assms, of _ "KInherited v"] by (simp add: dm_query_inherited_def)
next
  case (QTypes ids)
  then show ?thesis using dm_cached_valid [OF assms, of _ "KTypes (sort ids)"]
    by (simp add: dm_query_by_item_types_def bm_query_by_item_types_def)
next
  case (QStates ss)
  have "bm_query_by_states ss st =
      filter (\<lambda>i. item_state_name (mi_state i) \<in> set (sort (map item_state_name ss))) st"
    by (auto simp: bm_query_by_states_def image_iff item_state_name_inj intro: filter_cong)
  then show ?thesis
    using QStates dm_cached_valid [OF assms, where f = "\<lambda>st. CItems (bm_query_by_states ss st)"
      and k = "KStates (sort (map item_state_name ss))"] by (simp add: dm_query_by_states_def)
next
  case QAll
  then show ?thesis using dm_cached_valid [OF assms, of _ KAll] by (simp add: dm_query_def)
qed

lemma map_of_map_snd: "map_of (map (\<lambda>(k, r). (k, f r)) d) k = map_option f (map_of d k)"
  by (induction d) auto

lemma map_see_filter:
  assumes "sorted_rows st" and "st_get st (mi_vpath i) = Some j" and "P i = P j"
  shows "map (see_item i) (filter P st) = filter P (st_put i st)"
  using assms
proof (induction st)
  case (Cons k st)
  have st: "sorted_rows st" using Cons.prems(1) by (simp add: sorted_rows_def)
  show ?case
  proof (cases "mi_vpath k = mi_vpath i")
    case True
    then have "k = j" using Cons.prems(2) by (simp add: st_get_def)
    have "mi_vpath i \<notin> mi_vpath ` set st" using Cons.prems(1) True by (auto simp: sorted_rows_def)
    then have "see_item i l = l" if "l \<in> set st" for l using that by (auto simp: see_item_def image_iff)
    then have "map (see_item i) (filter P st) = filter P st" by (intro map_idI) auto
    moreover have "see_item i j = i" using True \<open>k = j\<close> by (simp add: see_item_def)
    ultimately show ?thesis using True \<open>k = j\<close> Cons.prems(3) by simp
  next
    case False
    then have "st_get st (mi_vpath i) = Some j" using Cons.prems(2) by (simp add: st_get_def)
    moreover have "\<not> mi_vpath i < mi_vpath k"
    proof
      assume "mi_vpath i < mi_vpath k"
      moreover have "j \<in> set st" "mi_vpath j = mi_vpath i"
        using \<open>st_get st (mi_vpath i) = Some j\<close> st_get_Some by blast+
      ultimately show False using Cons.prems(1) by (auto simp: sorted_rows_def)
    qed
    ultimately show ?thesis using Cons.IH [OF st] Cons.prems(3) False by (simp add: see_item_def)
  qed
qed (simp add: st_get_def)

text \<open>The answers to the queries do not see a change of properties otherwise than in the items.\<close>

lemma key_answer_see:
  assumes "sorted_rows st" and "st_get st (mi_vpath i) = Some j"
    and "mi_parent_vpath i = mi_parent_vpath j" "mi_source_vpath i = mi_source_vpath j"
    and "mi_item_type_id i = mi_item_type_id j" "mi_state i = mi_state j"
  shows "key_answer like k (st_put i st) = see_cached i (key_answer like k st)"
proof -
  have put: "map (see_item i) (filter P st) = filter P (st_put i st)" if "P i = P j" for P
    using assms(1,2) that by (rule map_see_filter)
  have len: "length (filter P st) = length (filter P (st_put i st))" if "P i = P j" for P
    using put [of P, OF that, symmetric] by simp
  have all: "map (see_item i) st = st_put i st" using put [of "\<lambda>_. True"] by simp
  show ?thesis
    using assms(3-6)
    by (cases k) (simp_all add: bm_query_descends_def bm_query_children_def bm_count_children_def
      bm_query_inherited_def bm_query_by_item_types_def bm_query_def put len all)
qed

lemma dm_assign_valid:
  assumes "dm_valid like (dc, st)" and "st_get st v = Some i"
  shows "\<exists>dc'. dm_assign v a (dc, st) = (dc', st_put (assign_column a i) st) \<and>
    dm_valid like (dc', st_put (assign_column a i) st)"
proof -
  obtain dc1 where get: "dm_get v (dc, st) = (Some i, (dc1, st))" and valid: "dm_valid like (dc1, st)"
    using dm_get_valid [OF assms(1), of v] assms(2) by auto
  let ?i = "assign_column a i" and ?dc = "if reported a then dm_on_attribute_set dc1 else dc1"
  have v: "mi_vpath i = v" and sorted: "sorted_rows st"
    using assms st_get_Some by (auto simp: dm_valid_def)
  have items: "map_option (see_item ?i) r = st_get (st_put ?i st) w"
    if "map_of (dc_items ?dc) w = Some r" for w r
  proof -
    have "r = st_get st w" using that valid by (auto simp: dm_valid_def dm_on_attribute_set_def split: if_splits)
    then show ?thesis using v assms(2) st_get_Some [of st w]
      by (cases "st_get st w") (auto simp: st_get_put [OF sorted] see_item_def)
  qed
  have queries: "see_cached ?i r = key_answer like k (st_put ?i st)"
    if "map_of (dc_queries ?dc) k = Some r" for k r
  proof -
    have a: "\<not> reported a" and r: "r = key_answer like k st"
      using that valid by (auto simp: dm_valid_def dm_on_attribute_set_def split: if_splits)
    from a obtain d where "a = SetProperties d" by (cases a) auto
    then show ?thesis unfolding r using assms(2) v
      by (intro key_answer_see [OF sorted, where j = i, symmetric]) simp_all
  qed
  have "dm_assign v a (dc, st) = (dm_see ?i ?dc, st_put ?i st)" by (simp add: dm_assign_def get)
  moreover have "dm_valid like (dm_see ?i ?dc, st_put ?i st)"
    unfolding dm_valid_def dm_see_def using items queries sorted
    by (auto simp: map_of_map_snd sorted_st_put simp del: reported.simps)
  ultimately show ?thesis by blast
qed

interpretation cached_manager: data_manager snd "dm_valid like"
  "\<lambda>v s. Inr (dm_get v s)" "\<lambda>v s. Inr (apfst cached_number (dm_count_children v s))"
  "\<lambda>q s. Inr (apfst cached_items (dm_answer q s))" "\<lambda>i s. Inr (dm_add i s)" dm_delete
  "\<lambda>v a s. Inr (dm_assign v a s)" for like
proof
  fix s :: dm_state and v i q a
  obtain dc st where s: "s = (dc, st)" by (cases s)
  assume valid: "dm_valid like s"
  then have sorted: "sorted_rows st" by (simp add: s dm_valid_def)
  show "sorted_rows (snd s)" using sorted by (simp add: s)
  show "\<exists>t. Inr (dm_get v s) = (Inr (st_get (snd s) v, t) :: _ res) \<and> dm_valid like t \<and> snd t = snd s"
    using dm_get_valid [of like dc st v] valid by (auto simp: s)
  show "\<exists>t. Inr (apfst cached_number (dm_count_children v s)) = (Inr (bm_count_children v (snd s), t) :: _ res) \<and>
      dm_valid like t \<and> snd t = snd s"
    using dm_cached_valid [of like dc st "\<lambda>st. CNumber (bm_count_children v st)" "KCount v"] valid
    by (auto simp: s dm_count_children_def)
  show "\<exists>t. Inr (apfst cached_items (dm_answer q s)) = (Inr (bm_answer q (snd s), t) :: _ res) \<and>
      dm_valid like t \<and> snd t = snd s"
    using dm_answer_valid [of like dc st q] valid by (auto simp: s)
  show "\<exists>t. Inr (dm_add i s) = (Inr t :: _ res) \<and> dm_valid like t \<and> snd t = st_put i (snd s)"
    if "st_get (snd s) (mi_vpath i) = None"
  proof -
    have "map_of (dc_items dc) (mi_vpath i) \<noteq> Some (Some j)" for j
      using valid that by (auto simp: s dm_valid_def)
    then have "dm_valid like (dm_add i s)" using valid sorted
      by (auto simp: s dm_add_def dm_valid_def dm_cache_item_def bm_add_def st_get_put sorted_st_put
          split: option.split)
    then show ?thesis by (simp add: s dm_add_def bm_add_def)
  qed
  show "\<exists>t. dm_delete i s = Inr t \<and> dm_valid like t \<and> snd t = st_delete (mi_vpath i) (snd s)"
    if "st_get (snd s) (mi_vpath i) = Some i"
    using valid that sorted
    by (auto simp: s dm_delete_def dm_uncache_item_def dm_valid_def bm_delete_def st_get_delete
        sorted_st_delete split: option.splits)
  show "\<exists>t. Inr (dm_assign v a s) = (Inr t :: _ res) \<and> dm_valid like t \<and>
      snd t = st_put (assign_column a i) (snd s)" if "st_get (snd s) v = Some i"
    using dm_assign_valid [of like dc st v i a] valid that by (auto simp: s)
qed

text \<open>A sequence of calls of the model manager on the caching manager.\<close>

definition dm_run :: "table_call list \<Rightarrow> dm_state \<Rightarrow> (table_answer list \<times> dm_state) res" where
  "dm_run = data_manager.run
     (\<lambda>v s. Inr (dm_get v s)) (\<lambda>v s. Inr (apfst cached_number (dm_count_children v s)))
     (\<lambda>q s. Inr (apfst cached_items (dm_answer q s))) (\<lambda>i s. Inr (dm_add i s)) dm_delete
     (\<lambda>v a s. Inr (dm_assign v a s))"


text \<open>Replacing an item that the manager has handed out leaves the old object in its cache: lookups
  go on returning it although the table holds the new one.\<close>

theorem replaced_item_stale:
  assumes "sorted_rows st" and "st_get st (mi_vpath j) = Some i"
  shows "fst (dm_get (mi_vpath j) (dm_add j (snd (dm_get (mi_vpath j) (new_data_cache, st))))) = Some i \<and>
    bm_get (mi_vpath j) (snd (dm_add j (snd (dm_get (mi_vpath j) (new_data_cache, st))))) = Some j"
  using assms st_get_Some [OF assms(2)]
  by (simp add: dm_get_def dm_add_def dm_cache_item_def new_data_cache_def bm_get_def bm_add_def st_get_put)

section \<open>Examples\<close>

definition ex_calls :: "table_call list" where
  "ex_calls = [Get ''/nodes/n1'', Query (QStates [Applied]), Assign ''/nodes/n1'' (SetState Updated),
     Query (QStates [Applied]), Add (new_model_item ModelItemC ''node'' ''n2'' (Some ''/nodes'') []),
     Count ''/nodes'', Delete ''/nodes/b1'', Count ''/nodes'']"


theorem replaced_item_stale_witness:
  "fst (dm_get ''/nodes/n1'' (dm_add (ex_node\<lparr>mi_state := Initial\<rparr>)
     (snd (dm_get ''/nodes/n1'' (new_data_cache, ex_store))))) = Some ex_node"
proof -
  have "sorted_rows ex_store" by code_simp
  moreover have "mi_vpath (ex_node\<lparr>mi_state := Initial\<rparr>) = ''/nodes/n1''" by code_simp
  moreover have "st_get ex_store ''/nodes/n1'' = Some ex_node" by code_simp
  ultimately show ?thesis
    using replaced_item_stale [of ex_store "ex_node\<lparr>mi_state := Initial\<rparr>" ex_node] by simp
qed

end
