(* ===== verification/Model_Cache.thy ===== *)
theory Model_Cache
  imports Model_Data_Manager
begin

text \<open>
  \<open>litp/data/model_cache.py\<close>: the whole model in memory, with an index by parent, by source, by
  item type and by state. An index maps a key to the set of vpaths filed under it and remembers the
  sorted list of that set until the set changes.
\<close>

section \<open>Index values\<close>

record index_values =
  iv_set :: "string list"
  iv_sorted :: "string list option"

definition new_index_values :: index_values where
  "new_index_values = \<lparr>iv_set = [], iv_sorted = None\<rparr>"

definition iv_add :: "string \<Rightarrow> index_values \<Rightarrow> index_values" where
  "iv_add v iv = \<lparr>iv_set = List.insert v (iv_set iv), iv_sorted = None\<rparr>"

definition iv_remove :: "string \<Rightarrow> index_values \<Rightarrow> index_values res" where
  "iv_remove v iv =
     (if v \<in> set (iv_set iv) then Inr \<lparr>iv_set = remove1 v (iv_set iv), iv_sorted = None\<rparr>
      else Inl (KeyError v))"

definition iv_values :: "index_values \<Rightarrow> string list \<times> index_values" where
  "iv_values iv =
     (case iv_sorted iv of
        Some vs \<Rightarrow> (vs, iv)
      | None \<Rightarrow> (sort (iv_set iv), iv\<lparr>iv_sorted := Some (sort (iv_set iv))\<rparr>))"

section \<open>Indexes\<close>

type_synonym index = "index_values dict"

definition ix_add :: "string \<Rightarrow> string \<Rightarrow> index \<Rightarrow> index" where
  "ix_add k v ix =
     AList.update k (iv_add v (case map_of ix k of None \<Rightarrow> new_index_values | Some iv \<Rightarrow> iv)) ix"

definition ix_remove :: "string \<Rightarrow> string \<Rightarrow> index \<Rightarrow> index res" where
  "ix_remove k v ix =
     (case map_of ix k of
        None \<Rightarrow> Inl (KeyError k)
      | Some iv \<Rightarrow> rbind (iv_remove v iv) (\<lambda>iv.
          Inr (if iv_set iv = [] then AList.delete k ix else AList.update k iv ix)))"

definition ix_update :: "string option \<Rightarrow> string option \<Rightarrow> string \<Rightarrow> index \<Rightarrow> index res" where
  "ix_update old new v ix =
     rbind (if given old then ix_remove (the old) v ix else Inr ix) (\<lambda>ix.
       Inr (if given new then ix_add (the new) v ix else ix))"

type_synonym item_key = "model_item \<Rightarrow> string option"

definition ix_add_item :: "item_key \<Rightarrow> model_item \<Rightarrow> index \<Rightarrow> index" where
  "ix_add_item f i ix = (if given (f i) then ix_add (the (f i)) (mi_vpath i) ix else ix)"

definition ix_remove_item :: "item_key \<Rightarrow> model_item \<Rightarrow> index \<Rightarrow> index res" where
  "ix_remove_item f i ix = (if given (f i) then ix_remove (the (f i)) (mi_vpath i) ix else Inr ix)"

definition ix_itervalues :: "string \<Rightarrow> index \<Rightarrow> string list \<times> index" where
  "ix_itervalues k ix =
     (case map_of ix k of
        None \<Rightarrow> ([], ix)
      | Some iv \<Rightarrow> (case iv_values iv of (vs, iv) \<Rightarrow> (vs, AList.update k iv ix)))"

definition ix_count :: "string \<Rightarrow> index \<Rightarrow> nat" where
  "ix_count k ix = (case map_of ix k of None \<Rightarrow> 0 | Some iv \<Rightarrow> length (iv_set iv))"

text \<open>What an index says of one key; an index is right for a table when it files the vpath of every
  item under the item's key, and remembers only right lists.\<close>

definition filed :: "string \<Rightarrow> index \<Rightarrow> string set" where
  "filed k ix = (case map_of ix k of None \<Rightarrow> {} | Some iv \<Rightarrow> set (iv_set iv))"

definition iv_ok :: "index_values \<Rightarrow> bool" where
  "iv_ok iv \<longleftrightarrow> iv_set iv \<noteq> [] \<and> distinct (iv_set iv) \<and> iv_sorted iv \<in> {None, Some (sort (iv_set iv))}"

definition ix_ok :: "index \<Rightarrow> bool" where
  "ix_ok ix \<longleftrightarrow> (\<forall>k iv. map_of ix k = Some iv \<longrightarrow> k \<noteq> [] \<and> iv_ok iv)"

definition keyed :: "item_key \<Rightarrow> string \<Rightarrow> store \<Rightarrow> string set" where
  "keyed f k st = mi_vpath ` {i \<in> set st. f i = Some k}"

definition ix_inv :: "item_key \<Rightarrow> store \<Rightarrow> index \<Rightarrow> bool" where
  "ix_inv f st ix \<longleftrightarrow> ix_ok ix \<and>
     (\<forall>k. k \<noteq> [] \<longrightarrow> filed k ix = keyed f k st)"

lemma iv_values_ok:
  "iv_ok iv \<Longrightarrow> fst (iv_values iv) = sort (iv_set iv) \<and> iv_set (snd (iv_values iv)) = iv_set iv \<and>
    iv_ok (snd (iv_values iv))"
  by (auto simp: iv_ok_def iv_values_def split: option.split)

lemma ix_okD: "ix_ok ix \<Longrightarrow> map_of ix k = Some iv \<Longrightarrow> k \<noteq> [] \<and> iv_ok iv"
  by (simp add: ix_ok_def)

lemma ix_add_filed [simp]: "filed j (ix_add k v ix) = (if j = k then insert v (filed k ix) else filed j ix)"
  by (auto simp: filed_def ix_add_def iv_add_def new_index_values_def split: option.splits)

lemma ix_add_ok: "ix_ok ix \<Longrightarrow> k \<noteq> [] \<Longrightarrow> ix_ok (ix_add k v ix)"
  by (auto simp: ix_ok_def iv_ok_def ix_add_def iv_add_def new_index_values_def List.insert_def
      split: option.splits if_splits)

lemma ix_remove_filed:
  assumes "ix_ok ix" and "v \<in> filed k ix"
  shows "\<exists>ix'. ix_remove k v ix = Inr ix' \<and> ix_ok ix' \<and>
    (\<forall>j. filed j ix' = (if j = k then filed k ix - {v} else filed j ix))"
proof -
  obtain iv where iv: "map_of ix k = Some iv" and v: "v \<in> set (iv_set iv)"
    using assms(2) by (auto simp: filed_def split: option.splits)
  have ok: "k \<noteq> []" "distinct (iv_set iv)" using ix_okD [OF assms(1) iv] by (simp_all add: iv_ok_def)
  let ?iv = "\<lparr>iv_set = remove1 v (iv_set iv), iv_sorted = None\<rparr>"
  have set: "set (remove1 v (iv_set iv)) = set (iv_set iv) - {v}" using ok(2) by simp
  have "ix_remove k v ix = Inr (if iv_set ?iv = [] then AList.delete k ix else AList.update k ?iv ix)"
    using iv v by (simp add: ix_remove_def iv_remove_def)
  moreover have "ix_ok (if iv_set ?iv = [] then AList.delete k ix else AList.update k ?iv ix)"
    using assms(1) ok by (auto simp: ix_ok_def iv_ok_def split: if_splits)
  moreover have "filed j (if iv_set ?iv = [] then AList.delete k ix else AList.update k ?iv ix) =
      (if j = k then filed k ix - {v} else filed j ix)" for j
  proof (cases "remove1 v (iv_set iv) = []")
    case True
    then have "set (iv_set iv) - {v} = {}" using set by simp
    then show ?thesis using True iv by (simp add: filed_def)
  next
    case False
    then show ?thesis using set iv by (simp add: filed_def)
  qed
  ultimately show ?thesis by blast
qed

lemma sort_filed:
  assumes "ix_inv f st ix" and "sorted_rows st" and "k \<noteq> []"
  shows "fst (ix_itervalues k ix) = map mi_vpath (filter (\<lambda>i. f i = Some k) st)"
proof -
  let ?r = "map mi_vpath (filter (\<lambda>i. f i = Some k) st)"
  have r: "sorted ?r" "distinct ?r"
    using sorted_rows_filter [OF assms(2)] by (simp_all add: sorted_rows_def)
  show ?thesis
  proof (cases "map_of ix k")
    case None
    then have "filed k ix = {}" by (simp add: filed_def)
    then have "filter (\<lambda>i. f i = Some k) st = []"
      using assms(1,3) by (auto simp: ix_inv_def keyed_def filter_empty_conv)
    then show ?thesis using None by (simp add: ix_itervalues_def)
  next
    case (Some iv)
    have ok: "iv_ok iv" using assms(1) Some by (auto simp: ix_inv_def dest: ix_okD)
    have "set (iv_set iv) = filed k ix" using Some by (simp add: filed_def)
    also have "\<dots> = set ?r" using assms(1,3) by (simp add: ix_inv_def keyed_def)
    finally have "sort (iv_set iv) = ?r"
      using ok r by (intro sorted_distinct_set_unique) (simp_all add: iv_ok_def)
    then show ?thesis using Some iv_values_ok [OF ok] by (simp add: ix_itervalues_def case_prod_beta)
  qed
qed

lemma ix_itervalues_inv:
  assumes "ix_inv f st ix"
  shows "ix_inv f st (snd (ix_itervalues k ix))"
proof (cases "map_of ix k")
  case (Some iv)
  have ok: "k \<noteq> []" "iv_ok iv" using assms Some by (auto simp: ix_inv_def dest: ix_okD)
  let ?iv = "snd (iv_values iv)"
  have "ix_ok (AList.update k ?iv ix)"
    using assms ok iv_values_ok [OF ok(2)] by (simp add: ix_inv_def ix_ok_def)
  moreover have "filed j (AList.update k ?iv ix) = filed j ix" for j
    using Some iv_values_ok [OF ok(2)] by (simp add: filed_def)
  ultimately show ?thesis using assms Some by (simp add: ix_itervalues_def ix_inv_def case_prod_beta)
qed (use assms in \<open>simp add: ix_itervalues_def\<close>)

lemma ix_count_filed:
  assumes "ix_inv f st ix" and "sorted_rows st" and "k \<noteq> []"
  shows "ix_count k ix = length (filter (\<lambda>i. f i = Some k) st)"
proof -
  have "ix_count k ix = length (fst (ix_itervalues k ix))"
  proof (cases "map_of ix k")
    case (Some iv)
    then have "iv_ok iv" using assms(1) by (auto simp: ix_inv_def dest: ix_okD)
    then show ?thesis using Some iv_values_ok [of iv] by (simp add: ix_count_def ix_itervalues_def case_prod_beta)
  qed (simp add: ix_count_def ix_itervalues_def)
  then show ?thesis using sort_filed [OF assms] by simp
qed

lemma ix_update_filed:
  assumes "ix_ok ix" and "given old \<Longrightarrow> v \<in> filed (the old) ix"
  shows "\<exists>ix'. ix_update old new v ix = Inr ix' \<and> ix_ok ix' \<and>
    (\<forall>k. k \<noteq> [] \<longrightarrow> filed k ix' =
      filed k ix - (if old = Some k then {v} else {}) \<union> (if new = Some k then {v} else {}))"
proof -
  obtain ix1 where ix1: "(if given old then ix_remove (the old) v ix else Inr ix) = Inr ix1" "ix_ok ix1"
    "\<forall>k. k \<noteq> [] \<longrightarrow> filed k ix1 = filed k ix - (if old = Some k then {v} else {})"
  proof (cases "given old")
    case True
    then obtain k where k: "old = Some k" "k \<noteq> []" by (auto simp: given_iff)
    with ix_remove_filed [OF assms(1), of v k] assms(2) True that show ?thesis by auto
  next
    case False
    then have "old \<noteq> Some k" if "k \<noteq> []" for k using that by (auto simp: given_iff)
    with False that [of ix] assms(1) show ?thesis by auto
  qed
  show ?thesis
  proof (cases "given new")
    case True
    then obtain k where "new = Some k" "k \<noteq> []" by (auto simp: given_iff)
    with ix1 ix_add_ok [OF ix1(2), of k v] show ?thesis by (auto simp: ix_update_def)
  next
    case False
    then have "new \<noteq> Some k" if "k \<noteq> []" for k using that by (auto simp: given_iff)
    with ix1 False show ?thesis by (auto simp: ix_update_def)
  qed
qed

section \<open>The cache\<close>

record model_cache =
  mc_items :: "model_item dict"
  mc_sorted :: "store option"
  mc_by_parent :: index
  mc_by_source :: index
  mc_by_type :: index
  mc_by_state :: index

definition new_cache :: model_cache where
  "new_cache = \<lparr>mc_items = [], mc_sorted = None, mc_by_parent = [], mc_by_source = [], mc_by_type = [],
     mc_by_state = []\<rparr>"

definition key_type :: item_key where
  "key_type i = Some (mi_item_type_id i)"

definition key_state :: item_key where
  "key_state i = Some (item_state_name (mi_state i))"

definition mc_add_to_indexes :: "model_item \<Rightarrow> model_cache \<Rightarrow> model_cache" where
  "mc_add_to_indexes i c =
     c\<lparr>mc_by_parent := ix_add_item mi_parent_vpath i (mc_by_parent c),
       mc_by_source := ix_add_item mi_source_vpath i (mc_by_source c),
       mc_by_type := ix_add_item key_type i (mc_by_type c),
       mc_by_state := ix_add_item key_state i (mc_by_state c)\<rparr>"

definition mc_remove_from_indexes :: "model_item \<Rightarrow> model_cache \<Rightarrow> model_cache res" where
  "mc_remove_from_indexes i c =
     rbind (ix_remove_item mi_parent_vpath i (mc_by_parent c)) (\<lambda>p.
     rbind (ix_remove_item mi_source_vpath i (mc_by_source c)) (\<lambda>s.
     rbind (ix_remove_item key_type i (mc_by_type c)) (\<lambda>t.
     rbind (ix_remove_item key_state i (mc_by_state c)) (\<lambda>x.
       Inr (c\<lparr>mc_by_parent := p, mc_by_source := s, mc_by_type := t, mc_by_state := x\<rparr>)))))"

definition mc_uncache_item :: "model_item \<Rightarrow> model_cache \<Rightarrow> model_cache res" where
  "mc_uncache_item i c =
     (if \<not> has_key (mi_vpath i) (mc_items c) then Inr c
      else mc_remove_from_indexes i
             (c\<lparr>mc_items := AList.delete (mi_vpath i) (mc_items c), mc_sorted := None\<rparr>))"

definition mc_cache_item :: "model_item \<Rightarrow> model_cache \<Rightarrow> model_cache res" where
  "mc_cache_item i c =
     rbind (case map_of (mc_items c) (mi_vpath i) of Some j \<Rightarrow> mc_uncache_item j c | None \<Rightarrow> Inr c) (\<lambda>c.
       Inr (mc_add_to_indexes i
         (c\<lparr>mc_items := AList.update (mi_vpath i) i (mc_items c), mc_sorted := None\<rparr>)))"

definition mc_load_model :: "store \<Rightarrow> model_cache res" where
  "mc_load_model st = for_res mc_cache_item (bm_query st) new_cache"

definition mc_invalidate_cache :: "model_cache \<Rightarrow> model_cache" where
  "mc_invalidate_cache c =
     c\<lparr>mc_items := [], mc_by_parent := [], mc_by_source := [], mc_by_type := [], mc_by_state := []\<rparr>"

type_synonym mc_state = "model_cache \<times> store"

definition mc_get :: "string \<Rightarrow> model_cache \<Rightarrow> model_item option" where
  "mc_get v c = map_of (mc_items c) v"

definition mc_exists :: "string \<Rightarrow> model_cache \<Rightarrow> bool" where
  "mc_exists v c \<longleftrightarrow> map_of (mc_items c) v \<noteq> None"

definition mc_add :: "model_item \<Rightarrow> mc_state \<Rightarrow> mc_state res" where
  "mc_add i s = (case s of (c, st) \<Rightarrow> rbind (mc_cache_item i c) (\<lambda>c. Inr (c, bm_add i st)))"

definition mc_delete :: "model_item \<Rightarrow> mc_state \<Rightarrow> mc_state res" where
  "mc_delete i s = (case s of (c, st) \<Rightarrow> rbind (mc_uncache_item i c) (\<lambda>c. Inr (c, bm_delete i st)))"

text \<open>The listeners of the four columns, called with the item before the assignment.\<close>

definition mc_update_index ::
  "model_item \<Rightarrow> string option \<Rightarrow> string option \<Rightarrow> model_cache \<Rightarrow> index \<Rightarrow> index res" where
  "mc_update_index i new old c ix =
     (if new = old \<or> \<not> has_key (mi_vpath i) (mc_items c) then Inr ix
      else ix_update old new (mi_vpath i) ix)"

fun mc_on_set :: "assignment \<Rightarrow> model_item \<Rightarrow> model_cache \<Rightarrow> model_cache res" where
  "mc_on_set (SetParent p) i c =
     rbind (mc_update_index i p (mi_parent_vpath i) c (mc_by_parent c)) (\<lambda>ix. Inr (c\<lparr>mc_by_parent := ix\<rparr>))"
| "mc_on_set (SetSource s) i c =
     rbind (mc_update_index i s (mi_source_vpath i) c (mc_by_source c)) (\<lambda>ix. Inr (c\<lparr>mc_by_source := ix\<rparr>))"
| "mc_on_set (SetType t) i c =
     rbind (mc_update_index i (Some t) (key_type i) c (mc_by_type c)) (\<lambda>ix. Inr (c\<lparr>mc_by_type := ix\<rparr>))"
| "mc_on_set (SetState x) i c =
     rbind (mc_update_index i (Some (item_state_name x)) (key_state i) c (mc_by_state c))
       (\<lambda>ix. Inr (c\<lparr>mc_by_state := ix\<rparr>))"
| "mc_on_set (SetProperties d) i c = Inr c"

definition mc_see :: "model_item \<Rightarrow> model_cache \<Rightarrow> model_cache" where
  "mc_see i c = c\<lparr>mc_items := map (\<lambda>(v, j). (v, see_item i j)) (mc_items c),
     mc_sorted := map_option (map (see_item i)) (mc_sorted c)\<rparr>"

definition mc_assign :: "string \<Rightarrow> assignment \<Rightarrow> mc_state \<Rightarrow> mc_state res" where
  "mc_assign v a s =
     (case s of (c, st) \<Rightarrow>
        (case mc_get v c of
           None \<Rightarrow> Inr (c, st)
         | Some i \<Rightarrow> rbind (mc_on_set a i c) (\<lambda>c.
             Inr (mc_see (assign_column a i) c, st_put (assign_column a i) st))))"

text \<open>Queries look up the vpaths an index holds; the first one sorts them.\<close>

definition mc_lookup :: "model_cache \<Rightarrow> string list \<Rightarrow> store res" where
  "mc_lookup c = map_res (\<lambda>v. case map_of (mc_items c) v of None \<Rightarrow> Inl (KeyError v) | Some i \<Rightarrow> Inr i)"

definition mc_query_children :: "string \<Rightarrow> model_cache \<Rightarrow> (store \<times> model_cache) res" where
  "mc_query_children v c =
     (case ix_itervalues v (mc_by_parent c) of (vs, ix) \<Rightarrow>
        rbind (mc_lookup c vs) (\<lambda>ks. Inr (ks, c\<lparr>mc_by_parent := ix\<rparr>)))"

definition mc_query_inherited :: "string \<Rightarrow> model_cache \<Rightarrow> (store \<times> model_cache) res" where
  "mc_query_inherited v c =
     (case ix_itervalues v (mc_by_source c) of (vs, ix) \<Rightarrow>
        rbind (mc_lookup c vs) (\<lambda>ks. Inr (ks, c\<lparr>mc_by_source := ix\<rparr>)))"

definition mc_count_children :: "string \<Rightarrow> model_cache \<Rightarrow> nat" where
  "mc_count_children v c = ix_count v (mc_by_parent c)"

fun mc_by_types_loop :: "string list \<Rightarrow> store \<Rightarrow> model_cache \<Rightarrow> (store \<times> model_cache) res" where
  "mc_by_types_loop [] acc c = Inr (acc, c)"
| "mc_by_types_loop (k # ks) acc c =
     (case ix_itervalues k (mc_by_type c) of (vs, ix) \<Rightarrow>
        rbind (mc_lookup c vs) (\<lambda>is. mc_by_types_loop ks (acc @ is) (c\<lparr>mc_by_type := ix\<rparr>)))"

fun mc_by_states_loop :: "string list \<Rightarrow> store \<Rightarrow> model_cache \<Rightarrow> (store \<times> model_cache) res" where
  "mc_by_states_loop [] acc c = Inr (acc, c)"
| "mc_by_states_loop (k # ks) acc c =
     (case ix_itervalues k (mc_by_state c) of (vs, ix) \<Rightarrow>
        rbind (mc_lookup c vs) (\<lambda>is. mc_by_states_loop ks (acc @ is) (c\<lparr>mc_by_state := ix\<rparr>)))"

definition mc_query_by_item_types :: "string list \<Rightarrow> model_cache \<Rightarrow> (store \<times> model_cache) res" where
  "mc_query_by_item_types ids c =
     rbind (mc_by_types_loop (remdups ids) [] c) (\<lambda>(is, c). Inr (sort_key mi_vpath is, c))"

definition mc_query_by_states :: "item_state list \<Rightarrow> model_cache \<Rightarrow> (store \<times> model_cache) res" where
  "mc_query_by_states ss c =
     rbind (mc_by_states_loop (map item_state_name (remdups ss)) [] c) (\<lambda>(is, c). Inr (sort_key mi_vpath is, c))"

definition mc_query :: "model_cache \<Rightarrow> store \<times> model_cache" where
  "mc_query c =
     (case mc_sorted c of
        Some is \<Rightarrow> (is, c)
      | None \<Rightarrow> (let is = sort_key mi_vpath (map snd (mc_items c)) in (is, c\<lparr>mc_sorted := Some is\<rparr>)))"

text \<open>The generator walks the children and, below each, its descendants.\<close>

fun mc_descends_fuel :: "nat \<Rightarrow> string \<Rightarrow> model_cache \<Rightarrow> (store \<times> model_cache) res" where
  "mc_descends_fuel 0 v c = Inl diverges"
| "mc_descends_fuel (Suc n) v c =
     rbind (mc_query_children v c) (\<lambda>(ks, c).
       for_res (\<lambda>k (acc, c). rbind (mc_descends_fuel n (mi_vpath k) c) (\<lambda>(ds, c).
         Inr (acc @ k # ds, c))) ks ([], c))"

definition mc_query_descends :: "string \<Rightarrow> model_cache \<Rightarrow> (store \<times> model_cache) res" where
  "mc_query_descends v c = mc_descends_fuel (length (mc_items c) + 1) v c"

fun mc_answer :: "table_query \<Rightarrow> model_cache \<Rightarrow> (store \<times> model_cache) res" where
  "mc_answer (QChildren v) c = mc_query_children v c"
| "mc_answer (QInherited v) c = mc_query_inherited v c"
| "mc_answer (QTypes ids) c = mc_query_by_item_types ids c"
| "mc_answer (QStates ss) c = mc_query_by_states ss c"
| "mc_answer QAll c = Inr (mc_query c)"

section \<open>The cache agrees with the table\<close>

definition mc_indexed :: "store \<Rightarrow> model_cache \<Rightarrow> bool" where
  "mc_indexed st c \<longleftrightarrow> ix_inv mi_parent_vpath st (mc_by_parent c) \<and> ix_inv mi_source_vpath st (mc_by_source c) \<and>
     ix_inv key_type st (mc_by_type c) \<and> ix_inv key_state st (mc_by_state c)"

definition mc_valid :: "mc_state \<Rightarrow> bool" where
  "mc_valid s \<longleftrightarrow>
     (case s of (c, st) \<Rightarrow> sorted_rows st \<and> (\<forall>i \<in> set st. proper_item i) \<and>
        distinct (map fst (mc_items c)) \<and> (\<forall>v. map_of (mc_items c) v = st_get st v) \<and>
        mc_sorted c \<in> {None, Some st} \<and> mc_indexed st c)"

lemma mc_validD:
  assumes "mc_valid (c, st)"
  shows "sorted_rows st" "\<forall>i \<in> set st. proper_item i" "distinct (map fst (mc_items c))"
    "map_of (mc_items c) v = st_get st v" "mc_sorted c \<in> {None, Some st}" "mc_indexed st c"
    "ix_inv mi_parent_vpath st (mc_by_parent c)" "ix_inv mi_source_vpath st (mc_by_source c)"
    "ix_inv key_type st (mc_by_type c)" "ix_inv key_state st (mc_by_state c)"
  using assms by (auto simp: mc_valid_def mc_indexed_def)

lemma mc_lookup_rows:
  assumes "mc_valid (c, st)"
  shows "mc_lookup c (map mi_vpath (filter P st)) = Inr (filter P st)"
proof -
  have "map_of (mc_items c) (mi_vpath i) = Some i" if "i \<in> set st" for i
    using mc_validD(1,4) [OF assms] that by (simp add: st_get_iff)
  then show ?thesis unfolding mc_lookup_def map_res_Inr_iff by (induction st) auto
qed

lemma mc_valid_memo:
  assumes "mc_valid (c, st)"
  shows "mc_valid (c\<lparr>mc_by_parent := snd (ix_itervalues k (mc_by_parent c))\<rparr>, st)"
    "mc_valid (c\<lparr>mc_by_source := snd (ix_itervalues k (mc_by_source c))\<rparr>, st)"
    "mc_valid (c\<lparr>mc_by_type := snd (ix_itervalues k (mc_by_type c))\<rparr>, st)"
    "mc_valid (c\<lparr>mc_by_state := snd (ix_itervalues k (mc_by_state c))\<rparr>, st)"
  using assms ix_itervalues_inv by (auto simp: mc_valid_def mc_indexed_def)

lemma mc_query_children_rows:
  assumes "mc_valid (c, st)" and "v \<noteq> []"
  shows "\<exists>c'. mc_query_children v c = Inr (bm_query_children v st, c') \<and> mc_valid (c', st) \<and>
    mc_items c' = mc_items c"
  using sort_filed [OF mc_validD(7) [OF assms(1)] mc_validD(1) [OF assms(1)] assms(2)]
    mc_lookup_rows [OF assms(1), of "\<lambda>i. mi_parent_vpath i = Some v"] mc_valid_memo(1) [OF assms(1), of v]
  by (simp add: mc_query_children_def case_prod_beta bm_query_children_def)

lemma mc_query_inherited_rows:
  assumes "mc_valid (c, st)" and "v \<noteq> []"
  shows "\<exists>c'. mc_query_inherited v c = Inr (bm_query_inherited v st, c') \<and> mc_valid (c', st)"
  using sort_filed [OF mc_validD(8) [OF assms(1)] mc_validD(1) [OF assms(1)] assms(2)]
    mc_lookup_rows [OF assms(1), of "\<lambda>i. mi_source_vpath i = Some v"] mc_valid_memo(2) [OF assms(1), of v]
  by (simp add: mc_query_inherited_def case_prod_beta bm_query_inherited_def)

lemma mc_by_types_loop_rows:
  assumes "mc_valid (c, st)" and "[] \<notin> set ks"
  shows "\<exists>c'. mc_by_types_loop ks acc c =
      Inr (acc @ concat (map (\<lambda>k. filter (\<lambda>i. key_type i = Some k) st) ks), c') \<and> mc_valid (c', st)"
  using assms
proof (induction ks arbitrary: acc c)
  case (Cons k ks)
  let ?c = "c\<lparr>mc_by_type := snd (ix_itervalues k (mc_by_type c))\<rparr>"
  have "fst (ix_itervalues k (mc_by_type c)) = map mi_vpath (filter (\<lambda>i. key_type i = Some k) st)"
    using sort_filed [OF mc_validD(9) [OF Cons.prems(1)] mc_validD(1) [OF Cons.prems(1)]] Cons.prems(2) by auto
  then show ?case
    using Cons.IH [OF mc_valid_memo(3) [OF Cons.prems(1), of k], of "acc @ filter (\<lambda>i. key_type i = Some k) st"] Cons.prems(2)
      mc_lookup_rows [OF Cons.prems(1), of "\<lambda>i. key_type i = Some k"]
    by (simp add: case_prod_beta)
qed simp

lemma mc_by_states_loop_rows:
  assumes "mc_valid (c, st)" and "[] \<notin> set ks"
  shows "\<exists>c'. mc_by_states_loop ks acc c =
      Inr (acc @ concat (map (\<lambda>k. filter (\<lambda>i. key_state i = Some k) st) ks), c') \<and> mc_valid (c', st)"
  using assms
proof (induction ks arbitrary: acc c)
  case (Cons k ks)
  have "fst (ix_itervalues k (mc_by_state c)) = map mi_vpath (filter (\<lambda>i. key_state i = Some k) st)"
    using sort_filed [OF mc_validD(10) [OF Cons.prems(1)] mc_validD(1) [OF Cons.prems(1)]] Cons.prems(2) by auto
  then show ?case
    using Cons.IH [OF mc_valid_memo(4) [OF Cons.prems(1), of k], of "acc @ filter (\<lambda>i. key_state i = Some k) st"] Cons.prems(2)
      mc_lookup_rows [OF Cons.prems(1), of "\<lambda>i. key_state i = Some k"]
    by (simp add: case_prod_beta)
qed simp

text \<open>Sorting the groups of a partition of rows gives the rows in order.\<close>

lemma sort_partition:
  assumes "sorted_rows st" and "distinct ks"
  shows "sort_key mi_vpath (concat (map (\<lambda>k. filter (\<lambda>i. f i = Some k) st) ks)) =
    filter (\<lambda>i. f i \<in> Some ` set ks) st"
proof -
  let ?g = "concat (map (\<lambda>k. filter (\<lambda>i. f i = Some k) st) ks)"
  have "distinct (map mi_vpath st)" using assms(1) by (simp add: sorted_rows_def)
  then have d: "distinct st" and inj: "inj_on mi_vpath (set st)" by (simp_all add: distinct_map)
  have set: "set ?g = {i \<in> set st. f i \<in> Some ` set ks}" by auto
  have "distinct ?g" using assms(2)
  proof (induction ks)
    case (Cons k ks)
    then show ?case using d by auto
  qed simp
  then have "distinct (map mi_vpath (sort_key mi_vpath ?g))"
    using inj set by (auto simp: distinct_map intro: inj_on_subset)
  then have "sorted_rows (sort_key mi_vpath ?g)" by (simp add: sorted_rows_def)
  then show ?thesis
    using sorted_rows_filter [OF assms(1)] set by (intro sorted_rows_unique) auto
qed

lemma mc_answer_rows:
  assumes "mc_valid (c, st)" and "proper_query q"
  shows "\<exists>c'. mc_answer q c = Inr (bm_answer q st, c') \<and> mc_valid (c', st)"
proof (cases q)
  case (QTypes ids)
  have "filter (\<lambda>i. key_type i \<in> Some ` set ids) st = bm_query_by_item_types ids st"
    by (auto simp: bm_query_by_item_types_def key_type_def intro: filter_cong)
  then show ?thesis using QTypes assms(2)
      mc_by_types_loop_rows [OF assms(1), of "remdups ids" "[]"] sort_partition [OF mc_validD(1) [OF assms(1)], of "remdups ids" key_type]
    by (auto simp: mc_query_by_item_types_def)
next
  case (QStates ss)
  let ?ks = "map item_state_name (remdups ss)"
  have "filter (\<lambda>i. key_state i \<in> Some ` set ?ks) st = bm_query_by_states ss st"
    by (auto simp: bm_query_by_states_def key_state_def item_state_name_inj intro: filter_cong)
  moreover have "distinct ?ks" by (simp add: distinct_map inj_on_def item_state_name_inj)
  moreover have "[] \<notin> set ?ks" by (auto simp: item_state_name_def split: item_state.splits)
  ultimately show ?thesis
    using QStates mc_by_states_loop_rows [OF assms(1), of ?ks "[]"]
      sort_partition [OF mc_validD(1) [OF assms(1)], of ?ks key_state]
    by (auto simp: mc_query_by_states_def)
next
  case QAll
  have d: "distinct (map fst (mc_items c))" and m: "\<And>v. map_of (mc_items c) v = st_get st v"
    and sorted: "sorted_rows st" and memo: "mc_sorted c \<in> {None, Some st}"
    using mc_validD [OF assms(1)] by auto
  have mem: "(v, i) \<in> set (mc_items c) \<longleftrightarrow> i \<in> set st \<and> mi_vpath i = v" for v i
    using m [of v] map_of_eq_Some_iff [OF d, of v i] st_get_iff [OF sorted, of v i] by simp
  have set: "set (map snd (mc_items c)) = set st"
  proof
    show "set (map snd (mc_items c)) \<subseteq> set st" using mem by auto
    show "set st \<subseteq> set (map snd (mc_items c))"
    proof
      fix i assume "i \<in> set st"
      then have "(mi_vpath i, i) \<in> set (mc_items c)" using mem by blast
      then have "snd (mi_vpath i, i) \<in> snd ` set (mc_items c)" by (rule imageI)
      then show "i \<in> set (map snd (mc_items c))" unfolding set_map by simp
    qed
  qed
  have "map mi_vpath (map snd (mc_items c)) = map fst (mc_items c)" using mem by auto
  then have "distinct (map mi_vpath (map snd (mc_items c)))" using d by (simp only:)
  then have "distinct (map mi_vpath (sort_key mi_vpath (map snd (mc_items c))))"
    unfolding distinct_map [of mi_vpath] by simp
  then have "sorted_rows (sort_key mi_vpath (map snd (mc_items c)))" by (simp add: sorted_rows_def)
  then have "sort_key mi_vpath (map snd (mc_items c)) = st"
    using sorted set by (intro sorted_rows_unique) simp_all
  moreover have "mc_valid (c\<lparr>mc_sorted := Some st\<rparr>, st)" using assms(1) by (simp add: mc_valid_def mc_indexed_def)
  ultimately show ?thesis using QAll memo assms(1) by (auto simp: mc_query_def bm_query_def Let_def)
next
  case (QChildren v)
  then show ?thesis using mc_query_children_rows [OF assms(1), of v] assms(2) by auto
next
  case (QInherited v)
  then show ?thesis using mc_query_inherited_rows [OF assms(1), of v] assms(2) by auto
qed

text \<open>The keys an index has to know, after the table changes.\<close>

lemma keyed_put:
  assumes "sorted_rows st"
  shows "keyed f k (st_put i st) = keyed f k st - {mi_vpath i} \<union> (if f i = Some k then {mi_vpath i} else {})"
  using assms by (auto simp: keyed_def set_st_put)

lemma keyed_delete: "keyed f k (st_delete v st) = keyed f k st - {v}"
  by (auto simp: keyed_def set_st_delete)

lemma keyed_iff:
  assumes "sorted_rows st"
  shows "v \<in> keyed f k st \<longleftrightarrow> (\<exists>j. st_get st v = Some j \<and> f j = Some k)"
  using assms by (auto simp: keyed_def st_get_iff)

lemma ix_inv_update:
  assumes "ix_inv f st ix" and "sorted_rows st" and "st_get st v = None \<Longrightarrow> old = None"
    and "\<And>i. st_get st v = Some i \<Longrightarrow> old = f i"
    and "\<And>k. k \<noteq> [] \<Longrightarrow> keyed f k ut = keyed f k st - {v} \<union> (if new = Some k then {v} else {})"
  shows "\<exists>ix'. ix_update old new v ix = Inr ix' \<and> ix_inv f ut ix'"
proof -
  have ok: "ix_ok ix" and filed: "\<And>k. k \<noteq> [] \<Longrightarrow> filed k ix = keyed f k st"
    using assms(1) by (auto simp: ix_inv_def)
  have "v \<in> filed (the old) ix" if old: "given old"
  proof -
    obtain k where k: "old = Some k" "k \<noteq> []" using old by (auto simp: given_iff)
    then obtain i where "st_get st v = Some i" using assms(3) by fastforce
    then show ?thesis using k assms(4) filed keyed_iff [OF assms(2)] by simp
  qed
  from ix_update_filed [OF ok this, of new] obtain ix' where
    ix': "ix_update old new v ix = Inr ix'" "ix_ok ix'" and
    new: "\<And>k. k \<noteq> [] \<Longrightarrow> filed k ix' =
      filed k ix - (if old = Some k then {v} else {}) \<union> (if new = Some k then {v} else {})" by blast
  have "v \<notin> filed k ix" if "k \<noteq> []" "old \<noteq> Some k" for k
    using that assms(3,4) filed keyed_iff [OF assms(2), of v f k] by (cases "st_get st v") auto
  then have "filed k ix' = keyed f k ut" if "k \<noteq> []" for k
    using new [OF that] filed [OF that] assms(5) [OF that] that by auto
  then show ?thesis using ix' by (auto simp: ix_inv_def)
qed

lemma ix_add_item_update: "ix_update None (f i) (mi_vpath i) ix = Inr (ix_add_item f i ix)"
  by (simp add: ix_update_def ix_add_item_def)

lemma ix_remove_item_update: "ix_update (f i) None (mi_vpath i) ix = ix_remove_item f i ix"
  by (simp add: ix_update_def ix_remove_item_def) (cases "ix_remove (the (f i)) (mi_vpath i) ix"; simp)

lemma ix_inv_add_item:
  assumes "ix_inv f st ix" and "sorted_rows st" and "st_get st (mi_vpath i) = None"
  shows "ix_inv f (st_put i st) (ix_add_item f i ix)"
proof -
  have "\<exists>ix'. ix_update None (f i) (mi_vpath i) ix = Inr ix' \<and> ix_inv f (st_put i st) ix'"
    by (rule ix_inv_update [OF assms(1,2)]) (use assms(3) keyed_put [OF assms(2)] in simp_all)
  then show ?thesis by (simp add: ix_add_item_update)
qed

lemma ix_inv_remove_item:
  assumes "ix_inv f st ix" and "sorted_rows st" and "st_get st (mi_vpath i) = Some i"
  shows "\<exists>ix'. ix_remove_item f i ix = Inr ix' \<and> ix_inv f (st_delete (mi_vpath i) st) ix'"
  unfolding ix_remove_item_update [symmetric]
  by (rule ix_inv_update [OF assms(1,2)]) (use assms(3) in \<open>simp_all add: keyed_delete\<close>)

lemma ix_inv_assign:
  assumes "ix_inv f st ix" and "sorted_rows st" and "st_get st (mi_vpath i) = Some j"
  shows "\<exists>ix'. ix_update (f j) (f i) (mi_vpath i) ix = Inr ix' \<and> ix_inv f (st_put i st) ix'"
  by (rule ix_inv_update [OF assms(1,2)]) (use assms(3) keyed_put [OF assms(2)] in simp_all)

lemma ix_inv_same:
  assumes "ix_inv f st ix" and "sorted_rows st" and "st_get st (mi_vpath i) = Some j" and "f i = f j"
  shows "ix_inv f (st_put i st) ix"
proof -
  have "keyed f k (st_put i st) = keyed f k st" for k
    using keyed_put [OF assms(2), of f k i] keyed_iff [OF assms(2), of "mi_vpath i" f k] assms(3,4) by auto
  then show ?thesis using assms(1) by (simp add: ix_inv_def)
qed

lemma mc_add_valid:
  assumes "mc_valid (c, st)" and "st_get st (mi_vpath i) = None" and "proper_item i"
  shows "\<exists>c'. mc_add i (c, st) = Inr (c', st_put i st) \<and> mc_valid (c', st_put i st)"
proof -
  note v = mc_validD [OF assms(1)]
  let ?c = "mc_add_to_indexes i
    (c\<lparr>mc_items := AList.update (mi_vpath i) i (mc_items c), mc_sorted := None\<rparr>)"
  have "map_of (mc_items c) (mi_vpath i) = None" using v(4) assms(2) by simp
  then have "mc_add i (c, st) = Inr (?c, st_put i st)" by (simp add: mc_add_def mc_cache_item_def bm_add_def)
  moreover have "\<forall>j \<in> set (st_put i st). proper_item j" using v(2) assms(3) by (auto simp: set_st_put [OF v(1)])
  moreover have "distinct (map fst (AList.update (mi_vpath i) i (mc_items c)))" using v(3) by (rule distinct_update)
  moreover have "map_of (AList.update (mi_vpath i) i (mc_items c)) w = st_get (st_put i st) w" for w
    using v(4) by (simp add: st_get_put [OF v(1)])
  moreover have "mc_indexed (st_put i st) ?c"
    using ix_inv_add_item [OF _ v(1) assms(2)] v(7-10) by (simp add: mc_indexed_def mc_add_to_indexes_def)
  ultimately show ?thesis
    using sorted_st_put [OF v(1)] by (simp add: mc_valid_def mc_add_to_indexes_def)
qed

lemma mc_delete_valid:
  assumes "mc_valid (c, st)" and "st_get st (mi_vpath i) = Some i"
  shows "\<exists>c'. mc_delete i (c, st) = Inr (c', st_delete (mi_vpath i) st) \<and>
    mc_valid (c', st_delete (mi_vpath i) st)"
proof -
  note v = mc_validD [OF assms(1)]
  note rem = ix_inv_remove_item [OF _ v(1) assms(2)]
  obtain p where p: "ix_remove_item mi_parent_vpath i (mc_by_parent c) = Inr p"
    "ix_inv mi_parent_vpath (st_delete (mi_vpath i) st) p" using rem [OF v(7)] by blast
  obtain s where s: "ix_remove_item mi_source_vpath i (mc_by_source c) = Inr s"
    "ix_inv mi_source_vpath (st_delete (mi_vpath i) st) s" using rem [OF v(8)] by blast
  obtain t where t: "ix_remove_item key_type i (mc_by_type c) = Inr t"
    "ix_inv key_type (st_delete (mi_vpath i) st) t" using rem [OF v(9)] by blast
  obtain x where x: "ix_remove_item key_state i (mc_by_state c) = Inr x"
    "ix_inv key_state (st_delete (mi_vpath i) st) x" using rem [OF v(10)] by blast
  let ?c = "c\<lparr>mc_items := AList.delete (mi_vpath i) (mc_items c), mc_sorted := None,
    mc_by_parent := p, mc_by_source := s, mc_by_type := t, mc_by_state := x\<rparr>"
  have "has_key (mi_vpath i) (mc_items c)" using v(4) assms(2) by (simp add: has_key_def)
  then have "mc_delete i (c, st) = Inr (?c, st_delete (mi_vpath i) st)"
    by (simp add: mc_delete_def mc_uncache_item_def mc_remove_from_indexes_def p s t x bm_delete_def)
  moreover have "\<forall>j \<in> set (st_delete (mi_vpath i) st). proper_item j" using v(2) by (auto simp: set_st_delete)
  moreover have "distinct (map fst (AList.delete (mi_vpath i) (mc_items c)))" using v(3) by (rule distinct_delete)
  moreover have "map_of (AList.delete (mi_vpath i) (mc_items c)) w = st_get (st_delete (mi_vpath i) st) w" for w
    using v(4) by (simp add: st_get_delete)
  ultimately show ?thesis
    using sorted_st_delete [OF v(1)] p s t x by (simp add: mc_valid_def mc_indexed_def)
qed

lemma mc_on_set_valid:
  assumes "mc_valid (c, st)" and "st_get st v = Some i"
  shows "\<exists>c'. mc_on_set a i c = Inr c' \<and> mc_indexed (st_put (assign_column a i) st) c' \<and>
    mc_items c' = mc_items c \<and> mc_sorted c' = mc_sorted c"
proof -
  note val = mc_validD [OF assms(1)]
  have v: "mi_vpath i = v" using st_get_Some [OF assms(2)] by simp
  have key: "has_key (mi_vpath i) (mc_items c)" using val(4) assms(2) v by (simp add: has_key_def)
  let ?j = "assign_column a i"
  have get: "st_get st (mi_vpath ?j) = Some i" using assms(2) v by simp
  have same: "ix_inv f (st_put ?j st) ix" if "ix_inv f st ix" "f ?j = f i" for f ix
    using ix_inv_same [OF that(1) val(1) get that(2)] .
  have upd: "\<exists>ix'. mc_update_index i (f ?j) (f i) c ix = Inr ix' \<and> ix_inv f (st_put ?j st) ix'"
    if "ix_inv f st ix" for f ix
    using ix_inv_assign [OF that val(1) get] same [OF that] key by (simp add: mc_update_index_def)
  show ?thesis
  proof (cases a)
    case (SetState x)
    then show ?thesis using upd [OF val(10)] same [OF val(7)] same [OF val(8)] same [OF val(9)]
      by (auto simp: mc_indexed_def key_state_def key_type_def)
  next
    case (SetSource x)
    then show ?thesis using upd [OF val(8)] same [OF val(7)] same [OF val(9)] same [OF val(10)]
      by (auto simp: mc_indexed_def key_state_def key_type_def)
  next
    case (SetParent x)
    then show ?thesis using upd [OF val(7)] same [OF val(8)] same [OF val(9)] same [OF val(10)]
      by (auto simp: mc_indexed_def key_state_def key_type_def)
  next
    case (SetType x)
    then show ?thesis using upd [OF val(9)] same [OF val(7)] same [OF val(8)] same [OF val(10)]
      by (auto simp: mc_indexed_def key_state_def key_type_def)
  next
    case (SetProperties d)
    then show ?thesis using same [OF val(7)] same [OF val(8)] same [OF val(9)] same [OF val(10)]
      by (auto simp: mc_indexed_def key_state_def key_type_def)
  qed
qed

lemma mc_assign_valid:
  assumes "mc_valid (c, st)" and "st_get st v = Some i" and "proper_assignment a"
  shows "\<exists>c'. mc_assign v a (c, st) = Inr (c', st_put (assign_column a i) st) \<and>
    mc_valid (c', st_put (assign_column a i) st)"
proof -
  note val = mc_validD [OF assms(1)]
  have v: "mi_vpath i = v" using st_get_Some [OF assms(2)] by simp
  let ?j = "assign_column a i"
  have get: "st_get st (mi_vpath ?j) = Some i" using assms(2) v by simp
  from mc_on_set_valid [OF assms(1,2)] obtain c1 where c1: "mc_on_set a i c = Inr c1"
    "mc_indexed (st_put ?j st) c1" "mc_items c1 = mc_items c" "mc_sorted c1 = mc_sorted c" by blast
  have "mc_assign v a (c, st) = Inr (mc_see ?j c1, st_put ?j st)"
    using val(4) assms(2) c1(1) by (simp add: mc_assign_def mc_get_def)
  moreover have "\<forall>k \<in> set (st_put ?j st). proper_item k"
  proof -
    have "proper_item i" using val(2) st_get_Some [OF assms(2)] by simp
    then have "proper_item ?j" using assms(3) by (rule proper_assign_column)
    then show ?thesis using val(2) by (auto simp: set_st_put [OF val(1)])
  qed
  moreover have "map_of (mc_items (mc_see ?j c1)) w = st_get (st_put ?j st) w" for w
    using val(4) [of w] st_get_Some [of st w] assms(2) v
    by (cases "st_get st w") (auto simp: mc_see_def map_of_map_snd c1(3) see_item_def st_get_put [OF val(1)])
  moreover have "distinct (map fst (mc_items (mc_see ?j c1)))"
    using val(3) c1(3) by (simp add: mc_see_def case_prod_beta comp_def)
  moreover have "mc_sorted (mc_see ?j c1) \<in> {None, Some (st_put ?j st)}"
    using val(5) c1(4) map_see_filter [OF val(1) get, of "\<lambda>_. True"] by (auto simp: mc_see_def)
  moreover have "mc_indexed (st_put ?j st) (mc_see ?j c1)" using c1(2) by (simp add: mc_see_def mc_indexed_def)
  ultimately show ?thesis using sorted_st_put [OF val(1)] by (simp add: mc_valid_def)
qed

interpretation model_cache: data_manager snd mc_valid
  "\<lambda>v s. Inr (mc_get v (fst s), s)" "\<lambda>v s. Inr (mc_count_children v (fst s), s)"
  "\<lambda>q s. rbind (mc_answer q (fst s)) (\<lambda>(is, c). Inr (is, (c, snd s)))" mc_add mc_delete mc_assign
proof
  fix s :: mc_state and v i q a
  obtain c st where s: "s = (c, st)" by (cases s)
  assume valid: "mc_valid s"
  note val = mc_validD [OF valid [unfolded s]]
  show "sorted_rows (snd s)" using val(1) by (simp add: s)
  show "\<exists>t. Inr (mc_get v (fst s), s) = (Inr (st_get (snd s) v, t) :: _ res) \<and> mc_valid t \<and> snd t = snd s"
    using val(4) valid by (simp add: s mc_get_def)
  show "\<exists>t. Inr (mc_count_children v (fst s), s) = (Inr (bm_count_children v (snd s), t) :: _ res) \<and>
      mc_valid t \<and> snd t = snd s" if "v \<noteq> []"
    using ix_count_filed [OF val(7) val(1) that] valid
    by (simp add: s mc_count_children_def bm_count_children_def)
  show "\<exists>t. rbind (mc_answer q (fst s)) (\<lambda>(is, c). Inr (is, (c, snd s))) = Inr (bm_answer q (snd s), t) \<and>
      mc_valid t \<and> snd t = snd s" if "proper_query q"
    using mc_answer_rows [OF valid [unfolded s] that] by (auto simp: s)
  show "\<exists>t. mc_add i s = Inr t \<and> mc_valid t \<and> snd t = st_put i (snd s)"
    if "st_get (snd s) (mi_vpath i) = None" "proper_item i"
    using mc_add_valid [OF valid [unfolded s], of i] that by (auto simp: s)
  show "\<exists>t. mc_delete i s = Inr t \<and> mc_valid t \<and> snd t = st_delete (mi_vpath i) (snd s)"
    if "st_get (snd s) (mi_vpath i) = Some i"
    using mc_delete_valid [OF valid [unfolded s], of i] that by (auto simp: s)
  show "\<exists>t. mc_assign v a s = Inr t \<and> mc_valid t \<and> snd t = st_put (assign_column a i) (snd s)"
    if "st_get (snd s) v = Some i" "proper_assignment a"
    using mc_assign_valid [OF valid [unfolded s], of v i a] that by (auto simp: s)
qed

section \<open>Loading the cache, and using it\<close>

lemma st_put_greater: "\<forall>j \<in> set st. mi_vpath j < mi_vpath i \<Longrightarrow> st_put i st = st @ [i]"
  by (induction st) (auto simp: order_less_not_sym)

lemma mc_load_valid:
  assumes "sorted_rows (st @ ut)" and "\<forall>i \<in> set (st @ ut). proper_item i" and "mc_valid (c, st)"
  shows "\<exists>c'. for_res mc_cache_item ut c = Inr c' \<and> mc_valid (c', st @ ut)"
  using assms
proof (induction ut arbitrary: st c)
  case (Cons i ut)
  have less: "\<forall>j \<in> set st. mi_vpath j < mi_vpath i"
    using Cons.prems(1) by (auto simp: sorted_rows_def sorted_append order_less_le image_iff)
  then have "st_get st (mi_vpath i) = None" by (auto simp: st_get_None_iff)
  then obtain c1 where "mc_add i (c, st) = Inr (c1, st_put i st)" "mc_valid (c1, st_put i st)"
    using mc_add_valid [OF Cons.prems(3), of i] Cons.prems(2) by auto
  then have "mc_cache_item i c = Inr c1" "mc_valid (c1, st @ [i])"
    using st_put_greater [OF less] by (auto simp: mc_add_def rbind_Inr_iff)
  then show ?case using Cons.IH [of "st @ [i]" c1] Cons.prems(1,2) by auto
qed simp

text \<open>A sequence of calls of the model manager on the cache.\<close>

definition mc_run :: "table_call list \<Rightarrow> mc_state \<Rightarrow> (table_answer list \<times> mc_state) res" where
  "mc_run = data_manager.run
     (\<lambda>v s. Inr (mc_get v (fst s), s)) (\<lambda>v s. Inr (mc_count_children v (fst s), s))
     (\<lambda>q s. rbind (mc_answer q (fst s)) (\<lambda>(is, c). Inr (is, (c, snd s)))) mc_add mc_delete mc_assign"


section \<open>Descendants\<close>

text \<open>The walk of \<open>_query_descends\<close> on the table itself.\<close>

fun walk :: "nat \<Rightarrow> store \<Rightarrow> string \<Rightarrow> store" where
  "walk 0 st v = []"
| "walk (Suc n) st v = concat (map (\<lambda>k. k # walk n st (mi_vpath k)) (bm_query_children v st))"

definition longer :: "store \<Rightarrow> string \<Rightarrow> nat" where
  "longer st v = length (filter (\<lambda>i. length v < length (mi_vpath i)) st)"

lemma longer_child:
  assumes "tree_rows st" and "k \<in> set (bm_query_children v st)" and "v \<noteq> []"
  shows "longer st (mi_vpath k) < longer st v" and "mi_vpath k \<noteq> []"
proof -
  have k: "k \<in> set st" "mi_parent_vpath k = Some v" using assms(2) by (auto simp: bm_query_children_def)
  then have len: "length v < length (mi_vpath k)" using assms(1,3) by (intro tree_child(5))
  then show "mi_vpath k \<noteq> []" by auto
  have "filter (\<lambda>i. length (mi_vpath k) < length (mi_vpath i)) st =
      filter (\<lambda>i. length (mi_vpath k) < length (mi_vpath i)) (filter (\<lambda>i. length v < length (mi_vpath i)) st)"
    using len by (auto intro: filter_cong)
  also have "length \<dots> < length (filter (\<lambda>i. length v < length (mi_vpath i)) st)"
    using k(1) len by (intro length_filter_less [of k]) auto
  finally show "longer st (mi_vpath k) < longer st v" by (simp add: longer_def)
qed

lemma mc_descends_walk:
  assumes "mc_valid (c, st)" and "tree_rows st" and "v \<noteq> []" and "longer st v < n"
  shows "\<exists>c'. mc_descends_fuel n v c = Inr (walk n st v, c') \<and> mc_valid (c', st)"
  using assms
proof (induction n arbitrary: v c)
  case (Suc n)
  let ?step = "\<lambda>k (acc, c). rbind (mc_descends_fuel n (mi_vpath k) c) (\<lambda>(ds, c). Inr (acc @ k # ds, c))"
  have loop: "\<exists>c'. for_res ?step ks (acc, c) =
      Inr (acc @ concat (map (\<lambda>k. k # walk n st (mi_vpath k)) ks), c') \<and> mc_valid (c', st)"
    if "mc_valid (c, st)" "set ks \<subseteq> set (bm_query_children v st)" for ks acc c
    using that
  proof (induction ks arbitrary: acc c)
    case (Cons k ks)
    have "longer st (mi_vpath k) < n" "mi_vpath k \<noteq> []"
      using longer_child [OF Suc.prems(2), of k v] Cons.prems(2) Suc.prems(3,4) by auto
    with Suc.IH [OF Cons.prems(1) Suc.prems(2)] obtain c1
      where c1: "mc_descends_fuel n (mi_vpath k) c = Inr (walk n st (mi_vpath k), c1)" "mc_valid (c1, st)"
      by blast
    with Cons.IH [OF c1(2), of "acc @ k # walk n st (mi_vpath k)"] Cons.prems(2) show ?case by auto
  qed simp
  obtain c1 where "mc_query_children v c = Inr (bm_query_children v st, c1)" "mc_valid (c1, st)"
    using mc_query_children_rows [OF Suc.prems(1,3)] by blast
  with loop [of c1 "bm_query_children v st" "[]"] show ?case by auto
qed simp

lemma walk_below:
  assumes "tree_rows st" and "sorted_rows st" and "v \<noteq> []" and "longer st v \<le> n"
  shows "set (walk n st v) = set (below st v)"
  using assms(3,4)
proof (induction n arbitrary: v)
  case 0
  have "(mi_vpath j, v) \<notin> (parent_rel st)\<^sup>+" for j :: model_item
  proof
    assume "(mi_vpath j, v) \<in> (parent_rel st)\<^sup>+"
    then obtain k where "k \<in> set st" "mi_parent_vpath k = Some v" by (auto simp: parent_rel_def dest: tranclD2)
    then have "longer st (mi_vpath k) < longer st v"
      using longer_child(1) [OF assms(1) _ 0(1), of k] by (simp add: bm_query_children_def)
    with 0 show False by simp
  qed
  then show ?case by (simp add: below_def)
next
  case (Suc n)
  have IH: "set (walk n st (mi_vpath k)) = set (below st (mi_vpath k))" if "k \<in> set (bm_query_children v st)" for k
    using Suc.IH longer_child [OF assms(1) that Suc.prems(1)] Suc.prems(2) by simp
  have "j \<in> set (walk (Suc n) st v) \<longleftrightarrow> j \<in> set (below st v)" for j
  proof -
    have "j \<in> set (walk (Suc n) st v) \<longleftrightarrow>
        (\<exists>k \<in> set (bm_query_children v st). j = k \<or> j \<in> set (below st (mi_vpath k)))"
      using IH by auto
    also have "\<dots> \<longleftrightarrow> j \<in> set st \<and> (\<exists>k \<in> set st. (mi_vpath k, v) \<in> parent_rel st \<and>
        (mi_vpath j = mi_vpath k \<or> (mi_vpath j, mi_vpath k) \<in> (parent_rel st)\<^sup>+))"
      using parent_rel_row [OF assms(2)] assms(2)
      by (auto simp: bm_query_children_def below_def sorted_rows_def distinct_map dest: inj_onD)
    also have "\<dots> \<longleftrightarrow> j \<in> set st \<and> (mi_vpath j, v) \<in> (parent_rel st)\<^sup>+"
    proof
      assume "j \<in> set st \<and> (\<exists>k \<in> set st. (mi_vpath k, v) \<in> parent_rel st \<and>
        (mi_vpath j = mi_vpath k \<or> (mi_vpath j, mi_vpath k) \<in> (parent_rel st)\<^sup>+))"
      then show "j \<in> set st \<and> (mi_vpath j, v) \<in> (parent_rel st)\<^sup>+" by (auto intro: trancl_into_trancl)
    next
      assume j: "j \<in> set st \<and> (mi_vpath j, v) \<in> (parent_rel st)\<^sup>+"
      then obtain w where w: "(mi_vpath j, w) \<in> (parent_rel st)\<^sup>*" "(w, v) \<in> parent_rel st"
        by (auto dest: tranclD2)
      then obtain k where "k \<in> set st" "mi_vpath k = w" by (auto simp: parent_rel_def)
      with j w show "j \<in> set st \<and> (\<exists>k \<in> set st. (mi_vpath k, v) \<in> parent_rel st \<and>
          (mi_vpath j = mi_vpath k \<or> (mi_vpath j, mi_vpath k) \<in> (parent_rel st)\<^sup>+))"
        by (auto dest: rtranclD)
    qed
    finally show ?thesis by (simp add: below_def)
  qed
  then show ?case by blast
qed

lemma longer_le: "longer st v \<le> length st"
  by (simp add: longer_def)

lemma length_mc_items:
  assumes "mc_valid (c, st)"
  shows "length (mc_items c) = length st"
proof -
  note v = mc_validD [OF assms]
  have "card (fst ` set (mc_items c)) = length (mc_items c)"
    using distinct_card [OF v(3)] by simp
  moreover have "card (mi_vpath ` set st) = length st"
    using distinct_card [of "map mi_vpath st"] v(1) by (simp add: sorted_rows_def)
  moreover have "fst ` set (mc_items c) = mi_vpath ` set st"
  proof -
    have "w \<in> fst ` set (mc_items c) \<longleftrightarrow> w \<in> mi_vpath ` set st" for w
      using v(4) [of w] st_get_None_iff [of st w] by (metis map_of_eq_None_iff)
    then show ?thesis by blast
  qed
  ultimately show ?thesis by simp
qed

text \<open>C10: on every model that is a tree, the walk of the cache from a path ends and finds only items the
  query of the database for the descendants of the path finds; it finds all of them unless the path has
  an underscore, which the \<open>LIKE\<close> of the database takes for any character. The path has no percent sign
  and no backslash, as no id of an item has.\<close>

theorem descendants_agree:
  assumes "mc_valid (c, st)" and "tree_rows st" and "v \<noteq> []" and "set v \<inter> {CHR ''%'', CHR 0x5C} = {}"
  shows "\<exists>ds c'. mc_query_descends v c = Inr (ds, c') \<and> mc_valid (c', st) \<and>
    set ds \<subseteq> set (bm_query_descends column_startswith v st) \<and>
    (CHR ''_'' \<notin> set v \<longrightarrow> set ds = set (bm_query_descends column_startswith v st))"
proof -
  note val = mc_validD [OF assms(1)]
  have "longer st v < length (mc_items c) + 1" using longer_le [of st v] length_mc_items [OF assms(1)] by simp
  with mc_descends_walk [OF assms(1-3)] obtain c' where
    "mc_query_descends v c = Inr (walk (length (mc_items c) + 1) st v, c')" "mc_valid (c', st)"
    unfolding mc_query_descends_def by blast
  moreover have "set (walk (length (mc_items c) + 1) st v) = set (below st v)"
    using longer_le [of st v] length_mc_items [OF assms(1)]
    by (intro walk_below [OF assms(2) val(1) assms(3)]) simp
  moreover have below: "bm_query_descends like v st = below st v"
    if "\<And>s. like v s = prefix v s" "\<And>s. like (v @ ''/'') s = prefix (v @ ''/'') s" for like
    using val(2) that by (intro bm_query_descends_below [OF assms(2) val(1) _ assms(3)]) (auto simp: proper_item_def)
  moreover have "set (bm_query_descends prefix v st) \<subseteq> set (bm_query_descends column_startswith v st)"
    using assms(4) by (intro bm_query_descends_mono prefix_column_startswith) auto
  moreover have "bm_query_descends column_startswith v st = below st v" if "CHR ''_'' \<notin> set v"
    using assms(4) that by (intro below column_startswith_prefix) auto
  ultimately show ?thesis by (metis below)
qed

text \<open>Emptying the cache leaves the sorted list it remembers: a query after it still returns the
  items that were cached.\<close>

theorem invalidated_cache_keeps_list:
  assumes "mc_valid (c, st)"
  shows "fst (mc_query (mc_invalidate_cache (snd (mc_query c)))) = st"
  using mc_answer_rows [OF assms, of QAll]
  by (auto simp: mc_query_def mc_invalidate_cache_def bm_query_def Let_def split: option.splits)

section \<open>Examples\<close>

lemma ex_load:
  assumes "sorted_rows st" and "\<forall>i \<in> set st. proper_item i"
  shows "\<exists>c. mc_load_model st = Inr c \<and> mc_valid (c, st)"
proof -
  have "mc_valid (new_cache, [])"
    by (simp add: mc_valid_def mc_indexed_def new_cache_def ix_inv_def ix_ok_def filed_def keyed_def
      sorted_rows_def st_get_def)
  then show ?thesis using mc_load_valid [of "[]" st new_cache] assms by (simp add: mc_load_model_def bm_query_def)
qed


theorem descendants_agree_witness:
  "\<exists>c ds c'. mc_load_model ex_tree = Inr c \<and> mc_query_descends ''/'' c = Inr (ds, c') \<and>
     set ds = {ex_nodes, ex_blade, ex_node}"
proof -
  obtain c where c: "mc_load_model ex_tree = Inr c" "mc_valid (c, ex_tree)"
    using ex_load [OF ex_tree_sorted ex_tree_proper] by blast
  have "bm_query_descends column_startswith ''/'' ex_tree = [ex_nodes, ex_blade, ex_node]" by code_simp
  then show ?thesis using descendants_agree [OF c(2) ex_tree_rows, of "''/''"] c(1) by auto
qed

theorem invalidated_cache_keeps_list_witness:
  "\<exists>c. mc_load_model ex_tree = Inr c \<and> fst (mc_query (mc_invalidate_cache (snd (mc_query c)))) = ex_tree"
  using ex_load [OF ex_tree_sorted ex_tree_proper] invalidated_cache_keeps_list by blast

text \<open>Below a path with an underscore the database also finds the items below its siblings that match.\<close>

definition ex_child :: "string \<Rightarrow> string \<Rightarrow> model_item" where
  "ex_child p i = ex_node\<lparr>mi_vpath := construct_vpath i (Some p), mi_item_id := i, mi_parent_vpath := Some p\<rparr>"

lemma underscore_finds_sibling:
  "bm_query_descends column_startswith ''/n_1''
     [ex_child ''/'' ''n_1'', ex_child ''/n_1'' ''a'', ex_child ''/'' ''nx1'', ex_child ''/nx1'' ''b'', ex_child ''/nx1/b'' ''c''] =
   [ex_child ''/n_1'' ''a'', ex_child ''/nx1/b'' ''c'']"
  by code_simp

end
