(* ===== verification/Model_Lookup.thy ===== *)
theory Model_Lookup
  imports Model_Store
begin

text \<open>
  The lookups of \<open>litp/core/model_manager.py\<close>: paths, children and parents, the nearest ancestors
  of a kind, the items that inherit from an item, and the searches through the model. The table
  \<open>st\<close> answers as the data managers do; \<open>types\<close> are the registered item types. The children of
  an item are a dictionary by item id, listed here in the order of their vpaths.
\<close>

section \<open>Paths\<close>

definition split_path :: "string \<Rightarrow> (string option \<times> string) res" where
  "split_path v =
     (if v = ''/'' then Inr (None, [])
      else (case rsplit_slash v of
              None \<Rightarrow> Inl (ValueError ''need more than 1 value to unpack'')
            | Some (p, i) \<Rightarrow> Inr (Some (if p = [] then ''/'' else p), i)))"

definition generate_path :: "string option \<Rightarrow> string \<Rightarrow> string" where
  "generate_path p i =
     (if \<not> given p then ''/''
      else if the p = ''/'' then ''/'' @ i
      else the p @ ''/'' @ i)"

text \<open>Splitting a path and generating it again gives it back, and generating a path from a parent
  and an id without a slash can be split into them again.\<close>

theorem path_round_trip:
  assumes "prefix ''/'' v" and "\<not> prefix ''//'' v" and "p \<noteq> []" and "slash \<notin> set i" and "i \<noteq> []"
  shows "(\<exists>q j. split_path v = Inr (q, j) \<and> generate_path q j = v) \<and>
    split_path (generate_path (Some p) i) = Inr (Some p, i)"
proof
  show "\<exists>q j. split_path v = Inr (q, j) \<and> generate_path q j = v"
  proof (cases "v = ''/''")
    case False
    from assms(1) obtain w where v: "v = slash # w" by (auto simp: prefix_def slash_def)
    have "slash \<in> set v" using v by simp
    then obtain a b where ab: "rsplit_slash v = Some (a, b)" using rsplit_slash_total by blast
    have "v = a @ slash # b" using rsplit_slash_Some [OF ab] by simp
    moreover have "a \<noteq> ''/''" using calculation assms(2) by (auto simp: slash_def)
    ultimately have "generate_path (Some (if a = [] then ''/'' else a)) b = v"
      by (simp add: generate_path_def slash_def)
    moreover have "split_path v = Inr (Some (if a = [] then ''/'' else a), b)"
      using ab False by (simp add: split_path_def)
    ultimately show ?thesis by auto
  qed (simp add: split_path_def generate_path_def)
next
  have path: "generate_path (Some p) i = (if p = ''/'' then [] else p) @ slash # i"
    using assms(3) by (simp add: generate_path_def slash_def)
  then have "generate_path (Some p) i \<noteq> ''/''" using path assms(3,5)
    by (cases p; cases i) (auto simp: slash_def)
  moreover have "rsplit_slash (generate_path (Some p) i) = Some (if p = ''/'' then [] else p, i)"
    unfolding path by (rule rsplit_slash_append [OF assms(4)])
  ultimately show "split_path (generate_path (Some p) i) = Inr (Some p, i)"
    using assms(3) by (auto simp: split_path_def)
qed

theorem path_round_trip_witness:
  "split_path (generate_path (Some ''/nodes'') ''n1'') = Inr (Some ''/nodes'', ''n1'')"
  using path_round_trip [of "''/nodes/n1''" "''/nodes''" "''n1''"] by (simp add: slash_def)

section \<open>Children and ancestors\<close>

fun holds_no_item :: "field \<Rightarrow> bool" where
  "holds_no_item (Property p) = True"
| "holds_no_item (View w) = True"
| "holds_no_item _ = False"

definition item_might_have_children :: "item_type dict \<Rightarrow> model_item \<Rightarrow> bool res" where
  "item_might_have_children types i =
     (if is_collection i then Inr True
      else rbind (item_type_of types i) (\<lambda>t. Inr (list_ex (\<lambda>(n, f). \<not> holds_no_item f) (it_structure t))))"

definition get_children :: "item_type dict \<Rightarrow> store \<Rightarrow> model_item \<Rightarrow> store res" where
  "get_children types st i =
     rbind (item_might_have_children types i) (\<lambda>b.
       Inr (if b then bm_query_children (mi_vpath i) st else []))"

definition count_children :: "item_type dict \<Rightarrow> store \<Rightarrow> model_item \<Rightarrow> nat res" where
  "count_children types st i =
     rbind (item_might_have_children types i) (\<lambda>b.
       Inr (if b then bm_count_children (mi_vpath i) st else 0))"

definition get_child :: "item_type dict \<Rightarrow> store \<Rightarrow> model_item \<Rightarrow> string \<Rightarrow> model_item option res" where
  "get_child types st parent item_id =
     rbind (item_might_have_children types parent) (\<lambda>b.
       Inr (if b then st_get st (generate_path (Some (mi_vpath parent)) item_id) else None))"

definition children_get :: "store \<Rightarrow> string \<Rightarrow> model_item option" where
  "children_get children item_id = List.find (\<lambda>i. mi_item_id i = item_id) children"

definition query_descends :: "item_type dict \<Rightarrow> like \<Rightarrow> store \<Rightarrow> model_item \<Rightarrow> store res" where
  "query_descends types like st i =
     rbind (item_might_have_children types i) (\<lambda>b.
       Inr (if b then bm_query_descends like (mi_vpath i) st else []))"

text \<open>The item and its parents, nearest first.\<close>

fun ancestry_fuel :: "nat \<Rightarrow> store \<Rightarrow> model_item \<Rightarrow> model_item list res" where
  "ancestry_fuel 0 st i = Inl diverges"
| "ancestry_fuel (Suc n) st i =
     (case get_parent st i of
        None \<Rightarrow> Inr [i]
      | Some p \<Rightarrow> rbind (ancestry_fuel n st p) (\<lambda>ps. Inr (i # ps)))"

definition ancestry :: "store \<Rightarrow> model_item \<Rightarrow> model_item list res" where
  "ancestry st i = ancestry_fuel (length st + 1) st i"

definition get_ancestor :: "item_type dict \<Rightarrow> store \<Rightarrow> model_item \<Rightarrow> string \<Rightarrow> model_item option res" where
  "get_ancestor types st i type_id =
     rbind (ancestry st i) (\<lambda>as. Inr (List.find (\<lambda>a. mi_is_type types a type_id) as))"

definition get_node :: "item_type dict \<Rightarrow> store \<Rightarrow> model_item \<Rightarrow> model_item option res" where
  "get_node types st i =
     rbind (ancestry st i) (\<lambda>as. Inr (List.find (\<lambda>a. is_node types a \<and> \<not> is_ms types a) as))"

definition get_ms :: "item_type dict \<Rightarrow> store \<Rightarrow> model_item \<Rightarrow> model_item option res" where
  "get_ms types st i = rbind (ancestry st i) (\<lambda>as. Inr (List.find (is_ms types) as))"

definition get_cluster :: "item_type dict \<Rightarrow> store \<Rightarrow> model_item \<Rightarrow> model_item option res" where
  "get_cluster types st i = get_ancestor types st i ''cluster-base''"

definition get_node_or_ms :: "item_type dict \<Rightarrow> store \<Rightarrow> model_item \<Rightarrow> model_item option res" where
  "get_node_or_ms types st i =
     rbind (get_node types st i) (\<lambda>n. case n of Some _ \<Rightarrow> Inr n | None \<Rightarrow> get_ms types st i)"

definition has_item :: "store \<Rightarrow> string \<Rightarrow> bool" where
  "has_item st v = bm_exists v st"

definition get_item :: "store \<Rightarrow> string \<Rightarrow> model_item option" where
  "get_item st v = bm_get v st"

definition get_root :: "store \<Rightarrow> model_item option" where
  "get_root st = bm_get ''/'' st"

definition query_by_vpath :: "store \<Rightarrow> string \<Rightarrow> model_item res" where
  "query_by_vpath st v =
     (case bm_get v st of
        None \<Rightarrow> Inl (ModelManagerException (''Item '' @ v @ '' not found''))
      | Some i \<Rightarrow> Inr i)"

section \<open>Inheriting items and searches\<close>

fun inherited_fuel :: "nat \<Rightarrow> store \<Rightarrow> string \<Rightarrow> store res" where
  "inherited_fuel 0 st v = Inl diverges"
| "inherited_fuel (Suc n) st v =
     rbind (map_res (\<lambda>i. rbind (inherited_fuel n st (mi_vpath i)) (\<lambda>js. Inr (i # js)))
              (bm_query_inherited v st))
       (\<lambda>iss. Inr (concat iss))"

definition inherited_items_recursive :: "store \<Rightarrow> string \<Rightarrow> store res" where
  "inherited_items_recursive st v = inherited_fuel (length st + 1) st v"

definition mm_match :: "item_type dict \<Rightarrow> model_item \<Rightarrow> string \<Rightarrow> pval dict \<Rightarrow> bool" where
  "mm_match types i type_id props \<longleftrightarrow> mi_extends types i type_id \<and> properties_match i props"

definition find_modelitems :: "item_type dict \<Rightarrow> store \<Rightarrow> string \<Rightarrow> pval dict \<Rightarrow> store" where
  "find_modelitems types st type_id props =
     filter (\<lambda>i. mi_class i \<noteq> CollectionItemC \<and> mm_match types i type_id props) (bm_query st)"

definition find_modelitem :: "item_type dict \<Rightarrow> store \<Rightarrow> string \<Rightarrow> pval dict \<Rightarrow> model_item option" where
  "find_modelitem types st type_id props =
     (let matched = find_modelitems types st type_id props;
          filtered = filter (\<lambda>i. mi_state i \<notin> {ForRemoval, Removed}) matched
      in if length filtered = 1 then Some (hd filtered)
         else if length matched = 1 then Some (hd matched) else None)"

definition get_all_nodes :: "item_type dict \<Rightarrow> store \<Rightarrow> store" where
  "get_all_nodes types st =
     (let ids = concat (map (\<lambda>k. if has_key k types then k # get_extending_types types k else [])
                  [''ms'', ''node''])
      in filter (\<lambda>i. mi_class i = ModelItemC \<and> \<not> given (mi_source_vpath i))
           (bm_query_by_item_types ids st))"

definition plugin_updatable_types :: "item_type dict \<Rightarrow> string list" where
  "plugin_updatable_types types =
     map (\<lambda>(k, t). it_id t) (filter (\<lambda>(k, t). list_ex pf_updatable_plugin (get_property_types t)) types)"

definition get_plugin_updatable_items :: "item_type dict \<Rightarrow> store \<Rightarrow> string list res" where
  "get_plugin_updatable_items types st =
     rbind (map_res (\<lambda>i. rbind (map_res (is_type types (mi_item_type_id i)) (plugin_updatable_types types))
                        (\<lambda>bs. Inr (mi_vpath i, list_ex id bs)))
              (filter (\<lambda>i. mi_class i = ModelItemC) (bm_query st)))
       (\<lambda>vs. Inr (map fst (filter snd vs)))"

definition snapshot_path :: "string \<Rightarrow> string" where
  "snapshot_path n = ''/snapshots/'' @ n"

end
