(* ===== verification/Model_Validator.thy ===== *)
theory Model_Validator
  imports Model_Lookup
begin

text \<open>
  \<open>litp/core/model_validator.py\<close>: what a set of properties has to satisfy to be given to an item of
  a type, and what an item of the model has to satisfy against its type: its required children, the
  number of the items of its collections, its merged properties. A validation returns the list of
  its errors; an exception is a lookup the code does not guard.
\<close>

section \<open>Properties\<close>

datatype access = PROPERTY_WRITE | PROPERTY_READ

fun is_property_or_view :: "field option \<Rightarrow> bool" where
  "is_property_or_view (Some (Property p)) = True"
| "is_property_or_view (Some (View w)) = True"
| "is_property_or_view _ = False"

fun is_view_member :: "field option \<Rightarrow> bool" where
  "is_view_member (Some (View w)) = True"
| "is_view_member _ = False"

definition check_allowed_properties :: "item_type \<Rightarrow> pval dict \<Rightarrow> validation_error list" where
  "check_allowed_properties t props =
     map (\<lambda>n. property_error n
            (CHR 0x22 # n @ CHR 0x22 # '' is not an allowed property of '' @ it_id t)
            PROP_NOT_ALLOWED_ERROR)
       (filter (\<lambda>n. \<not> is_property_or_view (map_of (it_structure t) n)) (dict_keys props))"

definition check_property_access :: "item_type \<Rightarrow> pval dict \<Rightarrow> access \<Rightarrow> validation_error list" where
  "check_property_access t props acc =
     (if acc = PROPERTY_READ then []
      else map (\<lambda>n. property_error n
                  (CHR 0x22 # n @ CHR 0x22 # '' is a read-only view of '' @ it_id t)
                  PROP_NOT_ALLOWED_ERROR)
             (filter (\<lambda>n. is_view_member (map_of (it_structure t) n)) (dict_keys props)))"

text \<open>The first error of the validators of the type, with the name of the property.\<close>

fun run_validators ::
  "environ \<Rightarrow> property_validator list \<Rightarrow> string \<Rightarrow> pval \<Rightarrow> validation_error list res" where
  "run_validators env [] n v = Inr []"
| "run_validators env (d # ds) n v =
     rbind (validate_property env d v) (\<lambda>e.
       case e of Some err \<Rightarrow> Inr [err\<lparr>ve_property_name := Some n\<rparr>]
       | None \<Rightarrow> run_validators env ds n v)"

fun run_property_type_validators ::
  "environ \<Rightarrow> property_type option \<Rightarrow> string \<Rightarrow> pval \<Rightarrow> validation_error list res" where
  "run_property_type_validators env None n v =
     Inl (AttributeError ''NoneType object has no attribute validators'')"
| "run_property_type_validators env (Some p) n v = run_validators env (ptype_validators p) n v"

fun run_property_loop :: "environ \<Rightarrow> field dict \<Rightarrow> pval dict \<Rightarrow> validation_error list res" where
  "run_property_loop env [] props = Inr []"
| "run_property_loop env ((n, f) # fs) props =
     (case (f, map_of props n) of
        (Property p, Some v) \<Rightarrow>
          rbind (run_property_type_validators env (pf_prop_type p) n v) (\<lambda>es.
            rbind (run_property_loop env fs props) (\<lambda>rest. Inr (es @ rest)))
      | _ \<Rightarrow> run_property_loop env fs props)"

definition run_property_validators :: "environ \<Rightarrow> item_type \<Rightarrow> pval dict \<Rightarrow> validation_error list res" where
  "run_property_validators env t props = run_property_loop env (it_structure t) props"

definition missing_property :: "item_type \<Rightarrow> string \<Rightarrow> validation_error" where
  "missing_property t n =
     property_error n (''ItemType '' @ CHR 0x22 # it_id t @ CHR 0x22 #
       '' is required to have a property with name '' @ CHR 0x22 # n @ [CHR 0x22])
       MISSING_REQ_PROP_ERROR"

fun required_without_value :: "pval dict \<Rightarrow> string \<times> field \<Rightarrow> bool" where
  "required_without_value props (n, Property p) \<longleftrightarrow>
     pf_required p \<and> map_of props n = None \<and> \<not> given (pf_default p)"
| "required_without_value props (n, _) \<longleftrightarrow> False"

definition check_required_properties :: "item_type \<Rightarrow> pval dict \<Rightarrow> validation_error list" where
  "check_required_properties t props =
     map (\<lambda>(n, f). missing_property t n) (filter (required_without_value props) (it_structure t))"

fun run_item_validators ::
  "environ \<Rightarrow> item_validator list \<Rightarrow> pval dict \<Rightarrow> validation_error list res" where
  "run_item_validators env [] props = Inr []"
| "run_item_validators env (d # ds) props =
     rbind (validate_item env d props) (\<lambda>e.
       rbind (run_item_validators env ds props) (\<lambda>es.
         Inr (case e of Some err \<Rightarrow> err # es | None \<Rightarrow> es)))"

definition run_item_type_validators :: "environ \<Rightarrow> item_type \<Rightarrow> pval dict \<Rightarrow> validation_error list res" where
  "run_item_type_validators env t props = run_item_validators env (it_validators t) props"

definition validate_properties ::
  "environ \<Rightarrow> item_type \<Rightarrow> pval dict \<Rightarrow> access \<Rightarrow> bool \<Rightarrow> validation_error list res" where
  "validate_properties env t props acc is_reference =
     rbind (run_property_validators env t props) (\<lambda>perrs.
       rbind (if is_reference \<or> perrs \<noteq> [] then Inr [] else run_item_type_validators env t props)
         (\<lambda>ierrs.
           Inr (check_allowed_properties t props @ check_property_access t props acc @ perrs @
                (if is_reference then [] else check_required_properties t props) @ ierrs)))"

text \<open>Whether a property may be taken away: not when the item has no source, the property is
  required and its type gives no default. A view is never required; a child has no default and a
  collection is neither required nor has one, so asking raises; a reference has the default
  \<open>False\<close>.\<close>

fun clear_member :: "bool \<Rightarrow> field \<Rightarrow> bool res" where
  "clear_member sourced (Property p) = Inr (\<not> sourced \<and> pf_required p \<and> pf_default p = None)"
| "clear_member sourced (View w) = Inr False"
| "clear_member sourced (Child c) =
     (if \<not> sourced \<and> cf_required c then Inl (AttributeError ''default'') else Inr False)"
| "clear_member sourced (Collection c) =
     (if \<not> sourced then Inl (AttributeError ''required'') else Inr False)"
| "clear_member sourced (RefCollection c) =
     (if \<not> sourced then Inl (AttributeError ''required'') else Inr False)"
| "clear_member sourced (Reference r) = Inr False"

definition clear_property_validator ::
  "item_type dict \<Rightarrow> store \<Rightarrow> model_item \<Rightarrow> string \<Rightarrow> validation_error list res" where
  "clear_property_validator types st i n =
     rbind (item_type_of types i) (\<lambda>t.
       case map_of (it_structure t) n of
         None \<Rightarrow> Inl (KeyError n)
       | Some f \<Rightarrow> rbind (clear_member (get_source st i \<noteq> None) f) (\<lambda>b.
           Inr (if b then [missing_property t n] else [])))"

section \<open>Items of the model\<close>

text \<open>\<open>item.parent\<close> where the code calls a method of it.\<close>

definition parent_of :: "store \<Rightarrow> model_item \<Rightarrow> string \<Rightarrow> model_item res" where
  "parent_of st i m =
     (case get_parent st i of
        None \<Rightarrow> Inl (AttributeError (''NoneType object has no attribute '' @ m))
      | Some p \<Rightarrow> Inr p)"

fun required_child :: "field \<Rightarrow> (string \<times> string) option" where
  "required_child (Child c) = (if cf_required c then Some (''child'', cf_item_type_id c) else None)"
| "required_child (Reference r) =
     (if rf_required r then Some (''reference'', rf_item_type_id r) else None)"
| "required_child _ = None"

definition missing_child :: "item_type \<Rightarrow> string \<Rightarrow> string \<Rightarrow> string \<Rightarrow> validation_error" where
  "missing_child t n k i =
     item_error (Some []) (''ItemType '' @ CHR 0x22 # it_id t @ CHR 0x22 #
       '' is required to have a '' @ CHR 0x22 # k @ CHR 0x22 # '' with name '' @ CHR 0x22 # n @
       CHR 0x22 # '' and type '' @ CHR 0x22 # i @ [CHR 0x22]) MISSING_REQ_ITEM_ERROR"

definition check_required_child ::
  "store \<Rightarrow> item_type \<Rightarrow> store \<Rightarrow> string \<Rightarrow> field \<Rightarrow> validation_error list res" where
  "check_required_child st t children n f =
     (case required_child f of
        None \<Rightarrow> Inr []
      | Some (k, i) \<Rightarrow>
          (case children_get children n of
             None \<Rightarrow> Inr [missing_child t n k i]
           | Some c \<Rightarrow>
               if mi_state c \<noteq> ForRemoval then Inr []
               else rbind (parent_of st c ''is_for_removal'') (\<lambda>p.
                 Inr (if mi_state p \<noteq> ForRemoval
                      then [item_error (Some (mi_vpath c))
                              ''This item is required and cannot be removed'' MISSING_REQ_ITEM_ERROR]
                      else []))))"

fun check_required_children ::
  "store \<Rightarrow> item_type \<Rightarrow> field dict \<Rightarrow> store \<Rightarrow> validation_error list res" where
  "check_required_children st t [] children = Inr []"
| "check_required_children st t ((n, f) # fs) children =
     rbind (check_required_child st t children n f) (\<lambda>es.
       rbind (check_required_children st t fs children) (\<lambda>rest. Inr (es @ rest)))"

text \<open>The items of a collection that are counted: all of them when the item that holds the
  collection goes, otherwise those that stay.\<close>

definition counted_children :: "store \<Rightarrow> model_item \<Rightarrow> store \<Rightarrow> store res" where
  "counted_children st i children =
     (let staying = filter (\<lambda>c. mi_state c \<notin> {ForRemoval, Removed}) children
      in if \<not> given (mi_parent_vpath i) then Inr staying
         else rbind (parent_of st i ''is_for_removal'') (\<lambda>p.
           Inr (if mi_state p \<in> {ForRemoval, Removed} then children else staying)))"

fun collection_bounds :: "field \<Rightarrow> (int \<times> int) option" where
  "collection_bounds (Collection c) = Some (lf_min_count c, lf_max_count c)"
| "collection_bounds (RefCollection c) = Some (lf_min_count c, lf_max_count c)"
| "collection_bounds _ = None"

definition validate_item_type_instance ::
  "item_type dict \<Rightarrow> store \<Rightarrow> field \<Rightarrow> model_item \<Rightarrow> validation_error list res" where
  "validate_item_type_instance types st f i =
     (case collection_bounds f of
        None \<Rightarrow> Inr []
      | Some (lo, hi) \<Rightarrow>
          rbind (rbind (get_children types st i) (counted_children st i)) (\<lambda>present.
            Inr (if int (length present) < lo
                 then [item_error (Some (mi_vpath i))
                         (''This collection requires a minimum of '' @ str_of_int lo @
                          '' items not marked for removal'') CARDINALITY_ERROR]
                 else if int (length present) > hi
                 then [item_error (Some (mi_vpath i))
                         (''This collection is limited to a maximum of '' @ str_of_int hi @
                          '' items not marked for removal'') CARDINALITY_ERROR]
                 else [])))"

fun validate_instances ::
  "item_type dict \<Rightarrow> store \<Rightarrow> field dict \<Rightarrow> store \<Rightarrow> validation_error list res" where
  "validate_instances types st [] children = Inr []"
| "validate_instances types st ((n, f) # fs) children =
     rbind (case children_get children n of None \<Rightarrow> Inr []
            | Some c \<Rightarrow> validate_item_type_instance types st f c) (\<lambda>es.
       rbind (validate_instances types st fs children) (\<lambda>rest. Inr (es @ rest)))"

definition with_path :: "model_item \<Rightarrow> validation_error \<Rightarrow> validation_error" where
  "with_path i e = (if given (ve_item_path e) then e else e\<lparr>ve_item_path := Some (mi_vpath i)\<rparr>)"

definition validate_item_type ::
  "environ \<Rightarrow> item_type dict \<Rightarrow> store \<Rightarrow> item_type \<Rightarrow> model_item \<Rightarrow> access \<Rightarrow> validation_error list res" where
  "validate_item_type env types st t i acc =
     (if is_collection i then Inr []
      else rbind (get_merged_properties st i True) (\<lambda>props.
        rbind (get_children types st i) (\<lambda>children.
          rbind (check_required_children st t (it_structure t) children) (\<lambda>es1.
            rbind (validate_instances types st (it_structure t) children) (\<lambda>es2.
              rbind (validate_properties env t props acc False) (\<lambda>es3.
                Inr (map (with_path i) es1 @ es2 @
                     map (\<lambda>e. e\<lparr>ve_item_path := Some (mi_vpath i)\<rparr>) es3)))))))"

section \<open>What a validation without errors says\<close>

text \<open>What the checks of the properties look for, said of the type: every name is a property of it,
  every value passes the validators of its property type, what is required is there or has a
  default, and the validators of the item type accept the properties together.\<close>

definition value_ok :: "environ \<Rightarrow> field \<Rightarrow> pval \<Rightarrow> bool" where
  "value_ok env f v \<longleftrightarrow>
     (\<exists>p t. f = Property p \<and> pf_prop_type p = Some t \<and>
       list_all (\<lambda>d. validate_property env d v = Inr None) (ptype_validators t))"

definition well_typed :: "environ \<Rightarrow> item_type \<Rightarrow> pval dict \<Rightarrow> bool" where
  "well_typed env t props \<longleftrightarrow>
     (\<forall>n v. map_of props n = Some v \<longrightarrow>
        (\<exists>f. map_of (it_structure t) n = Some f \<and> value_ok env f v)) \<and>
     (\<forall>n p. map_of (it_structure t) n = Some (Property p) \<longrightarrow> pf_required p \<longrightarrow>
        has_key n props \<or> given (pf_default p)) \<and>
     (\<forall>d \<in> set (it_validators t). validate_item env d props = Inr None)"

lemma run_validators_Nil:
  "run_validators env ds n v = Inr [] \<longleftrightarrow> list_all (\<lambda>d. validate_property env d v = Inr None) ds"
  by (induction ds) (auto simp: rbind_Inr_iff split: option.splits)

lemma run_item_validators_Nil:
  "run_item_validators env ds props = Inr [] \<longleftrightarrow> (\<forall>d \<in> set ds. validate_item env d props = Inr None)"
  by (induction ds) (auto simp: rbind_Inr_iff split: option.splits)

lemma run_property_type_validators_Nil:
  "run_property_type_validators env (pf_prop_type p) n v = Inr [] \<longleftrightarrow> value_ok env (Property p) v"
  by (cases "pf_prop_type p") (auto simp: value_ok_def run_validators_Nil)

lemma run_property_loop_Nil:
  "run_property_loop env fs props = Inr [] \<longleftrightarrow>
    (\<forall>(n, f) \<in> set fs. \<forall>v. is_property f \<longrightarrow> map_of props n = Some v \<longrightarrow> value_ok env f v)"
proof (induction fs)
  case (Cons nf fs)
  obtain n f where nf: "nf = (n, f)" by (cases nf) auto
  show ?case
  proof (cases "is_property f \<and> map_of props n \<noteq> None")
    case True
    then obtain p v where "f = Property p" and "map_of props n = Some v" by (cases f) auto
    with Cons nf show ?thesis
      by (auto simp: rbind_Inr_iff run_property_type_validators_Nil)
  next
    case False
    with Cons nf show ?thesis by (cases f; cases "map_of props n") auto
  qed
qed simp

lemma check_allowed_properties_Nil:
  "check_allowed_properties t props = [] \<longleftrightarrow>
    (\<forall>n \<in> fst ` set props. is_property_or_view (map_of (it_structure t) n))"
  by (auto simp: check_allowed_properties_def filter_empty_conv dict_keys_def)

lemma check_property_access_Nil:
  "check_property_access t props PROPERTY_WRITE = [] \<longleftrightarrow>
    (\<forall>n \<in> fst ` set props. \<not> is_view_member (map_of (it_structure t) n))"
  by (auto simp: check_property_access_def filter_empty_conv dict_keys_def)

lemma allowed_and_writable:
  "is_property_or_view f \<and> \<not> is_view_member f \<longleftrightarrow> (\<exists>p. f = Some (Property p))"
  by (cases f rule: is_property_or_view.cases) auto

lemma check_required_properties_Nil:
  assumes "distinct (map fst (it_structure t))"
  shows "check_required_properties t props = [] \<longleftrightarrow>
    (\<forall>n p. map_of (it_structure t) n = Some (Property p) \<longrightarrow> pf_required p \<longrightarrow>
       has_key n props \<or> given (pf_default p))"
proof -
  have "required_without_value props (n, f) \<longleftrightarrow>
      (\<exists>p. f = Property p \<and> pf_required p \<and> \<not> has_key n props \<and> \<not> given (pf_default p))" for n f
    by (cases f) (auto simp: has_key_def)
  then show ?thesis
    using assms by (fastforce simp: check_required_properties_def filter_empty_conv)
qed

lemma validate_properties_accepts_iff:
  assumes "distinct (map fst (it_structure t))"
  shows "validate_properties env t props PROPERTY_WRITE False = Inr [] \<longleftrightarrow> well_typed env t props"
proof -
  let ?s = "it_structure t"
  have "validate_properties env t props PROPERTY_WRITE False = Inr [] \<longleftrightarrow>
      check_allowed_properties t props = [] \<and> check_property_access t props PROPERTY_WRITE = [] \<and>
      run_property_validators env t props = Inr [] \<and> check_required_properties t props = [] \<and>
      run_item_type_validators env t props = Inr []"
    by (auto simp: validate_properties_def rbind_Inr_iff split: if_splits)
  also have "\<dots> \<longleftrightarrow> well_typed env t props" (is "?l \<longleftrightarrow> _")
  proof -
    have names: "check_allowed_properties t props = [] \<and> check_property_access t props PROPERTY_WRITE = [] \<longleftrightarrow>
        (\<forall>n v. map_of props n = Some v \<longrightarrow> (\<exists>p. map_of ?s n = Some (Property p)))"
      unfolding check_allowed_properties_Nil check_property_access_Nil
      using allowed_and_writable by (metis (no_types, lifting) has_key_def has_key_iff not_Some_eq)
    have vals: "run_property_validators env t props = Inr [] \<longleftrightarrow>
        (\<forall>n f v. map_of ?s n = Some f \<longrightarrow> is_property f \<longrightarrow> map_of props n = Some v \<longrightarrow> value_ok env f v)"
      unfolding run_property_validators_def run_property_loop_Nil using assms by auto
    have "(\<forall>n v. map_of props n = Some v \<longrightarrow> (\<exists>p. map_of ?s n = Some (Property p))) \<and>
        (\<forall>n f v. map_of ?s n = Some f \<longrightarrow> is_property f \<longrightarrow> map_of props n = Some v \<longrightarrow> value_ok env f v) \<longleftrightarrow>
        (\<forall>n v. map_of props n = Some v \<longrightarrow> (\<exists>f. map_of ?s n = Some f \<and> value_ok env f v))"
      by (fastforce simp: value_ok_def)
    with names vals show ?thesis
      unfolding well_typed_def check_required_properties_Nil [OF assms] run_item_type_validators_def
        run_item_validators_Nil
      by argo
  qed
  finally show ?thesis .
qed

text \<open>C12: properties written to an item are accepted without an error exactly when each of them is a
  property of the item type whose value all validators of its property type pass, no required
  property without a default is missing, and the validators of the item type accept them.\<close>

theorem validate_properties_accepts:
  assumes "distinct (map fst (it_structure t))"
  shows "validate_properties env t props PROPERTY_WRITE False = Inr [] \<longleftrightarrow> well_typed env t props"
  using assms by (rule validate_properties_accepts_iff)

definition ex_text :: property_type where
  "ex_text = new_property_type ''text'' None [NotEmptyStringValidator] False None"

definition ex_linked_types :: "item_type dict" where
  "ex_linked_types =
     map (\<lambda>(n, t). (n, t\<lparr>it_structure := map (\<lambda>(m, f). (m, link_property_type [(''text'', ex_text)] f))
       (it_structure t)\<rparr>)) ex_item_types"

definition ex_environ :: environ where
  "ex_environ = \<lparr>env_ip_network = (\<lambda>v n. Inl (NetOtherError [])), env_ip_address = (\<lambda>v. Inl (NetOtherError [])),
     env_valid_ipv4 = (\<lambda>v. False), env_valid_ipv6 = (\<lambda>v. False), env_isdir = (\<lambda>p. False),
     env_property_validator = (\<lambda>n v. Inr None), env_item_validator = (\<lambda>n d. Inr None)\<rparr>"

theorem validate_properties_accepts_witness:
  "\<exists>t. map_of ex_linked_types ''blade'' = Some t \<and> well_typed ex_environ t [(''slot'', VStr ''1'')] \<and>
     \<not> well_typed ex_environ t [(''slot'', VStr [])]"
proof -
  define t where "t = the (map_of ex_linked_types ''blade'')"
  have t: "map_of ex_linked_types ''blade'' = Some t" unfolding t_def by code_simp
  have "distinct (map fst (it_structure t))" unfolding t_def by code_simp
  note accepts = validate_properties_accepts [OF this, of ex_environ]
  have "validate_properties ex_environ t [(''slot'', VStr ''1'')] PROPERTY_WRITE False = Inr []"
    unfolding t_def by code_simp
  moreover have "validate_properties ex_environ t [(''slot'', VStr [])] PROPERTY_WRITE False \<noteq> Inr []"
    unfolding t_def by code_simp
  ultimately show ?thesis using t accepts by blast
qed

section \<open>Items against their types\<close>

lemma get_children_Inr:
  assumes "get_children types st i = Inr cs"
  shows "set cs \<subseteq> {c \<in> set st. mi_parent_vpath c = Some (mi_vpath i)}"
  using assms by (auto simp: get_children_def rbind_Inr_iff bm_query_children_def split: if_splits)

lemma get_children_collection:
  "is_collection c \<Longrightarrow> get_children types st c = Inr (bm_query_children (mi_vpath c) st)"
  by (simp add: get_children_def item_might_have_children_def)

lemma children_get_Some:
  "children_get cs n = Some c \<Longrightarrow> c \<in> set cs \<and> mi_item_id c = n"
  by (auto simp: children_get_def find_Some_iff)

text \<open>C14: a collection is accepted exactly when the number of its items is within the bounds its
  member of the structure sets; items marked for removal or removed are not counted, except where
  the item that holds the collection is itself on its way out.\<close>

theorem collection_cardinality:
  assumes "collection_bounds f = Some (lo, hi)" and "is_collection c" and "get_parent st c = Some p"
  shows "\<exists>es. validate_item_type_instance types st f c = Inr es \<and>
    (es = [] \<longleftrightarrow> (let n = length (filter (\<lambda>i. mi_parent_vpath i = Some (mi_vpath c) \<and>
         (mi_state p \<in> {ForRemoval, Removed} \<or> mi_state i \<notin> {ForRemoval, Removed})) st)
      in lo \<le> int n \<and> int n \<le> hi))"
proof -
  have g: "given (mi_parent_vpath c)" using assms(3) by (auto simp: get_parent_def split: if_splits)
  have "filter (\<lambda>i. mi_state i \<notin> {ForRemoval, Removed}) (bm_query_children (mi_vpath c) st) =
      filter (\<lambda>i. mi_parent_vpath i = Some (mi_vpath c) \<and> mi_state i \<notin> {ForRemoval, Removed}) st"
    by (simp add: bm_query_children_def conj_commute)
  then show ?thesis
    using assms g
    by (auto simp: validate_item_type_instance_def get_children_collection counted_children_def Let_def
        parent_of_def bm_query_children_def)
qed

definition ex_bounded :: field where
  "ex_bounded = Collection \<lparr>lf_item_type_id = ''node'', lf_min_count = 1, lf_max_count = 1, lf_require = None,
     lf_deprecated = False\<rparr>"

theorem collection_cardinality_witness:
  "\<exists>es. validate_item_type_instance [] ex_tree ex_bounded ex_nodes = Inr es \<and> es \<noteq> []"
proof -
  have b: "collection_bounds ex_bounded = Some (1, 1)" by code_simp
  have c: "is_collection ex_nodes" by code_simp
  have p: "get_parent ex_tree ex_nodes = Some ex_root" by code_simp
  have "length (filter (\<lambda>i. mi_parent_vpath i = Some (mi_vpath ex_nodes) \<and>
      (mi_state ex_root \<in> {ForRemoval, Removed} \<or> mi_state i \<notin> {ForRemoval, Removed})) ex_tree) = 2"
    by code_simp
  with collection_cardinality [OF b c p, of "[]"] show ?thesis by (auto simp: Let_def)
qed

lemma check_required_child_Nil:
  assumes "check_required_child st t cs n f = Inr []" and "required_child f = Some (k, m)"
  shows "\<exists>c. children_get cs n = Some c \<and>
    (mi_state c = ForRemoval \<longrightarrow> (\<exists>p. get_parent st c = Some p \<and> mi_state p = ForRemoval))"
  using assms
  by (auto simp: check_required_child_def parent_of_def rbind_Inr_iff split: option.splits if_splits)

lemma check_required_children_Nil:
  "check_required_children st t fs cs = Inr [] \<longleftrightarrow>
    (\<forall>(n, f) \<in> set fs. check_required_child st t cs n f = Inr [])"
  by (induction fs) (auto simp: rbind_Inr_iff)

lemma validate_instances_Nil:
  "validate_instances types st fs cs = Inr [] \<longleftrightarrow>
    (\<forall>(n, f) \<in> set fs. \<forall>c. children_get cs n = Some c \<longrightarrow>
       validate_item_type_instance types st f c = Inr [])"
  by (induction fs) (auto simp: rbind_Inr_iff split: option.splits)

text \<open>C13: an item validated without an error has every required member of its type below it, none
  of them marked for removal unless it is so itself; the bounds of its collections hold; and the
  properties it has of its own and by inheritance are well typed.\<close>

theorem validated_item_sound:
  assumes "validate_item_type env types st t i PROPERTY_WRITE = Inr []" and "\<not> is_collection i"
    and "distinct (map fst (it_structure t))" and "st_get st (mi_vpath i) = Some i" and "mi_vpath i \<noteq> []"
  shows "(\<forall>n f. map_of (it_structure t) n = Some f \<longrightarrow> required_child f \<noteq> None \<longrightarrow>
      (\<exists>c \<in> set st. mi_parent_vpath c = Some (mi_vpath i) \<and> mi_item_id c = n \<and>
         (mi_state c = ForRemoval \<longrightarrow> mi_state i = ForRemoval))) \<and>
    (\<forall>n f c. map_of (it_structure t) n = Some f \<longrightarrow>
       rbind (get_children types st i) (\<lambda>cs. Inr (children_get cs n)) = Inr (Some c) \<longrightarrow>
       validate_item_type_instance types st f c = Inr []) \<and>
    (\<exists>props. get_merged_properties st i True = Inr props \<and> well_typed env t props)"
proof -
  from assms(1,2) obtain props cs where props: "get_merged_properties st i True = Inr props"
    and cs: "get_children types st i = Inr cs"
    and required: "check_required_children st t (it_structure t) cs = Inr []"
    and instances: "validate_instances types st (it_structure t) cs = Inr []"
    and valid: "validate_properties env t props PROPERTY_WRITE False = Inr []"
    by (auto simp: validate_item_type_def rbind_Inr_iff)
  have member: "(n, f) \<in> set (it_structure t)" if "map_of (it_structure t) n = Some f" for n f
    using that by (rule map_of_SomeD)
  have "\<exists>c \<in> set st. mi_parent_vpath c = Some (mi_vpath i) \<and> mi_item_id c = n \<and>
      (mi_state c = ForRemoval \<longrightarrow> mi_state i = ForRemoval)"
    if f: "map_of (it_structure t) n = Some f" and r: "required_child f \<noteq> None" for n f
  proof -
    from r obtain k m where km: "required_child f = Some (k, m)" by (cases "required_child f") auto
    have "check_required_child st t cs n f = Inr []"
      using required member [OF f] by (auto simp: check_required_children_Nil)
    from check_required_child_Nil [OF this km] obtain c where c: "children_get cs n = Some c"
      and gone: "mi_state c = ForRemoval \<longrightarrow> (\<exists>p. get_parent st c = Some p \<and> mi_state p = ForRemoval)" by blast
    from children_get_Some [OF c] get_children_Inr [OF cs]
    have "c \<in> set st" and p: "mi_parent_vpath c = Some (mi_vpath i)" and "mi_item_id c = n" by auto
    moreover from p assms(4,5) have "get_parent st c = Some i" by (simp add: get_parent_def)
    ultimately show ?thesis using gone by auto
  qed
  moreover have "validate_item_type_instance types st f c = Inr []"
    if "map_of (it_structure t) n = Some f" and "children_get cs n = Some c" for n f c
    using instances member [OF that(1)] that(2) by (auto simp: validate_instances_Nil)
  moreover have "well_typed env t props"
    using valid validate_properties_accepts_iff [OF assms(3)] by blast
  ultimately show ?thesis using props cs by auto
qed

text \<open>A root that requires its management server and keeps between one and two nodes.\<close>

definition ex_root_type :: item_type where
  "ex_root_type = \<lparr>it_id = ''root'', it_extend_item = [], it_description = [], it_deprecated = False,
     it_validators = [], it_structure =
       [(''ms'', Child \<lparr>cf_item_type_id = ''ms'', cf_required = True, cf_require = None, cf_deprecated = False\<rparr>),
        (''nodes'', Collection \<lparr>lf_item_type_id = ''node'', lf_min_count = 1, lf_max_count = 2,
           lf_require = None, lf_deprecated = False\<rparr>)]\<rparr>"

definition ex_full_tree :: store where
  "ex_full_tree = st_put (new_model_item ModelItemC ''ms'' ''ms'' (Some ''/'') []) ex_tree"

theorem validated_item_sound_witness:
  "(\<exists>c \<in> set ex_full_tree. mi_parent_vpath c = Some ''/'' \<and> mi_item_id c = ''ms'') \<and>
   well_typed ex_environ ex_root_type []"
proof -
  have valid: "validate_item_type ex_environ [(''root'', ex_root_type)] ex_full_tree ex_root_type ex_root
      PROPERTY_WRITE = Inr []" by code_simp
  have c: "\<not> is_collection ex_root" by code_simp
  have d: "distinct (map fst (it_structure ex_root_type))" by code_simp
  have g: "st_get ex_full_tree (mi_vpath ex_root) = Some ex_root" by code_simp
  have n: "mi_vpath ex_root \<noteq> []" by code_simp
  have v: "mi_vpath ex_root = ''/''" by code_simp
  obtain f where f: "map_of (it_structure ex_root_type) ''ms'' = Some f" and r: "required_child f \<noteq> None"
    by (simp add: ex_root_type_def)
  have m: "get_merged_properties ex_full_tree ex_root True = Inr []" by code_simp
  note sound = validated_item_sound [OF valid c d g n]
  from sound [THEN conjunct1, rule_format, OF f r] v m sound show ?thesis by auto
qed

lemma check_required_children_paths:
  assumes "check_required_children st t fs cs = Inr es" and "e \<in> set es" and "set cs \<subseteq> set st"
  shows "ve_item_path e = Some [] \<or> (\<exists>j \<in> set st. ve_item_path e = Some (mi_vpath j))"
  using assms
proof (induction fs arbitrary: es)
  case (Cons nf fs)
  obtain n f where nf: "nf = (n, f)" by (cases nf) auto
  from Cons.prems(1) obtain es1 es2 where es: "es = es1 @ es2"
    and one: "check_required_child st t cs n f = Inr es1" and rest: "check_required_children st t fs cs = Inr es2"
    by (auto simp: nf rbind_Inr_iff)
  show ?case
  proof (cases "e \<in> set es1")
    case True
    with one Cons.prems(3) show ?thesis
      by (fastforce simp: check_required_child_def item_error_def missing_child_def rbind_Inr_iff
          dest: children_get_Some split: option.splits if_splits)
  next
    case False
    with es Cons.prems(2) have "e \<in> set es2" by simp
    with Cons.IH [OF rest] Cons.prems(3) show ?thesis by blast
  qed
qed simp

lemma validate_instances_paths:
  assumes "validate_instances types st fs cs = Inr es" and "e \<in> set es" and "set cs \<subseteq> set st"
  shows "\<exists>j \<in> set st. ve_item_path e = Some (mi_vpath j)"
  using assms
proof (induction fs arbitrary: es)
  case (Cons nf fs)
  obtain n f where nf: "nf = (n, f)" by (cases nf) auto
  from Cons.prems(1) obtain es1 es2 where es: "es = es1 @ es2"
    and one: "(case children_get cs n of None \<Rightarrow> Inr []
       | Some c \<Rightarrow> validate_item_type_instance types st f c) = Inr es1"
    and rest: "validate_instances types st fs cs = Inr es2"
    by (auto simp: nf rbind_Inr_iff)
  show ?case
  proof (cases "e \<in> set es1")
    case True
    with one obtain c where c: "children_get cs n = Some c"
      and v: "validate_item_type_instance types st f c = Inr es1" by (auto split: option.splits)
    from v True have "ve_item_path e = Some (mi_vpath c)"
      by (auto simp: validate_item_type_instance_def item_error_def rbind_Inr_iff
          split: option.splits if_splits)
    with children_get_Some [OF c] Cons.prems(3) show ?thesis by blast
  next
    case False
    with es Cons.prems(2) have "e \<in> set es2" by simp
    with Cons.IH [OF rest] Cons.prems(3) show ?thesis by blast
  qed
qed simp



end
