(* ===== verification/Model_Update.thy ===== *)
theory Model_Update
  imports Model_Validator
begin

text \<open>
  The updates of \<open>litp/core/model_manager.py\<close>: the checks that guard an operation on an item, the
  validation of an update, the update of an item and of the items that inherit from it, and the
  return of an item marked for removal. An operation takes the table of items and gives it back
  with either the validation errors it returns or the vpath of the item it returns; an exception
  of the code is \<open>Inl\<close>. Items are objects of the session: a change of one is a change of its row.
\<close>

section \<open>The manager and its answers\<close>

record manager =
  mm_env :: environ
  mm_types :: "item_type dict"
  mm_like :: like

type_synonym outcome = "validation_error list + string"

text \<open>A change of the item with vpath \<open>v\<close>.\<close>

definition on_item :: "(store \<Rightarrow> model_item \<Rightarrow> model_item res) \<Rightarrow> string \<Rightarrow> store \<Rightarrow> store res" where
  "on_item f v st =
     (case st_get st v of
        None \<Rightarrow> Inl (AttributeError (''no item '' @ v))
      | Some i \<Rightarrow> rbind (f st i) (\<lambda>j. Inr (st_put j st)))"

text \<open>Reading an answer that was computed.\<close>

lemma accepted_outcome:
  "(case x of Inr (Inr w, st') \<Rightarrow> P w st' | _ \<Rightarrow> False) \<Longrightarrow> \<exists>w st'. x = Inr (Inr w, st') \<and> P w st'"
  for x :: "(outcome \<times> store) res"
proof (cases x)
  case (Inr y)
  moreover assume "case x of Inr (Inr w, st') \<Rightarrow> P w st' | _ \<Rightarrow> False"
  ultimately show ?thesis by (cases "fst y"; cases y) auto
qed simp

lemma refused_outcome:
  "(case x of Inr (Inl es, st') \<Rightarrow> P es st' | _ \<Rightarrow> False) \<Longrightarrow> \<exists>es st'. x = Inr (Inl es, st') \<and> P es st'"
  for x :: "(outcome \<times> store) res"
proof (cases x)
  case (Inr y)
  moreover assume "case x of Inr (Inl es, st') \<Rightarrow> P es st' | _ \<Rightarrow> False"
  ultimately show ?thesis by (cases "fst y"; cases y) auto
qed simp

section \<open>Checks\<close>

text \<open>Checks run until one gives an error.\<close>

definition or_else ::
  "validation_error option res \<Rightarrow> validation_error option res \<Rightarrow> validation_error option res" where
  "or_else a b = rbind a (\<lambda>e. case e of Some err \<Rightarrow> Inr (Some err) | None \<Rightarrow> b)"

definition check_item_type_registered :: "manager \<Rightarrow> string \<Rightarrow> string \<Rightarrow> validation_error option" where
  "check_item_type_registered m ty path =
     (if has_key ty (mm_types m) then None
      else Some (item_error (Some path) (''Item type not registered: '' @ ty) INVALID_TYPE_ERROR))"

definition check_item_exists :: "model_item option \<Rightarrow> string \<Rightarrow> validation_error option" where
  "check_item_exists i path =
     (if i = None then Some (item_error (Some path) ''Path not found'' INVALID_LOCATION_ERROR) else None)"

definition check_child_exists :: "store \<Rightarrow> string \<Rightarrow> validation_error option" where
  "check_child_exists st path =
     (if has_item st path
      then Some (item_error (Some path)
        (''Item already exists in model: '' @ List.last (split_on slash path)) ITEM_EXISTS_ERROR)
      else None)"

definition id_chars :: string where
  "id_chars = ''abcdefghijklmnopqrstuvwxyzABCDEFGHIJKLMNOPQRSTUVWXYZ0123456789_-''"

definition item_id_re :: regex where
  "item_id_re = Seq (Seq (CharIn id_chars) (Star (CharIn id_chars))) End"

definition check_item_id :: "string \<Rightarrow> validation_error option" where
  "check_item_id i =
     (if re_match item_id_re i then None
      else Some (property_error (if i \<noteq> [] then i else ''item id'')
        (''Invalid value for item id: '' @ CHR 0x27 # i @ [CHR 0x27]) VALIDATION_ERROR))"

definition check_has_failed_removal :: "model_item \<Rightarrow> validation_error option" where
  "check_has_failed_removal i =
     (if mi_state i = ForRemoval \<and> mi_previous_state i = Some Removed
      then Some (item_error (Some (mi_vpath i))
        ''Cannot update item which has previously failed removal'' METHOD_NOT_ALLOWED_ERROR)
      else None)"

definition check_is_for_removal :: "model_item \<Rightarrow> string \<Rightarrow> validation_error option" where
  "check_is_for_removal i path =
     (if mi_state i \<noteq> ForRemoval
      then Some (item_error (Some path) (''Item'' @ CHR 0x27 # ''s state is not ForRemoval:'')
        INVALID_REQUEST_ERROR)
      else None)"

definition check_item_is_not_for_removal :: "model_item option \<Rightarrow> string \<Rightarrow> validation_error option" where
  "check_item_is_not_for_removal i path =
     (case i of
        Some j \<Rightarrow>
          if mi_state j = ForRemoval
          then Some (item_error (Some path) (''Item'' @ CHR 0x27 # ''s parent is marked for removal'')
            METHOD_NOT_ALLOWED_ERROR)
          else None
      | None \<Rightarrow> None)"

fun source_for_removal :: "store \<Rightarrow> model_item \<Rightarrow> bool" where
  "source_for_removal st i \<longleftrightarrow>
     (case get_source st i of Some s \<Rightarrow> mi_state s = ForRemoval | None \<Rightarrow> False)"

definition check_source_item_is_not_for_removal ::
  "store \<Rightarrow> model_item \<Rightarrow> string \<Rightarrow> validation_error option" where
  "check_source_item_is_not_for_removal st i path =
     (if source_for_removal st i
      then Some (item_error (Some path)
        (''Item'' @ CHR 0x27 # ''s source item is marked for removal'') METHOD_NOT_ALLOWED_ERROR)
      else None)"

definition check_child_source_item_not_for_removal ::
  "manager \<Rightarrow> store \<Rightarrow> model_item \<Rightarrow> string \<Rightarrow> validation_error option res" where
  "check_child_source_item_not_for_removal m st i path =
     rbind (query_descends (mm_types m) (mm_like m) st i) (\<lambda>ds.
       Inr (if list_ex (source_for_removal st) ds
            then Some (item_error (Some path)
              ''Item has a descendant whose source item is marked for removal'' METHOD_NOT_ALLOWED_ERROR)
            else None))"

definition item_for_removal_exists :: "store \<Rightarrow> string \<Rightarrow> bool" where
  "item_for_removal_exists st path =
     (case get_item st path of Some i \<Rightarrow> mi_state i = ForRemoval | None \<Rightarrow> False)"

definition validate_recover_item ::
  "manager \<Rightarrow> store \<Rightarrow> model_item option \<Rightarrow> string \<Rightarrow> model_item option \<Rightarrow> string \<Rightarrow> validation_error list res" where
  "validate_recover_item m st item path parent parent_path =
     (case item of
        None \<Rightarrow> Inr (case check_item_exists item path of None \<Rightarrow> [] | Some e \<Rightarrow> [e])
      | Some i \<Rightarrow>
          rbind (or_else (Inr (check_item_exists parent parent_path))
            (or_else (Inr (check_is_for_removal i path))
            (or_else (Inr (check_has_failed_removal i))
            (or_else (Inr (check_item_is_not_for_removal parent path))
            (or_else (Inr (check_source_item_is_not_for_removal st i path))
              (check_child_source_item_not_for_removal m st i path))))))
          (\<lambda>e. Inr (case e of None \<Rightarrow> [] | Some err \<Rightarrow> [err])))"

section \<open>Validation of an update\<close>

fun read_only_field :: "field option \<Rightarrow> bool" where
  "read_only_field (Some (RefCollection c)) = lf_read_only c"
| "read_only_field (Some (Reference r)) = rf_read_only r"
| "read_only_field _ = False"

text \<open>Whether the item, or an item above it, is held by a read-only reference. The walk goes up the
  parents, of which there are at most as many as rows.\<close>

fun reference_read_only_fuel ::
  "nat \<Rightarrow> item_type dict \<Rightarrow> store \<Rightarrow> model_item option \<Rightarrow> string \<Rightarrow> bool res" where
  "reference_read_only_fuel n types st None item_id = Inr False"
| "reference_read_only_fuel 0 types st (Some p) item_id = Inl diverges"
| "reference_read_only_fuel (Suc n) types st (Some p) item_id =
     rbind (item_type_of types p) (\<lambda>t.
       if \<not> is_collection p \<and> read_only_field (map_of (it_structure t) item_id) then Inr True
       else reference_read_only_fuel n types st (get_parent st p) (mi_item_id p))"

definition get_reference_read_only :: "item_type dict \<Rightarrow> store \<Rightarrow> model_item option \<Rightarrow> string \<Rightarrow> bool res" where
  "get_reference_read_only types st parent item_id =
     reference_read_only_fuel (length st + 1) types st parent item_id"

definition get_readonly_properties :: "item_type \<Rightarrow> pval dict \<Rightarrow> pval dict" where
  "get_readonly_properties t props =
     filter (\<lambda>(n, v). case as_property (map_of (it_structure t) n) of
               None \<Rightarrow> False | Some p \<Rightarrow> \<not> pf_updatable_rest p) props"

definition update_required :: "store \<Rightarrow> model_item \<Rightarrow> string \<Rightarrow> pval \<Rightarrow> bool res" where
  "update_required st i n v =
     (if mi_state i = Updated
      then Inr (case map_of (get_applied_properties i False) n of None \<Rightarrow> False | Some w \<Rightarrow> v \<noteq> w)
      else rbind (get_merged_properties st i False) (\<lambda>ps.
        Inr (case map_of ps n of None \<Rightarrow> False | Some w \<Rightarrow> v \<noteq> w)))"

definition readonly_error :: "model_item \<Rightarrow> string \<Rightarrow> validation_error" where
  "readonly_error i n =
     \<lparr>ve_item_path = Some (mi_vpath i), ve_property_name = Some n,
      ve_error_message = ''Unable to modify readonly property: '' @ n, ve_error_type = INVALID_REQUEST_ERROR\<rparr>"

definition validate_readonly_properties ::
  "item_type dict \<Rightarrow> store \<Rightarrow> model_item \<Rightarrow> pval dict \<Rightarrow> validation_error list res" where
  "validate_readonly_properties types st i props =
     rbind (item_type_of types i) (\<lambda>t.
       rbind (map_res (\<lambda>(n, v). rbind (update_required st i n v) (\<lambda>b.
                Inr (if b \<and> (is_node types i \<and> n = ''is_locked'' \<or> has_key n (mi_applied_properties i))
                     then [readonly_error i n] else [])))
              (get_readonly_properties t props))
         (\<lambda>ess. Inr (concat ess)))"

definition undeletable :: "model_item \<Rightarrow> string \<Rightarrow> validation_error" where
  "undeletable i n =
     \<lparr>ve_item_path = Some (mi_vpath i), ve_property_name = Some n,
      ve_error_message = ''Unable to delete property: '' @ n, ve_error_type = INVALID_REQUEST_ERROR\<rparr>"

fun combine_properties ::
  "model_item \<Rightarrow> pval dict \<Rightarrow> validation_error list \<times> pval dict \<Rightarrow> validation_error list \<times> pval dict" where
  "combine_properties i [] r = r"
| "combine_properties i ((n, v) # us) (es, d) =
     combine_properties i us
       (if v = VNone \<and> has_key n d then (es, AList.delete n d)
        else if v \<noteq> VNone then (es, AList.update n v d)
        else (es @ [undeletable i n], d))"

definition get_combined_properties :: "model_item \<Rightarrow> pval dict \<Rightarrow> validation_error list \<times> pval dict" where
  "get_combined_properties i updates =
     combine_properties i updates ([], skip_callables True (mi_properties i))"

text \<open>The properties an inheriting item would have: a value \<open>None\<close> is passed over, except where the
  update of its source takes the property away.\<close>

fun merge_update :: "model_item \<Rightarrow> bool \<Rightarrow> pval dict \<Rightarrow> pval dict \<Rightarrow> pval dict res" where
  "merge_update i is_source_update [] d = Inr d"
| "merge_update i is_source_update ((n, v) # us) d =
     (if v = VNone
      then if \<not> has_key n (mi_properties i) \<and> is_source_update
           then if has_key n d then merge_update i is_source_update us (AList.delete n d)
                else Inl (KeyError n)
           else merge_update i is_source_update us d
      else merge_update i is_source_update us (AList.update n v d))"

definition validate_update ::
  "manager \<Rightarrow> store \<Rightarrow> model_item option \<Rightarrow> string \<Rightarrow> pval dict \<Rightarrow> bool \<Rightarrow> bool \<Rightarrow> validation_error list res" where
  "validate_update m st item vpath props validate_readonly is_source_update =
     (case item of
        None \<Rightarrow> Inr (case check_item_exists item vpath of None \<Rightarrow> [] | Some e \<Rightarrow> [e])
      | Some i \<Rightarrow>
          rbind (if props \<noteq> [] then get_reference_read_only (mm_types m) st (get_parent st i) (mi_item_id i)
                 else Inr False) (\<lambda>read_only.
            if read_only
            then Inr [item_error (Some vpath) ''Read-only reference cannot be updated'' VALIDATION_ERROR]
            else if is_collection i
            then Inr [item_error (Some vpath) ''Properties cannot be set on collections'' PROP_NOT_ALLOWED_ERROR]
            else
              rbind (if validate_readonly \<and> (mi_state i \<noteq> Initial \<or> is_node (mm_types m) i)
                     then validate_readonly_properties (mm_types m) st i props else Inr []) (\<lambda>es1.
                rbind (if given (mi_source_vpath i)
                       then rbind (get_merged_properties st i True) (\<lambda>merged.
                         rbind (merge_update i is_source_update props merged) (\<lambda>d. Inr ([], d)))
                       else Inr (get_combined_properties i props)) (\<lambda>(es2, d).
                  rbind (item_type_of (mm_types m) i) (\<lambda>t.
                    rbind (validate_properties (mm_env m) t d PROPERTY_WRITE False) (\<lambda>es3.
                      Inr (es1 @ es2 @ es3)))))))"

definition validate_update_inherited_item ::
  "manager \<Rightarrow> store \<Rightarrow> model_item \<Rightarrow> pval dict \<Rightarrow> bool \<Rightarrow> validation_error list res" where
  "validate_update_inherited_item m st i props validate_readonly =
     validate_update m st (Some i) (mi_vpath i)
       (filter (\<lambda>(n, v). \<not> has_key n (mi_properties i) \<or> v = VNone) props) validate_readonly True"

section \<open>Updating an item and the items that inherit from it\<close>

text \<open>The default of a member of a structure; a reference has the default \<open>False\<close>.\<close>

fun field_default :: "field \<Rightarrow> pval option res" where
  "field_default (Property p) = Inr (if given (pf_default p) then map_option VStr (pf_default p) else None)"
| "field_default (View w) = Inr (Some (VCall (vf_callable w)))"
| "field_default (Reference r) = Inr None"
| "field_default _ = Inl (AttributeError ''default'')"

fun with_defaults :: "field dict \<Rightarrow> pval dict \<Rightarrow> pval dict res" where
  "with_defaults s [] = Inr []"
| "with_defaults s ((n, v) # us) =
     rbind (if v \<noteq> VNone then Inr v
            else case map_of s n of
              None \<Rightarrow> Inr v
            | Some f \<Rightarrow> rbind (field_default f) (\<lambda>d. Inr (case d of None \<Rightarrow> v | Some w \<Rightarrow> w))) (\<lambda>w.
       rbind (with_defaults s us) (\<lambda>rest. Inr ((n, w) # rest)))"

definition apply_inherited_item_non_configs :: "manager \<Rightarrow> pval dict \<Rightarrow> store \<Rightarrow> model_item \<Rightarrow> model_item res" where
  "apply_inherited_item_non_configs m props st i =
     rbind (apply_non_config_properties (mm_types m) st props False i) (\<lambda>(j, b). Inr j)"

definition apply_inherited_items_non_configs :: "manager \<Rightarrow> string list \<Rightarrow> pval dict \<Rightarrow> store \<Rightarrow> store res" where
  "apply_inherited_items_non_configs m vs props =
     for_res (on_item (apply_inherited_item_non_configs m props)) vs"

definition settle_inherited :: "store \<Rightarrow> pval dict \<Rightarrow> model_item \<Rightarrow> model_item res" where
  "settle_inherited st new i =
     (if dict_eq (get_applied_properties i True) new
      then if mi_state i \<in> {Updated, ForRemoval} \<and> mi_apd i then set_applied st i
           else if mi_state i \<in> {Applied, ForRemoval} \<and> \<not> mi_apd i then set_updated st i
           else Inr i
      else if mi_state i = ForRemoval \<and> mi_previous_state i = Some Initial \<and> \<not> mi_apd i
           then set_initial st i
           else if mi_state i \<in> {Applied, ForRemoval} then set_updated st i
           else Inr i)"

definition follow_parent :: "store \<Rightarrow> model_item \<Rightarrow> model_item res" where
  "follow_parent st i =
     rbind (parent_of st i ''is_for_removal'') (\<lambda>p.
       if mi_state p = ForRemoval then set_for_removal st i else Inr i)"

definition set_state_child_collection :: "item_type dict \<Rightarrow> string \<Rightarrow> store \<Rightarrow> store res" where
  "set_state_child_collection types v st =
     (case st_get st v of
        None \<Rightarrow> Inl (AttributeError (''no item '' @ v))
      | Some i \<Rightarrow> rbind (get_children types st i) (\<lambda>cs.
          for_res (on_item (\<lambda>st c. set_state st (mi_state i) c))
            (map mi_vpath (filter is_collection cs)) st))"

definition update_inherited_item_state :: "manager \<Rightarrow> string \<Rightarrow> pval dict \<Rightarrow> store \<Rightarrow> store res" where
  "update_inherited_item_state m v new st =
     rbind (on_item (\<lambda>st i. rbind (settle_inherited st new i) (follow_parent st)) v st)
       (set_state_child_collection (mm_types m) v)"

definition update_inherited_items_state :: "manager \<Rightarrow> string list \<Rightarrow> pval dict \<Rightarrow> store \<Rightarrow> store res" where
  "update_inherited_items_state m vs props =
     for_res (\<lambda>v st.
       case st_get st v of
         None \<Rightarrow> Inl (AttributeError (''no item '' @ v))
       | Some i \<Rightarrow>
           if all_properties_overwritten st i props then Inr st
           else rbind (get_merged_properties st i True) (\<lambda>new. update_inherited_item_state m v new st)) vs"

text \<open>The first errors an inheriting item gives.\<close>

fun validate_inheriting ::
  "manager \<Rightarrow> store \<Rightarrow> pval dict \<Rightarrow> bool \<Rightarrow> store \<Rightarrow> validation_error list res" where
  "validate_inheriting m st props validate_readonly [] = Inr []"
| "validate_inheriting m st props validate_readonly (i # is) =
     rbind (get_merged_properties st i True) (\<lambda>old.
       rbind (validate_update_inherited_item m st i props validate_readonly) (\<lambda>es.
         if es \<noteq> [] then Inr es else validate_inheriting m st props validate_readonly is))"

definition update_item_unchecked :: "manager \<Rightarrow> string \<Rightarrow> pval dict \<Rightarrow> string list \<Rightarrow> store \<Rightarrow> store res" where
  "update_item_unchecked m vpath props inheriting st =
     rbind (on_item (\<lambda>st. update_properties (mm_types m) st props) vpath st) (\<lambda>st.
       rbind (apply_inherited_items_non_configs m inheriting props st)
         (update_inherited_items_state m inheriting props))"

definition update_item_in ::
  "manager \<Rightarrow> string \<Rightarrow> pval dict \<Rightarrow> bool \<Rightarrow> store \<Rightarrow> (outcome \<times> store) res" where
  "update_item_in m vpath props validate_readonly st =
     rbind (validate_update m st (get_item st vpath) vpath props validate_readonly False) (\<lambda>es.
       if es \<noteq> [] then Inr (Inl es, st)
       else case get_item st vpath of
         None \<Rightarrow> Inl (AttributeError ''source_vpath'')
       | Some i \<Rightarrow>
           rbind (if given (mi_source_vpath i) then Inr props
                  else rbind (item_type_of (mm_types m) i) (\<lambda>t. with_defaults (it_structure t) props)) (\<lambda>props.
             rbind (inherited_items_recursive st vpath) (\<lambda>inheriting.
               rbind (validate_inheriting m st props validate_readonly inheriting) (\<lambda>es.
                 if es \<noteq> [] then Inr (Inl es, st)
                 else rbind (update_item_unchecked m vpath props (map mi_vpath inheriting) st) (\<lambda>st.
                   Inr (Inr vpath, st))))))"

section \<open>Taking back a removal\<close>

text \<open>The item, then its children depth first, then the items that inherit from each and set no
  property of their own, return to their previous states. The depth of the tree below an item is
  less than the number of rows.\<close>

definition recover_inheriting :: "string \<Rightarrow> store \<Rightarrow> store res" where
  "recover_inheriting v =
     on_item (\<lambda>st i. if has_overwritten_properties st i then Inr i else set_previous_state st i) v"

fun recover_down_fuel :: "nat \<Rightarrow> item_type dict \<Rightarrow> string \<Rightarrow> store \<Rightarrow> store res" where
  "recover_down_fuel 0 types v st = Inl diverges"
| "recover_down_fuel (Suc n) types v st =
     rbind (on_item set_previous_state v st) (\<lambda>st.
       rbind (case st_get st v of
                None \<Rightarrow> Inl (AttributeError (''no item '' @ v)) | Some i \<Rightarrow> get_children types st i) (\<lambda>cs.
         rbind (for_res (recover_down_fuel n types) (map mi_vpath cs) st) (\<lambda>st.
           rbind (inherited_items_recursive st v) (\<lambda>js.
             for_res recover_inheriting (map mi_vpath js) st))))"

definition recover_item_for_removal_down :: "item_type dict \<Rightarrow> string \<Rightarrow> store \<Rightarrow> store res" where
  "recover_item_for_removal_down types v st = recover_down_fuel (length st + 1) types v st"

definition parent_at :: "store \<Rightarrow> string option \<Rightarrow> model_item option" where
  "parent_at st p = (if given p then get_item st (the p) else None)"

definition recover_item_for_removal ::
  "manager \<Rightarrow> string \<Rightarrow> pval dict \<Rightarrow> bool \<Rightarrow> store \<Rightarrow> (outcome \<times> store) res" where
  "recover_item_for_removal m path props validate_readonly st =
     rbind (split_path path) (\<lambda>(parent_vpath, item_id).
       rbind (validate_recover_item m st (get_item st path) path (parent_at st parent_vpath) item_id) (\<lambda>es.
         if es \<noteq> [] then Inr (Inl es, st)
         else rbind (recover_item_for_removal_down (mm_types m) path st)
                (update_item_in m path props validate_readonly)))"

section \<open>The calls of the clients\<close>

definition update_or_replace_item ::
  "manager \<Rightarrow> string \<Rightarrow> pval dict \<Rightarrow> bool \<Rightarrow> store \<Rightarrow> (outcome \<times> store) res" where
  "update_or_replace_item m vpath props validate_readonly st =
     rbind (validate_update m st (get_item st vpath) vpath props validate_readonly False) (\<lambda>es.
       if es \<noteq> [] then Inr (Inl es, st)
       else if item_for_removal_exists st vpath
       then recover_item_for_removal m vpath props validate_readonly st
       else update_item_in m vpath props validate_readonly st)"

definition update_item :: "manager \<Rightarrow> string \<Rightarrow> pval dict \<Rightarrow> store \<Rightarrow> (outcome \<times> store) res" where
  "update_item m vpath props st = update_or_replace_item m vpath props True st"

text \<open>\<open>item.is_locked\<close>: the value of the property, or \<open>None\<close>.\<close>

definition is_locked_of :: "item_type \<Rightarrow> model_item \<Rightarrow> pval res" where
  "is_locked_of t i =
     (case map_of (it_structure t) ''is_locked'' of
        Some (Property p) \<Rightarrow> Inr (case map_of (mi_properties i) ''is_locked'' of None \<Rightarrow> VNone | Some v \<Rightarrow> v)
      | Some (View w) \<Rightarrow> Inr (VCall (vf_callable w))
      | _ \<Rightarrow> Inl (AttributeError ''is_locked''))"

definition merge_name :: "manager \<Rightarrow> item_type \<Rightarrow> model_item \<Rightarrow> string \<Rightarrow> pval dict \<Rightarrow> pval dict res" where
  "merge_name m t i n d =
     (let d = (if has_key n (it_structure t) then d else AList.delete n d)
      in if n = ''is_locked'' \<and> is_node (mm_types m) i
         then rbind (is_locked_of t i) (\<lambda>v. Inr (AList.update n v d)) else Inr d)"

definition merge_item :: "manager \<Rightarrow> string \<Rightarrow> pval dict \<Rightarrow> store \<Rightarrow> (outcome \<times> store) res" where
  "merge_item m vpath props st =
     rbind (case get_item st vpath of
              None \<Rightarrow> Inr props
            | Some i \<Rightarrow> rbind (item_type_of (mm_types m) i) (\<lambda>t.
                for_res (merge_name m t i) (dict_keys props) props))
       (\<lambda>new. update_or_replace_item m vpath new True st)"

definition replace_value :: "model_item \<Rightarrow> string \<Rightarrow> field \<Rightarrow> pval dict \<Rightarrow> pval dict res" where
  "replace_value i n f d =
     (if has_key n d then Inr d
      else case f of
        Property p \<Rightarrow>
          Inr (if pf_updatable_plugin p \<and> \<not> pf_updatable_rest p \<and> (mi_state i \<noteq> Initial \<or> \<not> mi_apd i) then d
               else if given (pf_default p) then AList.update n (VStr (the (pf_default p))) d
               else AList.update n VNone d)
      | _ \<Rightarrow> Inl (AttributeError ''updatable_plugin''))"

definition replace_name :: "manager \<Rightarrow> item_type \<Rightarrow> model_item \<Rightarrow> string \<Rightarrow> pval dict \<Rightarrow> pval dict res" where
  "replace_name m t i n d =
     (case map_of (it_structure t) n of
        None \<Rightarrow> Inl (KeyError n)
      | Some f \<Rightarrow> rbind (replace_value i n f d) (\<lambda>d.
          if n = ''is_locked'' \<and> is_node (mm_types m) i
          then rbind (is_locked_of t i) (\<lambda>v. Inr (AList.update n v d)) else Inr d))"

definition replace_item :: "manager \<Rightarrow> string \<Rightarrow> pval dict \<Rightarrow> store \<Rightarrow> (outcome \<times> store) res" where
  "replace_item m vpath props st =
     rbind (case get_item st vpath of
              None \<Rightarrow> Inr props
            | Some i \<Rightarrow> rbind (item_type_of (mm_types m) i) (\<lambda>t.
                for_res (replace_name m t i) (dict_keys (get_properties_of i True)) props))
       (\<lambda>new. update_or_replace_item m vpath new True st)"

section \<open>What an update leaves alone\<close>

text \<open>A run from \<open>st\<close> to \<open>st'\<close> leaves the rows where they are and what \<open>g\<close> reads of each.\<close>

definition keeps :: "(model_item \<Rightarrow> 'a) \<Rightarrow> store \<Rightarrow> store \<Rightarrow> bool" where
  "keeps g st st' \<longleftrightarrow>
     (sorted_rows st \<longrightarrow> map mi_vpath st' = map mi_vpath st \<and> map g st' = map g st)"

definition placed_properties where
  "placed_properties i = (mi_place i, mi_properties i)"

lemma keeps_refl [simp, intro]: "keeps g st st"
  by (simp add: keeps_def)

lemma keeps_sorted: "keeps g st st' \<Longrightarrow> sorted_rows st \<Longrightarrow> sorted_rows st'"
  by (auto simp: keeps_def sorted_rows_def)

lemma keeps_trans [trans]: "keeps g st su \<Longrightarrow> keeps g su sv \<Longrightarrow> keeps g st sv"
  using keeps_sorted by (fastforce simp: keeps_def)

lemma map_st_put:
  assumes "sorted_rows st" and "st_get st (mi_vpath j) = Some i" and "g j = g i"
  shows "map g (st_put j st) = map g st"
  using assms
proof (induction st)
  case (Cons k st)
  show ?case
  proof (cases "mi_vpath k = mi_vpath j")
    case True
    with Cons.prems show ?thesis by (simp add: st_get_def)
  next
    case False
    then have i: "st_get st (mi_vpath j) = Some i" using Cons.prems(2) by (simp add: st_get_def)
    then have "mi_vpath k \<le> mi_vpath j" using st_get_Some [OF i] Cons.prems(1) by (auto simp: sorted_rows_def)
    moreover have "sorted_rows st" using Cons.prems(1) by (simp add: sorted_rows_def)
    ultimately show ?thesis using Cons.IH [OF _ i Cons.prems(3)] False by (simp add: not_less [symmetric])
  qed
qed (simp add: st_get_def)

lemma on_item_keeps:
  assumes "on_item f v st = Inr st'" and "\<And>i j. f st i = Inr j \<Longrightarrow> mi_place j = mi_place i \<and> g j = g i"
  shows "keeps g st st'"
proof -
  from assms(1) obtain i j where i: "st_get st v = Some i" and j: "f st i = Inr j" and st': "st' = st_put j st"
    by (auto simp: on_item_def rbind_Inr_iff split: option.splits)
  have v: "mi_vpath j = mi_vpath i" "mi_vpath i = v" "g j = g i"
    using assms(2) [OF j] st_get_Some [OF i] by (auto simp: mi_place_def)
  show ?thesis
    unfolding keeps_def st' using map_st_put [of st j i mi_vpath] map_st_put [of st j i g] i v by simp
qed

lemma for_res_keeps:
  assumes "for_res f xs st = Inr st'" and "\<And>x u w. f x u = Inr w \<Longrightarrow> keeps g u w"
  shows "keeps g st st'"
  using assms(1) by (rule for_res_preorder [where R = "keeps g"]) (use assms(2) keeps_trans in auto)

lemma st_get_same:
  assumes "map mi_vpath su = map mi_vpath st" and "map g su = map g st"
  shows "map_option g (st_get su v) = map_option g (st_get st v)"
  using assms
proof (induction su arbitrary: st)
  case (Cons i su)
  then obtain j st' where "st = j # st'" by (cases st) auto
  with Cons show ?case by (auto simp: st_get_def)
qed simp

lemma keeps_get:
  "keeps g st su \<Longrightarrow> sorted_rows st \<Longrightarrow> map_option g (st_get su v) = map_option g (st_get st v)"
  by (rule st_get_same) (simp_all add: keeps_def)

lemma set_state_keeps: "set_state st new i = Inr j \<Longrightarrow> placed_properties j = placed_properties i"
  by (simp add: placed_properties_def set_state_result)

lemma set_previous_state_keeps: "set_previous_state st i = Inr j \<Longrightarrow> placed_properties j = placed_properties i"
  by (auto simp: set_previous_state_def set_updated_def split: if_splits dest!: set_state_keeps)

lemma settle_inherited_keeps: "settle_inherited st new i = Inr j \<Longrightarrow> placed_properties j = placed_properties i"
  by (auto simp: settle_inherited_def set_state_ops split: if_splits dest!: set_state_keeps)

lemma follow_parent_keeps: "follow_parent st i = Inr j \<Longrightarrow> placed_properties j = placed_properties i"
  by (auto simp: follow_parent_def set_state_ops rbind_Inr_iff split: if_splits dest!: set_state_keeps)

lemma placed_place: "placed_properties j = placed_properties i \<Longrightarrow> mi_place j = mi_place i"
  by (simp add: placed_properties_def)

text \<open>A change of one item that keeps its place and its properties.\<close>

lemma on_item_keeps_placed:
  assumes "on_item f v st = Inr st'" and "\<And>i j. f st i = Inr j \<Longrightarrow> placed_properties j = placed_properties i"
  shows "keeps placed_properties st st'"
  using assms placed_place by (intro on_item_keeps [OF assms(1)]) blast

lemma apply_non_configs_keeps:
  assumes "apply_inherited_items_non_configs m vs props st = Inr st'"
  shows "keeps placed_properties st st'"
  using assms unfolding apply_inherited_items_non_configs_def
  by (rule for_res_keeps)
    (auto intro!: on_item_keeps_placed simp: apply_inherited_item_non_configs_def rbind_Inr_iff
       placed_properties_def dest: apply_non_config_keeps)

lemma child_collections_keeps:
  assumes "set_state_child_collection types v st = Inr st'"
  shows "keeps placed_properties st st'"
proof -
  from assms obtain i where i: "st_get st v = Some i"
    by (auto simp: set_state_child_collection_def split: option.splits)
  with assms obtain cs where "get_children types st i = Inr cs" and
    "for_res (on_item (\<lambda>st c. set_state st (mi_state i) c)) (map mi_vpath (filter is_collection cs)) st = Inr st'"
    by (auto simp: set_state_child_collection_def rbind_Inr_iff)
  then show ?thesis by - (erule for_res_keeps, auto intro!: on_item_keeps_placed dest: set_state_keeps)
qed

lemma inherited_item_state_keeps:
  assumes "update_inherited_item_state m v new st = Inr st'"
  shows "keeps placed_properties st st'"
proof -
  from assms obtain su where su: "on_item (\<lambda>st i. rbind (settle_inherited st new i) (follow_parent st)) v st = Inr su"
    and st': "set_state_child_collection (mm_types m) v su = Inr st'"
    by (auto simp: update_inherited_item_state_def rbind_Inr_iff)
  have "keeps placed_properties st su"
    by (rule on_item_keeps_placed [OF su])
      (auto simp: rbind_Inr_iff dest!: settle_inherited_keeps follow_parent_keeps)
  with child_collections_keeps [OF st'] show ?thesis by (rule keeps_trans [rotated])
qed

lemma inherited_items_state_keeps:
  assumes "update_inherited_items_state m vs props st = Inr st'"
  shows "keeps placed_properties st st'"
  using assms unfolding update_inherited_items_state_def
  by (rule for_res_keeps)
    (auto simp: rbind_Inr_iff split: option.splits if_splits dest: inherited_item_state_keeps)

lemma recover_down_keeps:
  "recover_down_fuel n types v st = Inr st' \<Longrightarrow> keeps placed_properties st st'"
proof (induction n arbitrary: v st st')
  case (Suc n)
  from Suc.prems obtain su where su: "on_item set_previous_state v st = Inr su"
    and rest: "rbind (case st_get su v of
        None \<Rightarrow> Inl (AttributeError (''no item '' @ v)) | Some i \<Rightarrow> get_children types su i) (\<lambda>cs.
      rbind (for_res (recover_down_fuel n types) (map mi_vpath cs) su) (\<lambda>st.
        rbind (inherited_items_recursive st v) (\<lambda>js.
          for_res recover_inheriting (map mi_vpath js) st))) = Inr st'"
    unfolding recover_down_fuel.simps rbind_Inr_iff by blast
  from rest obtain cs js :: store and sv where sv: "for_res (recover_down_fuel n types) (map mi_vpath cs) su = Inr sv"
    and st': "for_res recover_inheriting (map mi_vpath js) sv = Inr st'"
    unfolding rbind_Inr_iff by blast
  have "keeps placed_properties st su"
    using su by (rule on_item_keeps_placed) (rule set_previous_state_keeps)
  also have "keeps placed_properties su sv" using sv by (rule for_res_keeps) (rule Suc.IH)
  also have "keeps placed_properties sv st'"
    using st' by (rule for_res_keeps)
      (auto simp: recover_inheriting_def intro!: on_item_keeps_placed split: if_splits
         dest: set_previous_state_keeps)
  finally show ?case .
qed simp

lemma keeps_placed_place: "keeps placed_properties st su \<Longrightarrow> keeps mi_place st su"
proof -
  assume k: "keeps placed_properties st su"
  have "map mi_place xs = map fst (map placed_properties xs)" for xs
    by (simp add: placed_properties_def)
  with k show ?thesis by (simp only: keeps_def) metis
qed

section \<open>What an update changes\<close>

lemma update_unchecked_cases:
  assumes "update_item_unchecked m v props vs st = Inr st'"
  shows "\<exists>su. on_item (\<lambda>st. update_properties (mm_types m) st props) v st = Inr su \<and>
    keeps placed_properties su st'"
proof -
  from assms obtain su sv where su: "on_item (\<lambda>st. update_properties (mm_types m) st props) v st = Inr su"
    and sv: "apply_inherited_items_non_configs m vs props su = Inr sv"
    and st': "update_inherited_items_state m vs props sv = Inr st'"
    by (auto simp: update_item_unchecked_def rbind_Inr_iff)
  with keeps_trans [OF apply_non_configs_keeps [OF sv] inherited_items_state_keeps [OF st']] su
  show ?thesis by blast
qed

lemma update_item_in_cases:
  assumes "update_item_in m v props vr st = Inr (r, st')"
  shows "(\<exists>es. r = Inl es \<and> es \<noteq> [] \<and> st' = st) \<or>
    (r = Inr v \<and> (\<exists>i ps js. get_item st v = Some i \<and>
       validate_update m st (Some i) v props vr False = Inr [] \<and>
       (if given (mi_source_vpath i) then ps = props
        else \<exists>t. item_type_of (mm_types m) i = Inr t \<and> with_defaults (it_structure t) props = Inr ps) \<and>
       inherited_items_recursive st v = Inr js \<and>
       update_item_unchecked m v ps (map mi_vpath js) st = Inr st'))"
proof -
  from assms obtain es where es: "validate_update m st (get_item st v) v props vr False = Inr es"
    by (auto simp: update_item_in_def rbind_Inr_iff)
  show ?thesis
  proof (cases "es = []")
    case True
    with assms es obtain i where i: "get_item st v = Some i"
      by (auto simp: update_item_in_def split: option.splits)
    with True assms es obtain ps js es' where
      ps: "(if given (mi_source_vpath i) then Inr props
        else rbind (item_type_of (mm_types m) i) (\<lambda>t. with_defaults (it_structure t) props)) = Inr ps"
      and js: "inherited_items_recursive st v = Inr js"
      and "validate_inheriting m st ps vr js = Inr es'"
      and r: "(if es' \<noteq> [] then Inr (Inl es', st)
        else rbind (update_item_unchecked m v ps (map mi_vpath js) st) (\<lambda>st. Inr (Inr v, st))) = Inr (r, st')"
      by (auto simp: update_item_in_def rbind_Inr_iff)
    then show ?thesis
      using i es True by (auto simp: rbind_Inr_iff split: if_splits)
  qed (use assms es in \<open>auto simp: update_item_in_def\<close>)
qed

lemma update_properties_keeps_place:
  "on_item (\<lambda>st. update_properties types st props) v st = Inr su \<Longrightarrow> keeps mi_place st su"
  by (erule on_item_keeps) (use update_properties_keeps in auto)

lemma update_item_in_place:
  assumes "update_item_in m v props vr st = Inr (r, st')"
  shows "keeps mi_place st st'"
  using update_item_in_cases [OF assms]
  by (auto dest!: update_unchecked_cases
      intro: keeps_trans [OF update_properties_keeps_place keeps_placed_place])

lemma recover_place:
  assumes "recover_item_for_removal m v props vr st = Inr (r, st')"
  shows "keeps mi_place st st'"
proof -
  from assms consider "st' = st" | su where "recover_item_for_removal_down (mm_types m) v st = Inr su"
      and "update_item_in m v props vr su = Inr (r, st')"
    by (auto simp: recover_item_for_removal_def rbind_Inr_iff split: if_splits)
  then show ?thesis
  proof cases
    case 2
    then show ?thesis
      unfolding recover_item_for_removal_down_def
      using recover_down_keeps keeps_placed_place update_item_in_place keeps_trans by metis
  qed simp
qed

lemma update_or_replace_cases:
  assumes "update_or_replace_item m v props vr st = Inr (r, st')"
  obtains "st' = st" and "\<exists>es. r = Inl es \<and> es \<noteq> []"
    | "item_for_removal_exists st v" and "recover_item_for_removal m v props vr st = Inr (r, st')"
    | "\<not> item_for_removal_exists st v" and "update_item_in m v props vr st = Inr (r, st')"
  using assms by (auto simp: update_or_replace_item_def rbind_Inr_iff split: if_splits)

lemma update_or_replace_place:
  "update_or_replace_item m v props vr st = Inr (r, st') \<Longrightarrow> keeps mi_place st st'"
  by (erule update_or_replace_cases) (auto dest: recover_place update_item_in_place)

text \<open>C21: whatever an update, a merge or a replacement does, the tree and the inheritance of the model
  stay: the same items remain, in the same places, with the same types and sources.\<close>

theorem updates_keep_places:
  assumes "sorted_rows st"
    and "update_item m v props st = Inr (r, st') \<or> merge_item m v props st = Inr (r, st') \<or>
      replace_item m v props st = Inr (r, st')"
  shows "map mi_place st' = map mi_place st"
proof -
  from assms(2) obtain ps where "update_or_replace_item m v ps True st = Inr (r, st')"
    by (auto simp: update_item_def merge_item_def replace_item_def rbind_Inr_iff)
  from update_or_replace_place [OF this] assms(1) show ?thesis by (simp add: keeps_def)
qed

text \<open>Updates that set values, none of them \<open>None\<close>.\<close>

definition setting :: "pval dict \<Rightarrow> bool" where
  "setting props \<longleftrightarrow> distinct (map fst props) \<and> list_all (\<lambda>(n, v). v \<noteq> VNone \<and> take 1 n \<noteq> ''^'') props"

lemma with_defaults_setting: "setting props \<Longrightarrow> with_defaults s props = Inr props"
  by (induction props) (auto simp: setting_def)

lemma combine_setting:
  "setting props \<Longrightarrow> \<exists>d'. combine_properties i props (es, d) = (es, d') \<and>
    (\<forall>n. map_of d' n = (case map_of props n of Some v \<Rightarrow> Some v | None \<Rightarrow> map_of d n))"
proof (induction props arbitrary: d)
  case (Cons nv props)
  obtain n v where nv: "nv = (n, v)" by (cases nv)
  with Cons.prems have p: "setting props" "v \<noteq> VNone" "map_of props n = None"
    by (auto simp: setting_def map_of_eq_None_iff)
  from Cons.IH [OF p(1), of "AList.update n v d"] obtain d' where
    d': "combine_properties i props (es, AList.update n v d) = (es, d')"
    and map: "\<And>k. map_of d' k =
      (case map_of props k of Some w \<Rightarrow> Some w | None \<Rightarrow> map_of (AList.update n v d) k)" by blast
  have "map_of d' k = (case map_of (nv # props) k of Some w \<Rightarrow> Some w | None \<Rightarrow> map_of d k)" for k
    using map [of k] p(3) by (cases "k = n") (simp_all add: nv split: option.split)
  with d' p(2) show ?case by (simp add: nv)
qed simp

lemma well_typed_cong:
  "map_of d = map_of e \<Longrightarrow> (\<forall>x \<in> set (it_validators t). validate_item env x d = validate_item env x e) \<Longrightarrow>
    well_typed env t d = well_typed env t e"
  by (simp add: well_typed_def has_key_def)

lemma on_item_get:
  assumes "on_item f v st = Inr su" and "sorted_rows st" and "\<And>i j. f st i = Inr j \<Longrightarrow> mi_place j = mi_place i"
  shows "\<exists>i j. st_get st v = Some i \<and> f st i = Inr j \<and> st_get su v = Some j"
proof -
  from assms(1) obtain i j where i: "st_get st v = Some i" and j: "f st i = Inr j" and su: "su = st_put j st"
    by (auto simp: on_item_def rbind_Inr_iff split: option.splits)
  have "mi_vpath j = v" using assms(3) [OF j] st_get_Some [OF i] by (simp add: mi_place_def)
  with i j su show ?thesis using assms(2) by (simp add: store_simps)
qed

lemma validate_update_own:
  assumes "validate_update m st (Some i) v props vr b = Inr []" and "\<not> given (mi_source_vpath i)"
    and "item_type_of (mm_types m) i = Inr t" and "distinct (map fst (it_structure t))"
  shows "\<exists>d. get_combined_properties i props = ([], d) \<and> well_typed (mm_env m) t d"
proof -
  obtain es d where d: "get_combined_properties i props = (es, d)" by fastforce
  with assms(1,2,3) have "es = []" and "validate_properties (mm_env m) t d PROPERTY_WRITE False = Inr []"
    by (auto simp: validate_update_def rbind_Inr_iff split: if_splits)
  with d show ?thesis using validate_properties_accepts_iff [OF assms(4)] by blast
qed

lemma update_item_in_well_typed:
  assumes "update_item_in m v props vr st = Inr (Inr w, st')" and "sorted_rows st" and "get_item st v = Some i"
    and "\<not> given (mi_source_vpath i)" and "plain_item i" and "item_type_of (mm_types m) i = Inr t"
    and "distinct (map fst (it_structure t))" and "setting props"
  shows "\<exists>j d. get_item st' v = Some j \<and> well_typed (mm_env m) t d \<and>
    map_of (get_properties_of j True) = map_of d \<and>
    map_of d = (\<lambda>n. case map_of props n of Some x \<Rightarrow> Some x | None \<Rightarrow> map_of (mi_properties i) n)"
proof -
  from update_item_in_cases [OF assms(1)] assms(3,4,6) obtain js :: store
    where valid: "validate_update m st (Some i) v props vr False = Inr []"
    and run: "update_item_unchecked m v props (map mi_vpath js) st = Inr st'"
    by (auto simp: with_defaults_setting [OF assms(8)])
  have own: "skip_callables True (mi_properties k) = mi_properties k" if "plain_item k" for k
    using that by (simp add: plain_item_dict plain_dict_def)
  obtain d where d: "get_combined_properties i props = ([], d)" and typed: "well_typed (mm_env m) t d"
    using validate_update_own [OF valid assms(4,6,7)] by blast
  have map: "map_of d = (\<lambda>n. case map_of props n of Some x \<Rightarrow> Some x | None \<Rightarrow> map_of (mi_properties i) n)"
    using combine_setting [OF assms(8), of i "[]" "mi_properties i"] d own [OF assms(5)]
    by (auto simp: get_combined_properties_def)
  from update_unchecked_cases [OF run] obtain su where
    su: "on_item (\<lambda>st. update_properties (mm_types m) st props) v st = Inr su"
    and keep: "keeps placed_properties su st'" by blast
  from on_item_get [OF su assms(2)] update_properties_keeps assms(3) obtain k
    where k: "update_properties (mm_types m) st props i = Inr k" and suk: "st_get su v = Some k"
    by (auto simp: get_item_def bm_get_def)
  have "sorted_rows su" using keeps_sorted [OF update_properties_keeps_place [OF su]] assms(2) by blast
  from keeps_get [OF keep this, of v] suk obtain j where j: "st_get st' v = Some j"
    and same: "placed_properties j = placed_properties k" by auto
  have new: "map_of (mi_properties k) n =
      (case map_of props n of Some x \<Rightarrow> Some x | None \<Rightarrow> map_of (mi_properties i) n)" for n
  proof -
    have "assigned t i n x = Some x" if "map_of props n = Some x" for x
      using map_of_SomeD [OF that] assms(8) by (auto simp: setting_def list_all_iff assigned_def)
    then show ?thesis
      using update_properties_map [OF k _ assms(6), of n] assms(8)
      by (auto simp: setting_def split: option.splits)
  qed
  have "plain_item j"
    using update_properties_plain [OF k assms(5)] same by (simp add: placed_properties_def plain_item_dict)
  then have "map_of (get_properties_of j True) = map_of d"
    using own [of j] same new map by (simp add: get_properties_of_def placed_properties_def fun_eq_iff)
  with j typed map show ?thesis by (auto simp: get_item_def bm_get_def)
qed

text \<open>C17: a successful update that sets properties of an item without source leaves it with the properties
  it had and the new values over them, and these are well typed: valid for the item type, with nothing
  required missing. It does so also where the item was marked for removal and is taken back.\<close>

theorem update_well_typed:
  assumes "update_item m v props st = Inr (Inr w, st')" and "sorted_rows st" and "get_item st v = Some i"
    and "\<not> given (mi_source_vpath i)" and "plain_item i" and "item_type_of (mm_types m) i = Inr t"
    and "distinct (map fst (it_structure t))" and "setting props"
  shows "\<exists>j d. get_item st' v = Some j \<and> well_typed (mm_env m) t d \<and>
    map_of (get_properties_of j True) = map_of d \<and>
    map_of d = (\<lambda>n. case map_of props n of Some x \<Rightarrow> Some x | None \<Rightarrow> map_of (mi_properties i) n)"
proof -
  from assms(1) have "update_or_replace_item m v props True st = Inr (Inr w, st')" by (simp add: update_item_def)
  then show ?thesis
  proof (cases rule: update_or_replace_cases)
    case 2
    then obtain su where down: "recover_item_for_removal_down (mm_types m) v st = Inr su"
      and update: "update_item_in m v props True su = Inr (Inr w, st')"
      by (auto simp: recover_item_for_removal_def rbind_Inr_iff split: if_splits)
    have keep: "keeps placed_properties st su"
      using down unfolding recover_item_for_removal_down_def by (rule recover_down_keeps)
    from keeps_get [OF keep assms(2), of v] assms(3) obtain k where k: "get_item su v = Some k"
      and same: "placed_properties k = placed_properties i" by (auto simp: get_item_def bm_get_def)
    from same have "mi_place k = mi_place i" "mi_properties k = mi_properties i"
      by (simp_all add: placed_properties_def)
    moreover from this mi_place_eqD [OF this(1)] assms(4-6) have "\<not> given (mi_source_vpath k)" "plain_item k"
      "item_type_of (mm_types m) k = Inr t" by (simp_all add: plain_item_dict)
    ultimately show ?thesis
      using update_item_in_well_typed [OF update keeps_sorted [OF keep assms(2)] k _ _ _ assms(7,8)]
      by (simp cong: option.case_cong)
  next
    case 3
    then show ?thesis using update_item_in_well_typed assms(2-8) by blast
  qed auto
qed

section \<open>Examples\<close>

text \<open>The types as registration leaves them: the blade has the properties of the node.\<close>

definition ex_registered :: "item_type dict" where
  "ex_registered =
     (case register_item_types (ex_root_type # ex_types)
             \<lparr>reg_item_types = [], reg_property_types = [(''text'', ex_text)]\<rparr> of
        Inr r \<Rightarrow> reg_item_types r | Inl e \<Rightarrow> [])"

definition ex_manager :: manager where
  "ex_manager = \<lparr>mm_env = ex_environ, mm_types = ex_registered, mm_like = column_startswith\<rparr>"

lemma update_example:
  "\<exists>st'. update_item ex_manager ''/nodes/n1'' ex_update ex_tree = Inr (Inr ''/nodes/n1'', st')"
proof -
  have "(case update_item ex_manager ''/nodes/n1'' ex_update ex_tree of
      Inr (Inr w, st') \<Rightarrow> w = ''/nodes/n1'' | _ \<Rightarrow> False)" by code_simp
  then show ?thesis by (auto split: sum.splits prod.splits)
qed

theorem updates_keep_places_witness:
  "\<exists>r st'. update_item ex_manager ''/nodes/n1'' ex_update ex_tree = Inr (r, st') \<and>
    map mi_place st' = map mi_place ex_tree"
  using update_example updates_keep_places [OF ex_tree_sorted, of ex_manager "''/nodes/n1''" ex_update] by blast

theorem update_well_typed_witness:
  "\<exists>st' j. update_item ex_manager ''/nodes/n1'' ex_update ex_tree = Inr (Inr ''/nodes/n1'', st') \<and>
    get_item st' ''/nodes/n1'' = Some j \<and> map_of (get_properties_of j True) ''hostname'' = Some (VStr ''b'')"
proof -
  obtain st' where u: "update_item ex_manager ''/nodes/n1'' ex_update ex_tree = Inr (Inr ''/nodes/n1'', st')"
    using update_example by blast
  have g: "get_item ex_tree ''/nodes/n1'' = Some ex_node" by code_simp
  have n: "\<not> given (mi_source_vpath ex_node)" by code_simp
  have p: "plain_item ex_node" by code_simp
  have "\<not> isl (item_type_of (mm_types ex_manager) ex_node)" by code_simp
  then obtain t where t: "item_type_of (mm_types ex_manager) ex_node = Inr t"
    by (cases "item_type_of (mm_types ex_manager) ex_node") auto
  have "list_all (\<lambda>(k, t). distinct (map fst (it_structure t))) (mm_types ex_manager)" by code_simp
  then have d: "distinct (map fst (it_structure t))"
    using t by (auto simp: item_type_of_def list_all_iff split: option.splits dest!: map_of_SomeD)
  have "setting ex_update" by code_simp
  from update_well_typed [OF u ex_tree_sorted g n p t d this] u show ?thesis
    by (auto simp: ex_update_def)
qed

end
