(* ===== verification/Model_Create.thy ===== *)
theory Model_Create
  imports Model_Update
begin

text \<open>
  The creation of items in \<open>litp/core/model_manager.py\<close>: the checks on a new child, new items with the
  defaults and children their types require, items that inherit from a source with copies of its
  children, and the propagation of a new item to the items that inherit from its parent. Items are
  handled by their vpaths. The iteration over the items that inherit from the parent is done before
  the first of the copies is made; a copy inherits from the new item or from a child of the source,
  so it does not become one of them.
\<close>

section \<open>Checks on a new item\<close>

definition get_complete_properties :: "item_type \<Rightarrow> pval dict \<Rightarrow> pval dict" where
  "get_complete_properties t props =
     dict_update
       (concat (map (\<lambda>(n, f). case f of
            Property p \<Rightarrow> (case pf_default p of None \<Rightarrow> [] | Some d \<Rightarrow> [(n, VStr d)])
          | _ \<Rightarrow> []) (it_structure t)))
       props"

definition quote :: "string \<Rightarrow> string" where
  "quote s = CHR 0x27 # s @ [CHR 0x27]"

text \<open>An inherited collection may only be the member of its parent that is a reference collection.\<close>

fun is_reference_field :: "field \<Rightarrow> bool" where
  "is_reference_field (Reference r) = True"
| "is_reference_field _ = False"

fun is_ref_collection_field :: "field \<Rightarrow> bool" where
  "is_ref_collection_field (RefCollection r) = True"
| "is_ref_collection_field _ = False"

definition check_allowed_child_model_item ::
  "manager \<Rightarrow> model_item \<Rightarrow> string \<Rightarrow> string \<Rightarrow> bool \<Rightarrow> model_item option \<Rightarrow> validation_error list res" where
  "check_allowed_child_model_item m parent ty item_id is_reference source =
     rbind (item_type_of (mm_types m) parent) (\<lambda>pt.
       case map_of (it_structure pt) item_id of
         None \<Rightarrow> Inr [property_error ty
           (quote item_id @ '' (type: '' @ quote ty @ '') is not an allowed child of '' @ mi_vpath parent)
           CHILD_NOT_ALLOWED_ERROR]
       | Some f \<Rightarrow>
           rbind (is_type (mm_types m) ty (field_item_type_id f)) (\<lambda>b. Inr
             (if \<not> b
              then [item_error (mi_parent_vpath parent)
                (quote ty @ '' is not an allowed type for child '' @ quote item_id) INVALID_CHILD_TYPE_ERROR]
              else if is_reference_field f \<and> \<not> is_reference
              then [item_error (Some (mi_vpath parent)) (quote item_id @ '' must be an inherited item'')
                CHILD_NOT_ALLOWED_ERROR]
              else (case source of
                      Some s \<Rightarrow>
                        if is_collection s \<and> is_reference \<and> \<not> is_ref_collection_field f
                        then [item_error (Some (mi_vpath parent))
                          (quote item_id @ '' must not be a reference to a collection of '' @ quote ty)
                          CHILD_NOT_ALLOWED_ERROR]
                        else []
                    | None \<Rightarrow> []))))"

definition check_allowed_child_collection_item ::
  "manager \<Rightarrow> model_item \<Rightarrow> string \<Rightarrow> string \<Rightarrow> bool \<Rightarrow> model_item option \<Rightarrow> validation_error list res" where
  "check_allowed_child_collection_item m parent ty item_id is_reference source =
     rbind (item_type_of (mm_types m) parent) (\<lambda>pt.
       rbind (is_type (mm_types m) ty (it_id pt)) (\<lambda>b. Inr
         (if \<not> b
          then [item_error (Some (mi_vpath parent))
            (quote ty @ '' is not an allowed type for collection of item type '' @ quote (it_id pt))
            INVALID_CHILD_TYPE_ERROR]
          else if is_reference \<and>
            \<not> (given (mi_source_vpath parent) \<and>
              (case source of None \<Rightarrow> False | Some s \<Rightarrow> mi_source_vpath parent = mi_parent_vpath s))
          then [item_error (Some (mi_vpath parent)) (quote item_id @ '' must not be an inherited item'')
            CHILD_NOT_ALLOWED_ERROR]
          else [])))"

definition check_allowed_child_refcollection_item ::
  "manager \<Rightarrow> store \<Rightarrow> model_item \<Rightarrow> string \<Rightarrow> string \<Rightarrow> bool \<Rightarrow> model_item option \<Rightarrow> validation_error list res" where
  "check_allowed_child_refcollection_item m st parent ty item_id is_reference source =
     rbind (item_type_of (mm_types m) parent) (\<lambda>pt.
       rbind (is_type (mm_types m) ty (it_id pt)) (\<lambda>b.
         if \<not> b
         then rbind (parent_of st parent ''vpath'') (\<lambda>p. Inr [item_error (Some (mi_vpath p))
           (quote ty @ '' is not an allowed type for reference collection of item type '' @ quote (it_id pt))
           INVALID_CHILD_TYPE_ERROR])
         else Inr (if \<not> is_reference
           then [item_error (Some (mi_vpath parent)) (quote item_id @ '' must be an inherited item'')
             CHILD_NOT_ALLOWED_ERROR]
           else [])))"

definition check_allowed_child ::
  "manager \<Rightarrow> store \<Rightarrow> model_item \<Rightarrow> string \<Rightarrow> string \<Rightarrow> bool \<Rightarrow> model_item option \<Rightarrow> validation_error list res" where
  "check_allowed_child m st parent ty item_id is_reference source =
     (case mi_class parent of
        RefCollectionItemC \<Rightarrow> check_allowed_child_refcollection_item m st parent ty item_id is_reference source
      | CollectionItemC \<Rightarrow> check_allowed_child_collection_item m parent ty item_id is_reference source
      | ModelItemC \<Rightarrow> check_allowed_child_model_item m parent ty item_id is_reference source)"

definition validate_create ::
  "manager \<Rightarrow> store \<Rightarrow> string \<Rightarrow> string \<Rightarrow> model_item option \<Rightarrow> string \<Rightarrow> pval dict \<Rightarrow> validation_error list res" where
  "validate_create m st ty path parent item_id props =
     rbind (or_else (Inr (case parent of
                None \<Rightarrow> None
              | Some p \<Rightarrow>
                  if given (mi_source_vpath p)
                  then Some (item_error (Some path) (''Can'' @ CHR 0x27 # ''t create items under inherited items'')
                    METHOD_NOT_ALLOWED_ERROR)
                  else None))
       (or_else (Inr (check_item_type_registered m ty path))
       (or_else (Inr (check_item_id item_id))
       (or_else (Inr (check_item_exists parent path))
       (or_else (Inr (check_item_is_not_for_removal parent path))
         (Inr (check_child_exists st path))))))) (\<lambda>e.
       case (e, parent) of
         (Some err, _) \<Rightarrow> Inr [err]
       | (None, None) \<Rightarrow> Inl (AttributeError ''structure'')
       | (None, Some p) \<Rightarrow>
           rbind (check_allowed_child m st p ty item_id False None) (\<lambda>es.
             if es \<noteq> [] then Inr es
             else case map_of (mm_types m) ty of
               None \<Rightarrow> Inl (KeyError ty)
             | Some t \<Rightarrow>
                 validate_properties (mm_env m) t (get_complete_properties t props) PROPERTY_WRITE False))"

definition not_empty :: "pval dict \<Rightarrow> pval dict" where
  "not_empty props = filter (\<lambda>(n, v). truthy v) props"

definition validate_inherited ::
  "manager \<Rightarrow> store \<Rightarrow> string \<Rightarrow> string \<Rightarrow> model_item option \<Rightarrow> string \<Rightarrow> pval dict \<Rightarrow> validation_error list res" where
  "validate_inherited m st source_path path parent item_id props =
     rbind (if props \<noteq> [] then get_reference_read_only (mm_types m) st parent item_id else Inr False) (\<lambda>read_only.
       let source = get_item st source_path in
       rbind (or_else (Inr (if read_only
                then Some (item_error (Some path) ''Read-only reference cannot be created with properties''
                  VALIDATION_ERROR) else None))
         (or_else (Inr (if source = None
                then Some (item_error (Some source_path)
                  (''Source item '' @ source_path @ '' doesn'' @ CHR 0x27 # ''t exist'') INVALID_LOCATION_ERROR)
                else None))
         (or_else (Inr (case source of
                None \<Rightarrow> None
              | Some s \<Rightarrow>
                  if mi_state s = ForRemoval
                  then Some (item_error (Some path)
                    (''Can'' @ CHR 0x27 # ''t inherit item that is marked for removal'') METHOD_NOT_ALLOWED_ERROR)
                  else None))
         (or_else (Inr (case (parent, source) of
                (Some p, Some s) \<Rightarrow>
                  if given (mi_source_vpath p) \<and> mi_source_vpath p \<noteq> mi_parent_vpath s
                  then Some (item_error (Some path) ''Cannot re-inherit item from different source''
                    METHOD_NOT_ALLOWED_ERROR)
                  else None
              | _ \<Rightarrow> None))
         (or_else (Inr (check_item_id item_id))
         (or_else (Inr (check_item_exists parent path))
         (or_else (Inr (check_item_is_not_for_removal parent path))
           (Inr (check_child_exists st path))))))))) (\<lambda>e.
         case (e, parent, source) of
           (Some err, _, _) \<Rightarrow> Inr [err]
         | (None, Some p, Some s) \<Rightarrow>
             rbind (check_allowed_child m st p (mi_item_type_id s) item_id True (Some s)) (\<lambda>es.
               if es \<noteq> [] then Inr es
               else rbind (get_merged_properties st s True) (\<lambda>merged.
                 rbind (item_type_of (mm_types m) s) (\<lambda>t.
                   validate_properties (mm_env m) t (dict_update merged (not_empty props)) PROPERTY_WRITE False)))
         | _ \<Rightarrow> Inl (AttributeError ''item_type_id'')))"

section \<open>New items\<close>

definition create_of_class ::
  "item_class \<Rightarrow> string option \<Rightarrow> item_type \<Rightarrow> string \<Rightarrow> pval dict \<Rightarrow> store \<Rightarrow> string \<times> store" where
  "create_of_class c parent_vpath t item_id props st =
     (let i = new_model_item c (it_id t) item_id parent_vpath props in (mi_vpath i, bm_add i st))"

definition create_single_model_item where
  "create_single_model_item = create_of_class ModelItemC"

definition create_collection_item where
  "create_collection_item = create_of_class CollectionItemC"

definition create_refcollection_item where
  "create_refcollection_item = create_of_class RefCollectionItemC"

definition set_source :: "string \<Rightarrow> store \<Rightarrow> model_item \<Rightarrow> model_item res" where
  "set_source v st i = Inr (i\<lparr>mi_source_vpath := Some v\<rparr>)"

text \<open>The item, then what its type requires below it: defaults of its properties, required children and
  theirs, and the collections. A chain of required children longer than the number of types does not
  end.\<close>

definition set_default :: "item_type dict \<Rightarrow> string \<Rightarrow> property_field \<Rightarrow> store \<Rightarrow> model_item \<Rightarrow> model_item res" where
  "set_default types n p st i =
     (if given (pf_default p) \<and> \<not> has_key n (mi_properties i)
      then set_property types st n (VStr (the (pf_default p))) False i else Inr i)"

text \<open>One member of the structure; \<open>create\<close> makes an item of a type with everything below it.\<close>

fun create_member ::
  "(string option \<Rightarrow> string \<Rightarrow> string \<Rightarrow> pval dict \<Rightarrow> string option \<Rightarrow> store \<Rightarrow> (string list \<times> store) res) \<Rightarrow>
    item_type dict \<Rightarrow> string \<Rightarrow> string \<times> field \<Rightarrow> string list \<times> store \<Rightarrow> (string list \<times> store) res" where
  "create_member create types v (name, Property p) (vs, st) =
     rbind (on_item (set_default types name p) v st) (\<lambda>st. Inr (vs, st))"
| "create_member create types v (name, Child c) (vs, st) =
     (if cf_required c
      then rbind (create (Some v) (cf_item_type_id c) name [] None st) (\<lambda>(ws, st). Inr (vs @ ws, st))
      else Inr (vs, st))"
| "create_member create types v (name, Collection c) (vs, st) =
     (case map_of types (lf_item_type_id c) of
        None \<Rightarrow> Inl (KeyError (lf_item_type_id c))
      | Some ct \<Rightarrow> let (w, st) = create_collection_item (Some v) ct name [] st in Inr (vs @ [w], st))"
| "create_member create types v (name, RefCollection c) (vs, st) =
     (case map_of types (lf_item_type_id c) of
        None \<Rightarrow> Inl (KeyError (lf_item_type_id c))
      | Some ct \<Rightarrow> let (w, st) = create_refcollection_item (Some v) ct name [] st in Inr (vs @ [w], st))"
| "create_member create types v (name, View w) (vs, st) = Inr (vs, st)"
| "create_member create types v (name, Reference r) (vs, st) = Inr (vs, st)"

fun create_model_item_fuel ::
  "nat \<Rightarrow> item_type dict \<Rightarrow> string option \<Rightarrow> string \<Rightarrow> string \<Rightarrow> pval dict \<Rightarrow> string option \<Rightarrow> store \<Rightarrow>
    (string list \<times> store) res" where
  "create_model_item_fuel 0 types parent_vpath ty item_id props source st = Inl diverges"
| "create_model_item_fuel (Suc n) types parent_vpath ty item_id props source st =
     (case map_of types ty of
        None \<Rightarrow> Inl (ValueError (''item type '' @ ty @ '' is not registered''))
      | Some t \<Rightarrow>
          let (v, st) = create_single_model_item parent_vpath t item_id props st in
          case source of
            Some sv \<Rightarrow> rbind (on_item (set_source sv) v st) (\<lambda>st. Inr ([v], st))
          | None \<Rightarrow>
              for_res (create_member (create_model_item_fuel n types) types v) (it_structure t) ([v], st))"

definition create_model_item ::
  "item_type dict \<Rightarrow> string option \<Rightarrow> string \<Rightarrow> string \<Rightarrow> pval dict \<Rightarrow> string option \<Rightarrow> store \<Rightarrow>
    (string list \<times> store) res" where
  "create_model_item types = create_model_item_fuel (length types + 1) types"

definition create_root_item :: "manager \<Rightarrow> string \<Rightarrow> pval dict \<Rightarrow> store \<Rightarrow> (string \<times> store) res" where
  "create_root_item m ty props st =
     rbind (create_model_item (mm_types m) None ty [] props None st) (\<lambda>(vs, st). Inr (hd vs, st))"

definition create_core_root_items :: "manager \<Rightarrow> store \<Rightarrow> store res" where
  "create_core_root_items m st = rbind (create_root_item m ''root'' [] st) (\<lambda>(v, st). Inr st)"

text \<open>Copies of the children of the source of an item that are not marked for removal, each inheriting
  from the child it copies, depth first.\<close>

definition copy_of :: "model_item \<Rightarrow> string option \<Rightarrow> item_type \<Rightarrow> store \<Rightarrow> string \<times> store" where
  "copy_of child parent_vpath t st =
     (case mi_class child of
        CollectionItemC \<Rightarrow> create_collection_item parent_vpath t (mi_item_id child) [] st
      | RefCollectionItemC \<Rightarrow> create_refcollection_item parent_vpath t (mi_item_id child) [] st
      | ModelItemC \<Rightarrow> create_single_model_item parent_vpath t (mi_item_id child) [] st)"

fun copy_children_fuel :: "nat \<Rightarrow> item_type dict \<Rightarrow> string \<Rightarrow> store \<Rightarrow> (string list \<times> store) res" where
  "copy_children_fuel 0 types v st = Inl diverges"
| "copy_children_fuel (Suc n) types v st =
     (case map_option (get_source st) (st_get st v) of
        Some (Some source) \<Rightarrow>
          rbind (get_children types st source) (\<lambda>children.
            for_res (\<lambda>child (vs, st).
              rbind (item_type_of types child) (\<lambda>t.
                let (w, st) = copy_of child (Some v) t st in
                rbind (on_item (set_source (mi_vpath child)) w st) (\<lambda>st.
                  rbind (copy_children_fuel n types w st) (\<lambda>(ws, st). Inr (vs @ w # ws, st)))))
              (filter (\<lambda>c. mi_state c \<noteq> ForRemoval) children) ([], st))
      | _ \<Rightarrow> Inl (AttributeError ''children of None''))"

definition create_children_from_source_item :: "item_type dict \<Rightarrow> string \<Rightarrow> store \<Rightarrow> (string list \<times> store) res" where
  "create_children_from_source_item types v st = copy_children_fuel (length st + 1) types v st"

definition create_children_from_source_items :: "item_type dict \<Rightarrow> string list \<Rightarrow> store \<Rightarrow> (string list \<times> store) res" where
  "create_children_from_source_items types vs st =
     for_res (\<lambda>v (ws, st).
       rbind (create_children_from_source_item types v st) (\<lambda>(us, st). Inr (ws @ us, st))) vs ([], st)"

definition create_inherited_tree ::
  "item_type dict \<Rightarrow> string \<Rightarrow> string \<Rightarrow> string \<Rightarrow> pval dict \<Rightarrow> store \<Rightarrow> (string list \<times> store) res" where
  "create_inherited_tree types source_path parent_vpath item_id props st =
     (case get_item st source_path of
        None \<Rightarrow> Inl (AttributeError ''item_type_id'')
      | Some s \<Rightarrow>
          rbind (create_model_item types (Some parent_vpath) (mi_item_type_id s) item_id props (Some (mi_vpath s)) st)
            (\<lambda>(vs, st).
              rbind (create_children_from_source_items types vs st) (\<lambda>(ws, st). Inr (vs @ ws, st))))"

text \<open>A copy below every item that inherits from the parent.\<close>

definition propagate ::
  "item_type dict \<Rightarrow> string \<Rightarrow> string \<Rightarrow> string \<Rightarrow> store \<Rightarrow> store res" where
  "propagate types parent_vpath path item_id st =
     rbind (inherited_items_recursive st parent_vpath) (\<lambda>js.
       for_res (\<lambda>j st. rbind (create_inherited_tree types path j item_id [] st) (\<lambda>(vs, st). Inr st))
         (map mi_vpath js) st)"

section \<open>The calls of the clients\<close>

text \<open>A node is created unlocked, whatever the client asks for.\<close>

definition unlock_node :: "item_type dict \<Rightarrow> pval dict \<Rightarrow> store \<Rightarrow> model_item \<Rightarrow> model_item res" where
  "unlock_node types props st i =
     (if has_key ''is_locked'' props \<and> is_node types i
      then rbind (item_type_of types i) (\<lambda>t.
        case as_property (map_of (it_structure t) ''is_locked'') of
          None \<Rightarrow> Inl (KeyError ''is_locked'')
        | Some p \<Rightarrow> set_property types st ''is_locked''
            (case pf_default p of None \<Rightarrow> VNone | Some d \<Rightarrow> VStr d) False i)
      else Inr i)"

definition create_new_item :: "manager \<Rightarrow> string \<Rightarrow> string \<Rightarrow> pval dict \<Rightarrow> store \<Rightarrow> (outcome \<times> store) res" where
  "create_new_item m ty path props st =
     rbind (split_path path) (\<lambda>(parent_vpath, item_id).
       let parent = parent_at st parent_vpath in
       rbind (validate_create m st ty path parent item_id props) (\<lambda>es.
         if es \<noteq> [] then Inr (Inl es, st)
         else rbind (create_model_item (mm_types m) (map_option mi_vpath parent) ty item_id props None st)
           (\<lambda>(vs, st).
             rbind (on_item (unlock_node (mm_types m) props) (hd vs) st) (\<lambda>st.
               rbind (case parent of None \<Rightarrow> Inl (AttributeError ''vpath'')
                      | Some p \<Rightarrow> propagate (mm_types m) (mi_vpath p) path item_id st) (\<lambda>st.
                 Inr (Inr (hd vs), st))))))"

definition create_item :: "manager \<Rightarrow> string \<Rightarrow> string \<Rightarrow> pval dict \<Rightarrow> store \<Rightarrow> (outcome \<times> store) res" where
  "create_item m ty path props st =
     (if item_for_removal_exists st path then recover_item_for_removal m path props True st
      else create_new_item m ty path props st)"

definition create_new_inherited :: "manager \<Rightarrow> string \<Rightarrow> string \<Rightarrow> pval dict \<Rightarrow> store \<Rightarrow> (outcome \<times> store) res" where
  "create_new_inherited m source_path path props st =
     rbind (split_path path) (\<lambda>(parent_vpath, item_id).
       let parent = parent_at st parent_vpath; source_path = rstrip_slash source_path in
       rbind (validate_inherited m st source_path path parent item_id props) (\<lambda>es.
         if es \<noteq> [] then Inr (Inl es, st)
         else case parent of
           None \<Rightarrow> Inl (AttributeError ''vpath'')
         | Some p \<Rightarrow>
             rbind (create_inherited_tree (mm_types m) source_path (mi_vpath p) item_id props st) (\<lambda>(vs, st).
               rbind (propagate (mm_types m) (mi_vpath p) path item_id st) (\<lambda>st. Inr (Inr (hd vs), st)))))"

definition create_inherited :: "manager \<Rightarrow> string \<Rightarrow> string \<Rightarrow> pval dict \<Rightarrow> store \<Rightarrow> (outcome \<times> store) res" where
  "create_inherited m source_path path props st =
     (case get_item st path of
        Some i \<Rightarrow>
          if mi_state i \<noteq> ForRemoval then create_new_inherited m source_path path props st
          else if \<not> given (mi_source_vpath i)
          then Inr (Inl [item_error (Some path) (''Item already exists in model: '' @ mi_item_id i)
            ITEM_EXISTS_ERROR], st)
          else if mi_source_vpath i \<noteq> Some source_path
          then Inr (Inl [item_error (Some path) ''Cannot re-inherit item from different source''
            METHOD_NOT_ALLOWED_ERROR], st)
          else recover_item_for_removal m path props True st
      | None \<Rightarrow> create_new_inherited m source_path path props st)"

section \<open>The shape of the model\<close>

text \<open>A model is a table of rows in which every item but the root is filed below an item, and every
  source is an item. \<open>row_ok\<close> says it of one row.\<close>

definition vpaths :: "store \<Rightarrow> string set" where
  "vpaths st = mi_vpath ` set st"

definition row_ok :: "store \<Rightarrow> model_item \<Rightarrow> bool" where
  "row_ok st i \<longleftrightarrow>
     (mi_vpath i = ''/'' \<and> mi_parent_vpath i = None \<or>
      (\<exists>p. mi_parent_vpath i = Some p \<and> p \<in> vpaths st \<and> mi_item_id i \<noteq> [] \<and>
         slash \<notin> set (mi_item_id i) \<and> mi_vpath i = construct_vpath (mi_item_id i) (Some p))) \<and>
     (given (mi_source_vpath i) \<longrightarrow> the (mi_source_vpath i) \<in> vpaths st)"

definition model_ok :: "store \<Rightarrow> bool" where
  "model_ok st \<longleftrightarrow> sorted_rows st \<and> (\<forall>i \<in> set st. row_ok st i)"

lemma model_ok_tree: "model_ok st \<Longrightarrow> tree_rows st"
  unfolding model_ok_def row_ok_def tree_rows_def vpaths_def using st_get_None_iff by metis

lemma vpaths_iff: "v \<in> vpaths st \<longleftrightarrow> st_get st v \<noteq> None"
  by (simp add: vpaths_def st_get_None_iff)

lemma row_ok_mono: "row_ok st i \<Longrightarrow> vpaths st \<subseteq> vpaths su \<Longrightarrow> row_ok su i"
  by (auto simp: row_ok_def)

lemma row_ok_place: "mi_place i = mi_place j \<Longrightarrow> row_ok st i = row_ok st j"
  by (simp add: row_ok_def mi_place_def)

text \<open>A step to a model that has all the items.\<close>

definition grown :: "store \<Rightarrow> store \<Rightarrow> bool" where
  "grown st su \<longleftrightarrow> (model_ok st \<longrightarrow> model_ok su \<and> vpaths st \<subseteq> vpaths su)"

lemma grown_refl [simp]: "grown st st"
  by (simp add: grown_def)

lemma grown_trans [trans]: "grown st su \<Longrightarrow> grown su sv \<Longrightarrow> grown st sv"
  by (auto simp: grown_def)

lemma grownD: "grown st su \<Longrightarrow> model_ok st \<Longrightarrow> model_ok su \<and> vpaths st \<subseteq> vpaths su"
  by (simp add: grown_def)

lemma keeps_grown:
  assumes "keeps mi_place st su"
  shows "grown st su"
proof -
  have "model_ok su \<and> vpaths st \<subseteq> vpaths su" if ok: "model_ok st"
  proof
    have maps: "map mi_vpath su = map mi_vpath st" "map mi_place su = map mi_place st"
      using assms ok by (simp_all add: keeps_def model_ok_def)
    then have v: "vpaths su = vpaths st" unfolding vpaths_def by (metis set_map)
    then show "vpaths st \<subseteq> vpaths su" by simp
    have "\<exists>j \<in> set st. mi_place i = mi_place j" if "i \<in> set su" for i
      using that maps(2) by (metis imageE image_eqI set_map)
    then have "\<forall>i \<in> set su. row_ok su i"
      using ok v row_ok_mono row_ok_place unfolding model_ok_def by (metis order_refl)
    then show "model_ok su" using keeps_sorted [OF assms] ok by (simp add: model_ok_def)
  qed
  then show ?thesis by (simp add: grown_def)
qed

lemma put_ok:
  assumes "model_ok st" and "row_ok st i"
  shows "model_ok (st_put i st)" and "vpaths (st_put i st) = insert (mi_vpath i) (vpaths st)"
proof -
  have s: "sorted_rows st" using assms(1) by (simp add: model_ok_def)
  note set = set_st_put [OF s, of i]
  show v: "vpaths (st_put i st) = insert (mi_vpath i) (vpaths st)"
    unfolding vpaths_def set by auto
  have "row_ok (st_put i st) j" if "j \<in> set (st_put i st)" for j
    using that set assms row_ok_mono [of st _ "st_put i st"] v by (auto simp: model_ok_def)
  then show "model_ok (st_put i st)" using sorted_st_put [OF s] by (simp add: model_ok_def)
qed

lemma on_item_grown:
  assumes "on_item f v st = Inr su" and "model_ok st" and "\<And>i j. f st i = Inr j \<Longrightarrow> row_ok st i \<Longrightarrow> row_ok st j"
  shows "model_ok su \<and> vpaths st \<subseteq> vpaths su"
proof -
  from assms(1) obtain i j where i: "st_get st v = Some i" and j: "f st i = Inr j" and su: "su = st_put j st"
    by (auto simp: on_item_def rbind_Inr_iff split: option.splits)
  have "row_ok st i" using st_get_Some [OF i] assms(2) by (auto simp: model_ok_def)
  then have "row_ok st j" using assms(3) [OF j] by blast
  then show ?thesis using put_ok [OF assms(2)] su by auto
qed

lemma set_source_grown:
  assumes "on_item (set_source s) v st = Inr su" and "model_ok st" and "s \<in> vpaths st"
  shows "model_ok su \<and> vpaths st \<subseteq> vpaths su"
  using assms(1,2) by (rule on_item_grown) (use assms(3) in \<open>auto simp: set_source_def row_ok_def\<close>)

lemma set_default_place: "set_default types n p st i = Inr j \<Longrightarrow> mi_place j = mi_place i"
  by (auto simp: set_default_def split: if_splits dest!: set_property_keeps)

lemma set_default_grown:
  "on_item (set_default types n p) v st = Inr su \<Longrightarrow> model_ok st \<Longrightarrow> model_ok su \<and> vpaths st \<subseteq> vpaths su"
  by (erule on_item_grown) (use set_default_place row_ok_place in blast)+

text \<open>Where an item may be created: the root, or below an item under an id without a slash.\<close>

definition place_ok :: "store \<Rightarrow> string option \<Rightarrow> string \<Rightarrow> bool" where
  "place_ok st pv i \<longleftrightarrow>
     pv = None \<and> i = [] \<or> (\<exists>p. pv = Some p \<and> p \<in> vpaths st \<and> i \<noteq> [] \<and> slash \<notin> set i)"

text \<open>A structure is a dictionary whose keys are names of the declaring code.\<close>

definition names_ok :: "item_type dict \<Rightarrow> bool" where
  "names_ok types \<longleftrightarrow>
     (\<forall>(k, t) \<in> set types. distinct (map fst (it_structure t)) \<and>
        (\<forall>(n, f) \<in> set (it_structure t). n \<noteq> [] \<and> slash \<notin> set n))"

lemma names_okD:
  "names_ok types \<Longrightarrow> map_of types k = Some t \<Longrightarrow> (n, f) \<in> set (it_structure t) \<Longrightarrow> n \<noteq> [] \<and> slash \<notin> set n"
  by (fastforce simp: names_ok_def dest: map_of_SomeD)

lemma create_of_class_ok:
  assumes "create_of_class c pv t i props st = (v, su)" and "model_ok st" and "place_ok st pv i"
  shows "model_ok su \<and> vpaths su = insert v (vpaths st) \<and> v = construct_vpath i pv"
proof -
  let ?i = "new_model_item c (it_id t) i pv props"
  have "row_ok st ?i"
    using assms(3) unfolding place_ok_def
  proof
    assume "pv = None \<and> i = []"
    then show ?thesis by (simp add: row_ok_def new_model_item_def construct_vpath_def)
  next
    assume "\<exists>p. pv = Some p \<and> p \<in> vpaths st \<and> i \<noteq> [] \<and> slash \<notin> set i"
    then show ?thesis by (auto simp: row_ok_def new_model_item_def)
  qed
  from put_ok [OF assms(2) this] assms(1) show ?thesis
    by (auto simp: create_of_class_def Let_def bm_add_def new_model_item_def)
qed

lemmas create_class_defs = create_single_model_item_def create_collection_item_def create_refcollection_item_def

text \<open>The items made so far: the first is \<open>v\<close>, all are rows.\<close>

definition made :: "store \<Rightarrow> string \<Rightarrow> string list \<times> store \<Rightarrow> bool" where
  "made st v = (\<lambda>(vs, u). model_ok u \<and> insert v (vpaths st) \<subseteq> vpaths u \<and> vs \<noteq> [] \<and> hd vs = v \<and>
     set vs \<subseteq> vpaths u)"

lemma create_member_made:
  assumes "create_member create types v nf (ws, u) = Inr y" and "made st v (ws, u)"
    and "fst nf \<noteq> []" and "slash \<notin> set (fst nf)"
    and "\<And>ty i us u'. create (Some v) ty i [] None u = Inr (us, u') \<Longrightarrow> place_ok u (Some v) i \<Longrightarrow>
      model_ok u' \<and> vpaths u \<subseteq> vpaths u' \<and> set us \<subseteq> vpaths u'"
  shows "made st v y"
proof -
  obtain name f where nf: "nf = (name, f)" by fastforce
  have u: "model_ok u" "v \<in> vpaths u" using assms(2) by (auto simp: made_def)
  then have place: "place_ok u (Some v) name" using assms(3,4) by (auto simp: nf place_ok_def)
  have one: "made st v (ws @ [w], u')" if "create_of_class c (Some v) ct name [] u = (w, u')" for c ct w u'
    using create_of_class_ok [OF that u(1) place] assms(2) by (auto simp: made_def)
  show ?thesis
  proof (cases f)
    case (Property p)
    with assms(1) obtain u' where u': "on_item (set_default types name p) v u = Inr u'" "y = (ws, u')"
      by (auto simp: nf rbind_Inr_iff)
    from set_default_grown [OF u'(1) u(1)] assms(2) u' show ?thesis by (auto simp: made_def)
  next
    case (Child c)
    then have "y = (ws, u) \<or> (\<exists>us u'. create (Some v) (cf_item_type_id c) name [] None u = Inr (us, u') \<and>
        y = (ws @ us, u'))"
      using assms(1) by (auto simp: nf rbind_Inr_iff split: if_splits)
    then show ?thesis using assms(2) assms(5) [OF _ place] by (fastforce simp: made_def)
  next
    case (Collection c)
    with assms(1) obtain ct w u' where "create_of_class CollectionItemC (Some v) ct name [] u = (w, u')"
      and "y = (ws @ [w], u')" by (auto simp: nf create_class_defs split: option.splits prod.splits)
    with one show ?thesis by blast
  next
    case (RefCollection c)
    with assms(1) obtain ct w u' where "create_of_class RefCollectionItemC (Some v) ct name [] u = (w, u')"
      and "y = (ws @ [w], u')" by (auto simp: nf create_class_defs split: option.splits prod.splits)
    with one show ?thesis by blast
  qed (use assms(1,2) in \<open>auto simp: nf\<close>)
qed

lemma create_model_item_ok:
  assumes "create_model_item_fuel n types pv ty i props source st = Inr (vs, su)"
    and "names_ok types" and "model_ok st" and "place_ok st pv i"
    and "\<forall>s. source = Some s \<longrightarrow> s \<in> vpaths st"
  shows "made st (construct_vpath i pv) (vs, su)"
  using assms
proof (induction n arbitrary: pv ty i props source st vs su)
  case (Suc n)
  from Suc.prems(1) obtain t where t: "map_of types ty = Some t" by (auto split: option.splits)
  obtain v sv where new: "create_of_class ModelItemC pv t i props st = (v, sv)" by fastforce
  have ok: "model_ok sv" "vpaths sv = insert v (vpaths st)" and v: "v = construct_vpath i pv"
    using create_of_class_ok [OF new Suc.prems(3,4)] by auto
  show ?case
  proof (cases source)
    case (Some s)
    with Suc.prems(1) t new obtain u where u: "on_item (set_source s) v sv = Inr u" "su = u" "vs = [v]"
      by (auto simp: create_class_defs rbind_Inr_iff)
    have "s \<in> vpaths sv" using Suc.prems(5) Some ok(2) by simp
    from set_source_grown [OF u(1) ok(1) this] ok u v show ?thesis by (auto simp: made_def)
  next
    case None
    have "for_res (create_member (create_model_item_fuel n types) types v) (it_structure t) ([v], sv) = Inr (vs, su)"
      using Suc.prems(1) t new None by (simp add: create_class_defs)
    then show ?thesis unfolding v [symmetric]
    proof (rule for_res_invariant)
      show "made st v ([v], sv)" using ok by (auto simp: made_def)
      fix nf x y assume nf: "nf \<in> set (it_structure t)" and x: "made st v x"
        and step: "create_member (create_model_item_fuel n types) types v nf x = Inr y"
      obtain ws u where x': "x = (ws, u)" by fastforce
      have named: "fst nf \<noteq> []" "slash \<notin> set (fst nf)"
        using names_okD [OF Suc.prems(2) t, of "fst nf" "snd nf"] nf by simp_all
      have "model_ok u" using x by (auto simp: x' made_def)
      with step x named show "made st v y" unfolding x'
        by (rule_tac create_member_made) (auto simp: made_def dest!: Suc.IH [OF _ Suc.prems(2)])
    qed
  qed
qed simp

text \<open>The items copied so far are rows.\<close>

definition copied :: "store \<Rightarrow> string list \<times> store \<Rightarrow> bool" where
  "copied st = (\<lambda>(vs, u). model_ok u \<and> vpaths st \<subseteq> vpaths u \<and> set vs \<subseteq> vpaths u)"

lemma copy_of_ok:
  assumes "copy_of c (Some v) t st = (w, su)" and "model_ok st" and "v \<in> vpaths st"
    and "mi_item_id c \<noteq> []" and "slash \<notin> set (mi_item_id c)"
  shows "model_ok su \<and> vpaths su = insert w (vpaths st)"
proof -
  from assms(1) have "create_of_class (mi_class c) (Some v) t (mi_item_id c) [] st = (w, su)"
    by (cases "mi_class c") (auto simp: copy_of_def create_class_defs)
  moreover have "place_ok st (Some v) (mi_item_id c)" using assms(3-5) by (simp add: place_ok_def)
  ultimately show ?thesis using create_of_class_ok assms(2) by blast
qed

lemma child_named:
  assumes "model_ok st" and "c \<in> set st" and "mi_parent_vpath c = Some p"
  shows "mi_item_id c \<noteq> [] \<and> slash \<notin> set (mi_item_id c)"
  using assms by (auto simp: model_ok_def row_ok_def)

lemma copy_children_ok:
  assumes "copy_children_fuel n types v st = Inr (vs, su)" and "model_ok st"
  shows "copied st (vs, su)"
  using assms
proof (induction n arbitrary: v st vs su)
  case (Suc n)
  let ?f = "\<lambda>child (vs, st).
    rbind (item_type_of types child) (\<lambda>t.
      let (w, st) = copy_of child (Some v) t st in
      rbind (on_item (set_source (mi_vpath child)) w st) (\<lambda>st.
        rbind (copy_children_fuel n types w st) (\<lambda>(ws, st). Inr (vs @ w # ws, st))))"
  from Suc.prems(1) obtain i source where i: "st_get st v = Some i" and source: "get_source st i = Some source"
    by (auto split: option.splits)
  with Suc.prems(1) obtain cs where cs: "get_children types st source = Inr cs"
    and loop: "for_res ?f (filter (\<lambda>c. mi_state c \<noteq> ForRemoval) cs) ([], st) = Inr (vs, su)"
    by (auto simp: rbind_Inr_iff)
  show ?case
    using loop
  proof (rule for_res_invariant)
    show "copied st ([], st)" using Suc.prems(2) by (simp add: copied_def)
    fix c x y assume c: "c \<in> set (filter (\<lambda>c. mi_state c \<noteq> ForRemoval) cs)" and x: "copied st x" and step: "?f c x = Inr y"
    obtain us u where x': "x = (us, u)" by fastforce
    have u: "model_ok u" "vpaths st \<subseteq> vpaths u" using x by (auto simp: x' copied_def)
    have c': "c \<in> set st" "mi_parent_vpath c = Some (mi_vpath source)" using get_children_Inr [OF cs] c by auto
    from step obtain t where t: "item_type_of types c = Inr t" by (auto simp: x' rbind_Inr_iff)
    obtain w u1 where w: "copy_of c (Some v) t u = (w, u1)" by fastforce
    from step t w have rest: "rbind (on_item (set_source (mi_vpath c)) w u1) (\<lambda>st.
        rbind (copy_children_fuel n types w st) (\<lambda>(ws, st). Inr (us @ w # ws, st))) = Inr y"
      by (simp add: x')
    from rest obtain u2 ws u3 where u2: "on_item (set_source (mi_vpath c)) w u1 = Inr u2"
      and u3: "copy_children_fuel n types w u2 = Inr (ws, u3)" and y: "y = (us @ w # ws, u3)"
      by (auto simp: rbind_Inr_iff)
    have "v \<in> vpaths st" using i by (simp add: vpaths_iff)
    with u(2) have "v \<in> vpaths u" by blast
    from copy_of_ok [OF w u(1) this] child_named [OF Suc.prems(2) c'] have u1: "model_ok u1" "vpaths u1 = insert w (vpaths u)"
      by auto
    have "mi_vpath c \<in> vpaths u1" using c'(1) u(2) u1(2) by (auto simp: vpaths_def)
    from set_source_grown [OF u2 u1(1) this] have "model_ok u2" "vpaths u1 \<subseteq> vpaths u2" by auto
    with Suc.IH [OF u3] u1 u(2) x show "copied st y" by (auto simp: y x' copied_def)
  qed
qed simp

lemma create_children_ok:
  "create_children_from_source_item types v st = Inr (vs, su) \<Longrightarrow> model_ok st \<Longrightarrow> copied st (vs, su)"
  unfolding create_children_from_source_item_def by (rule copy_children_ok)

lemma create_inherited_tree_ok:
  assumes "create_inherited_tree types s p i props st = Inr (vs, su)"
    and "names_ok types" and "model_ok st" and "place_ok st (Some p) i"
  shows "made st (construct_vpath i (Some p)) (vs, su)"
proof -
  from assms(1) obtain source us u ws where source: "get_item st s = Some source"
    and us: "create_model_item types (Some p) (mi_item_type_id source) i props (Some (mi_vpath source)) st = Inr (us, u)"
    and ws: "create_children_from_source_items types us u = Inr (ws, su)" and vs: "vs = us @ ws"
    by (auto simp: create_inherited_tree_def rbind_Inr_iff split: option.splits)
  have "mi_vpath source \<in> vpaths st"
    using source st_get_Some by (auto simp: vpaths_def get_item_def bm_get_def)
  then have m: "made st (construct_vpath i (Some p)) (us, u)"
    using create_model_item_ok us assms(2-4) unfolding create_model_item_def by blast
  from ws have "for_res (\<lambda>v (ws, st). rbind (create_children_from_source_item types v st)
      (\<lambda>(us, st). Inr (ws @ us, st))) us ([], u) = Inr (ws, su)"
    by (simp add: create_children_from_source_items_def)
  then have "copied u (ws, su)"
  proof (rule for_res_invariant)
    show "copied u ([], u)" using m by (simp add: made_def copied_def)
    fix v x y assume "copied u x" and "(\<lambda>(ws, st). rbind (create_children_from_source_item types v st)
      (\<lambda>(us, st). Inr (ws @ us, st))) x = Inr y"
    moreover obtain vs' u' where x: "x = (vs', u')" by fastforce
    ultimately obtain us' u'' where "create_children_from_source_item types v u' = Inr (us', u'')"
      and y: "y = (vs' @ us', u'')" and ok: "copied u (vs', u')"
      by (auto simp: rbind_Inr_iff)
    then have "copied u' (us', u'')"
      by (intro create_children_ok) (simp_all add: copied_def)
    with ok show "copied u y" by (auto simp: y copied_def)
  qed
  with m show ?thesis by (auto simp: made_def copied_def vs)
qed

lemma inherited_rows_fuel: "inherited_fuel n st v = Inr js \<Longrightarrow> set js \<subseteq> set st"
proof (induction n arbitrary: v js)
  case (Suc n)
  let ?one = "\<lambda>i. rbind (inherited_fuel n st (mi_vpath i)) (\<lambda>js. Inr (i # js))"
  from Suc.prems obtain jss where jss: "map_res ?one (bm_query_inherited v st) = Inr jss" and js: "js = concat jss"
    by (auto simp: rbind_Inr_iff)
  have "set ks \<subseteq> set st" if ks: "ks \<in> set jss" for ks
  proof -
    from map_res_member [OF jss ks] obtain i where "i \<in> set (bm_query_inherited v st)" and "?one i = Inr ks"
      by blast
    moreover from this obtain us where "inherited_fuel n st (mi_vpath i) = Inr us" and "ks = i # us"
      by (auto simp: rbind_Inr_iff)
    ultimately show ?thesis using Suc.IH by (auto simp: bm_query_inherited_def)
  qed
  then show ?case by (auto simp: js)
qed simp

lemma inherited_rows: "inherited_items_recursive st v = Inr js \<Longrightarrow> set js \<subseteq> set st"
  unfolding inherited_items_recursive_def by (rule inherited_rows_fuel)

lemma propagate_ok:
  assumes "propagate types p path i st = Inr su" and "names_ok types" and "model_ok st"
    and "i \<noteq> []" and "slash \<notin> set i"
  shows "model_ok su \<and> vpaths st \<subseteq> vpaths su"
proof -
  from assms(1) obtain js where js: "inherited_items_recursive st p = Inr js"
    and loop: "for_res (\<lambda>j st. rbind (create_inherited_tree types path j i [] st) (\<lambda>(vs, st). Inr st))
      (map mi_vpath js) st = Inr su"
    by (auto simp: propagate_def rbind_Inr_iff)
  have rows: "set js \<subseteq> set st" using js by (rule inherited_rows)
  show ?thesis
    using loop
  proof (rule for_res_invariant [where P = "\<lambda>u. model_ok u \<and> vpaths st \<subseteq> vpaths u"])
    fix j x y assume j: "j \<in> set (map mi_vpath js)" and x: "model_ok x \<and> vpaths st \<subseteq> vpaths x"
      and step: "rbind (create_inherited_tree types path j i [] x) (\<lambda>(vs, st). Inr st) = Inr y"
    from step obtain vs where c: "create_inherited_tree types path j i [] x = Inr (vs, y)"
      by (auto simp: rbind_Inr_iff)
    have "j \<in> vpaths st" using j rows by (auto simp: vpaths_def)
    then have "place_ok x (Some j) i" using x assms(4,5) by (auto simp: place_ok_def)
    from create_inherited_tree_ok [OF c assms(2) _ this] x
    show "model_ok y \<and> vpaths st \<subseteq> vpaths y" by (auto simp: made_def)
  qed (use assms(3) in simp)
qed

text \<open>An id the check lets through is not empty and has no slash; it may end with a newline.\<close>

lemma star_chars:
  assumes "j \<in> set (star_ends (\<lambda>i. if i < length s \<and> s ! i \<in> set cs then [Suc i] else []) n i)"
  shows "i \<le> j \<and> (\<forall>k. i \<le> k \<longrightarrow> k < j \<longrightarrow> s ! k \<in> set cs)"
  using assms
proof (induction n arbitrary: i)
  case (Suc n)
  then have "j = i \<or> i < length s \<and> s ! i \<in> set cs \<and> j \<in> set (star_ends (\<lambda>i. if i < length s \<and> s ! i \<in> set cs then [Suc i] else []) n (Suc i))"
    by (auto split: if_splits)
  then show ?case
  proof (elim disjE conjE)
    assume "s ! i \<in> set cs" and "j \<in> set (star_ends (\<lambda>i. if i < length s \<and> s ! i \<in> set cs then [Suc i] else []) n (Suc i))"
    with Suc.IH [of "Suc i"] show ?thesis by (metis Suc_leD Suc_le_eq le_neq_implies_less)
  qed simp
qed simp

lemma item_id_chars:
  assumes "re_match item_id_re i"
  shows "i \<noteq> [] \<and> set i \<subseteq> insert newline (set id_chars)"
proof -
  from assms obtain j where first: "0 < length i" "i ! 0 \<in> set id_chars"
    and star: "j \<in> set (star_ends (\<lambda>k. if k < length i \<and> i ! k \<in> set id_chars then [Suc k] else [])
      (length i) (Suc 0))"
    and last: "j = length i \<or> Suc j = length i \<and> i ! j = newline"
    by (auto simp: re_match_def item_id_re_def split: if_splits)
  have "i ! k \<in> insert newline (set id_chars)" if "k < length i" for k
  proof (cases "k = 0 \<or> k = j")
    case True
    then show ?thesis using first last that by auto
  next
    case False
    then have "Suc 0 \<le> k" "k < j" using last that by auto
    then show ?thesis using star_chars [OF star] by blast
  qed
  then have "set i \<subseteq> insert newline (set id_chars)" by (metis in_set_conv_nth subsetI)
  then show ?thesis using first by auto
qed

lemma check_item_id_None:
  assumes "check_item_id i = None"
  shows "i \<noteq> [] \<and> slash \<notin> set i"
proof -
  have "slash \<notin> insert newline (set id_chars)" by (simp add: slash_def newline_def id_chars_def)
  then show ?thesis using assms item_id_chars by (auto simp: check_item_id_def split: if_splits)
qed

lemma or_else_None: "or_else a b = Inr None \<longleftrightarrow> a = Inr None \<and> b = Inr None"
  by (auto simp: or_else_def rbind_Inr_iff split: option.splits)

lemma validate_create_Nil:
  assumes "validate_create m st ty path parent i props = Inr []"
  shows "\<exists>p. parent = Some p \<and> check_item_id i = None"
  using assms
  by (auto simp: validate_create_def rbind_Inr_iff or_else_None split: option.splits)

lemma validate_inherited_Nil:
  assumes "validate_inherited m st source path parent i props = Inr []"
  shows "\<exists>p. parent = Some p \<and> check_item_id i = None"
  using assms
  by (auto simp: validate_inherited_def rbind_Inr_iff or_else_None Let_def split: option.splits)

section \<open>What a creation does to the model\<close>

lemma unlock_node_place: "unlock_node types props st i = Inr j \<Longrightarrow> mi_place j = mi_place i"
  by (auto simp: unlock_node_def rbind_Inr_iff split: if_splits option.splits dest!: set_property_keeps)

lemma parent_at_rows: "parent_at st pv = Some p \<Longrightarrow> mi_vpath p \<in> vpaths st"
  by (auto simp: parent_at_def get_item_def bm_get_def vpaths_def dest: st_get_Some split: if_splits)

lemma create_new_item_grown:
  assumes "create_new_item m ty path props st = Inr (r, st')" and "names_ok (mm_types m)" and "model_ok st"
  shows "model_ok st' \<and> vpaths st \<subseteq> vpaths st'"
proof -
  from assms(1) obtain pv i es where split: "split_path path = Inr (pv, i)"
    and es: "validate_create m st ty path (parent_at st pv) i props = Inr es"
    by (auto simp: create_new_item_def rbind_Inr_iff Let_def)
  show ?thesis
  proof (cases "es = []")
    case True
    with validate_create_Nil es obtain p where p: "parent_at st pv = Some p" and i: "check_item_id i = None" by blast
    with assms(1) split es True obtain vs u u' where
      made: "create_model_item (mm_types m) (Some (mi_vpath p)) ty i props None st = Inr (vs, u)"
      and unlock: "on_item (unlock_node (mm_types m) props) (hd vs) u = Inr u'"
      and spread: "propagate (mm_types m) (mi_vpath p) path i u' = Inr st'"
      by (auto simp: create_new_item_def rbind_Inr_iff)
    have named: "i \<noteq> []" "slash \<notin> set i" using check_item_id_None [OF i] by auto
    then have "place_ok st (Some (mi_vpath p)) i" using parent_at_rows [OF p] by (simp add: place_ok_def)
    from create_model_item_ok [OF made [unfolded create_model_item_def] assms(2,3) this]
    have u: "model_ok u" "vpaths st \<subseteq> vpaths u" by (auto simp: made_def)
    have "keeps mi_place u u'" by (rule on_item_keeps [OF unlock]) (use unlock_node_place in auto)
    with u grownD [OF keeps_grown] have "model_ok u'" "vpaths st \<subseteq> vpaths u'" by blast+
    with propagate_ok [OF spread assms(2) _ named] show ?thesis by blast
  qed (use assms split es in \<open>auto simp: create_new_item_def\<close>)
qed

lemma create_new_inherited_grown:
  assumes "create_new_inherited m source path props st = Inr (r, st')" and "names_ok (mm_types m)" and "model_ok st"
  shows "model_ok st' \<and> vpaths st \<subseteq> vpaths st'"
proof -
  from assms(1) obtain pv i es where split: "split_path path = Inr (pv, i)"
    and es: "validate_inherited m st (rstrip_slash source) path (parent_at st pv) i props = Inr es"
    by (auto simp: create_new_inherited_def rbind_Inr_iff Let_def)
  show ?thesis
  proof (cases "es = []")
    case True
    with validate_inherited_Nil es obtain p where p: "parent_at st pv = Some p" and i: "check_item_id i = None" by blast
    with assms(1) split es True obtain vs u where
      made: "create_inherited_tree (mm_types m) (rstrip_slash source) (mi_vpath p) i props st = Inr (vs, u)"
      and spread: "propagate (mm_types m) (mi_vpath p) path i u = Inr st'"
      by (auto simp: create_new_inherited_def rbind_Inr_iff)
    have named: "i \<noteq> []" "slash \<notin> set i" using check_item_id_None [OF i] by auto
    then have "place_ok st (Some (mi_vpath p)) i" using parent_at_rows [OF p] by (simp add: place_ok_def)
    from create_inherited_tree_ok [OF made assms(2,3) this]
    have "model_ok u" "vpaths st \<subseteq> vpaths u" by (auto simp: made_def)
    with propagate_ok [OF spread assms(2) _ named] show ?thesis by blast
  qed (use assms split es in \<open>auto simp: create_new_inherited_def\<close>)
qed

lemma creation_grown:
  assumes "model_ok st" and "names_ok (mm_types m)"
    and "create_item m ty path props st = Inr (r, st') \<or> create_inherited m source path props st = Inr (r, st')"
  shows "model_ok st' \<and> vpaths st \<subseteq> vpaths st'"
proof -
  have recover: ?thesis if "recover_item_for_removal m path props True st = Inr (r, st')"
    using grownD [OF keeps_grown [OF recover_place [OF that]] assms(1)] .
  from assms(3) consider "recover_item_for_removal m path props True st = Inr (r, st')" | "st' = st"
    | "create_new_item m ty path props st = Inr (r, st')"
    | "create_new_inherited m source path props st = Inr (r, st')"
    by (auto simp: create_item_def create_inherited_def split: if_splits option.splits)
  then show ?thesis
    by cases (use recover create_new_item_grown create_new_inherited_grown assms(1,2) in blast)+
qed

text \<open>C20: creating items, with all that is created below them and in the items that inherit, keeps the
  model a tree of vpaths whose sources exist, and takes no item away.\<close>

theorem creation_keeps_model:
  assumes "model_ok st" and "names_ok (mm_types m)"
    and "create_item m ty path props st = Inr (r, st') \<or> create_inherited m source path props st = Inr (r, st')"
  shows "model_ok st' \<and> vpaths st \<subseteq> vpaths st'"
  using assms by (rule creation_grown)

section \<open>What a creation leaves alone\<close>

text \<open>The vpath \<open>v\<close> and everything below it.\<close>

definition tree_prefix :: "string \<Rightarrow> string" where
  "tree_prefix v = (if v = ''/'' then ''/'' else v @ ''/'')"

definition touched :: "string \<Rightarrow> string \<Rightarrow> bool" where
  "touched v u \<longleftrightarrow> u = v \<or> prefix (tree_prefix v) u"

definition framed :: "string \<Rightarrow> store \<Rightarrow> store \<Rightarrow> bool" where
  "framed v st su \<longleftrightarrow>
     (sorted_rows st \<longrightarrow> sorted_rows su \<and> (\<forall>u. \<not> touched v u \<longrightarrow> st_get su u = st_get st u))"

lemma framed_refl [simp]: "framed v st st"
  by (simp add: framed_def)

lemma framed_trans [trans]: "framed v st su \<Longrightarrow> framed v su sv \<Longrightarrow> framed v st sv"
  by (simp add: framed_def)

lemma construct_vpath_child:
  "i \<noteq> [] \<Longrightarrow> p \<noteq> [] \<Longrightarrow> construct_vpath i (Some p) = tree_prefix p @ i"
  by (simp add: construct_vpath_def tree_prefix_def)

lemma touched_child:
  assumes "i \<noteq> []" and "p \<noteq> []" and "touched (tree_prefix p @ i) u"
  shows "touched p u \<and> u \<noteq> p"
proof -
  have "prefix (tree_prefix p @ i) u"
    using assms(3) append_prefixD [of "tree_prefix p @ i" "''/''" u]
    by (auto simp: touched_def tree_prefix_def [of "tree_prefix p @ i"] split: if_splits)
  moreover from this have "length (tree_prefix p @ i) \<le> length u" by (rule prefix_length_le)
  ultimately show ?thesis
    using assms(1,2) append_prefixD [of "tree_prefix p" i u]
    by (auto simp: touched_def tree_prefix_def split: if_splits)
qed

lemma framed_child:
  assumes "framed (tree_prefix p @ i) st su" and "i \<noteq> []" and "p \<noteq> []"
  shows "framed p st su \<and> (sorted_rows st \<longrightarrow> st_get su p = st_get st p)"
proof -
  have "\<not> touched p u \<or> u = p \<Longrightarrow> \<not> touched (tree_prefix p @ i) u" for u
    using touched_child [OF assms(2,3), of u] by blast
  with assms(1) show ?thesis by (simp add: framed_def)
qed

lemma on_item_framed:
  assumes "on_item f v st = Inr su" and "\<And>i j. f st i = Inr j \<Longrightarrow> mi_vpath j = mi_vpath i"
  shows "framed v st su"
proof -
  from assms(1) obtain i j where i: "st_get st v = Some i" and j: "f st i = Inr j" and su: "su = st_put j st"
    by (auto simp: on_item_def rbind_Inr_iff split: option.splits)
  have "mi_vpath j = v" using assms(2) [OF j] st_get_Some [OF i] by simp
  then show ?thesis by (simp add: framed_def su sorted_st_put st_get_put touched_def)
qed

lemma create_of_class_framed:
  assumes "create_of_class c pv t i props st = (v, su)"
  shows "framed v st su" and "v = construct_vpath i pv"
    and "sorted_rows st \<Longrightarrow> st_get su v = Some (new_model_item c (it_id t) i pv props)"
proof -
  let ?i = "new_model_item c (it_id t) i pv props"
  have v: "v = mi_vpath ?i" "su = st_put ?i st"
    using assms by (auto simp: create_of_class_def Let_def bm_add_def)
  then show "framed v st su" by (simp add: framed_def sorted_st_put st_get_put touched_def)
  show "v = construct_vpath i pv" using v by (simp add: new_model_item_def)
  show "st_get su v = Some ?i" if "sorted_rows st" using that v by (simp add: st_get_put)
qed

lemma set_default_framed: "on_item (set_default types n p) v st = Inr su \<Longrightarrow> framed v st su"
  by (erule on_item_framed) (auto dest: set_default_place simp: mi_place_def)

lemma set_source_framed: "on_item (set_source s) v st = Inr su \<Longrightarrow> framed v st su"
  by (erule on_item_framed) (auto simp: set_source_def)

text \<open>The new item keeps what it was made with while its members are made.\<close>

definition new_item_at :: "string \<Rightarrow> item_class \<Rightarrow> string \<Rightarrow> pval dict \<Rightarrow> store \<Rightarrow> bool" where
  "new_item_at v c ty props u \<longleftrightarrow>
     (\<exists>j. st_get u v = Some j \<and> mi_class j = c \<and> mi_item_type_id j = ty \<and> mi_state j = Initial \<and>
        (\<forall>n x. map_of props n = Some x \<longrightarrow> map_of (mi_properties j) n = Some x))"

lemma set_default_new:
  assumes "on_item (set_default types n p) v st = Inr su" and "sorted_rows st" and "new_item_at v c ty props st"
  shows "new_item_at v c ty props su"
proof -
  from on_item_get [OF assms(1,2)] set_default_place obtain i j where i: "st_get st v = Some i"
    and j: "set_default types n p st i = Inr j" and su: "st_get su v = Some j" by metis
  have "mi_state j = mi_state i \<and> mi_place j = mi_place i"
    using j by (auto simp: set_default_def split: if_splits dest!: set_property_keeps)
  moreover have "map_of (mi_properties j) k = Some x" if "map_of (mi_properties i) k = Some x" for k x
    using j that
    by (auto simp: set_default_def has_key_def set_property_def delete_property_def rbind_Inr_iff Let_def
        split: if_splits option.splits)
  ultimately show ?thesis
    using assms(3) i su by (auto simp: new_item_at_def mi_place_def)
qed

lemma create_member_framed:
  assumes "create_member create types v nf (ws, u) = Inr (ws', u')" and "fst nf \<noteq> []" and "v \<noteq> []"
    and "\<And>ty i us u'. create (Some v) ty i [] None u = Inr (us, u') \<Longrightarrow> i \<noteq> [] \<Longrightarrow> framed (tree_prefix v @ i) u u'"
  shows "framed v u u' \<and> (sorted_rows u \<longrightarrow> new_item_at v c ty props u \<longrightarrow> new_item_at v c ty props u')"
proof -
  obtain name f where nf: "nf = (name, f)" by fastforce
  have below: ?thesis if "framed (tree_prefix v @ name) u u'"
    using framed_child [OF that] assms(2,3) by (simp add: nf new_item_at_def)
  have one: "framed (tree_prefix v @ name) u u'" if "create_of_class k (Some v) ct name [] u = (w, u')" for k ct w
    using create_of_class_framed(1,2) [OF that] construct_vpath_child assms(2,3) by (simp add: nf)
  show ?thesis
  proof (cases f)
    case (Property p)
    with assms(1) have "on_item (set_default types name p) v u = Inr u'" by (auto simp: nf rbind_Inr_iff)
    then show ?thesis using set_default_framed set_default_new by blast
  next
    case (Child c)
    with assms(1) have "u' = u \<or> (\<exists>us. create (Some v) (cf_item_type_id c) name [] None u = Inr (us, u'))"
      by (auto simp: nf rbind_Inr_iff split: if_splits)
    then show ?thesis using below assms(2,4) by (auto simp: nf)
  next
    case (Collection c)
    with assms(1) obtain ct w where "create_of_class CollectionItemC (Some v) ct name [] u = (w, u')"
      by (auto simp: nf create_class_defs split: option.splits prod.splits)
    with one below show ?thesis by blast
  next
    case (RefCollection c)
    with assms(1) obtain ct w where "create_of_class RefCollectionItemC (Some v) ct name [] u = (w, u')"
      by (auto simp: nf create_class_defs split: option.splits prod.splits)
    with one below show ?thesis by blast
  qed (use assms(1) in \<open>auto simp: nf\<close>)
qed

lemma create_model_item_framed:
  assumes "create_model_item_fuel n types pv ty i props source st = Inr (vs, su)"
    and "names_ok types" and "pv = None \<and> i = [] \<or> (\<exists>p. pv = Some p \<and> p \<noteq> [] \<and> i \<noteq> [])"
  shows "framed (construct_vpath i pv) st su \<and> (sorted_rows st \<longrightarrow>
    (\<exists>t. map_of types ty = Some t \<and> new_item_at (construct_vpath i pv) ModelItemC (it_id t) props su))"
  using assms
proof (induction n arbitrary: pv ty i props source st vs su)
  case (Suc n)
  from Suc.prems(1) obtain t where t: "map_of types ty = Some t" by (auto split: option.splits)
  obtain v sv where new: "create_of_class ModelItemC pv t i props st = (v, sv)" by fastforce
  note f = create_of_class_framed [OF new]
  have v: "v \<noteq> []" by (simp add: f(2) construct_vpath_def)
  have at: "sorted_rows st \<Longrightarrow> new_item_at v ModelItemC (it_id t) props sv"
    using f(3) by (simp add: new_item_at_def new_model_item_def)
  have sorted: "sorted_rows st \<Longrightarrow> sorted_rows sv" using f(1) by (simp add: framed_def)
  have "framed v sv su \<and> (sorted_rows st \<longrightarrow> new_item_at v ModelItemC (it_id t) props su)"
  proof (cases source)
    case (Some s)
    with Suc.prems(1) t new have u: "on_item (set_source s) v sv = Inr su"
      by (auto simp: create_class_defs rbind_Inr_iff)
    from u obtain k where k: "st_get sv v = Some k" and su: "su = st_put (k\<lparr>mi_source_vpath := Some s\<rparr>) sv"
      by (auto simp: on_item_def set_source_def split: option.splits)
    then have "new_item_at v ModelItemC (it_id t) props su" if "sorted_rows st"
      using at [OF that] sorted [OF that] st_get_Some [OF k] by (auto simp: new_item_at_def st_get_put)
    then show ?thesis using set_source_framed [OF u] by blast
  next
    case None
    let ?P = "\<lambda>(ws, u). framed v sv u \<and> (sorted_rows st \<longrightarrow> new_item_at v ModelItemC (it_id t) props u)"
    have "for_res (create_member (create_model_item_fuel n types) types v) (it_structure t) ([v], sv) = Inr (vs, su)"
      using Suc.prems(1) t new None by (simp add: create_class_defs)
    then have "?P (vs, su)"
    proof (rule for_res_invariant)
      show "?P ([v], sv)" using at by simp
      fix nf x y assume nf: "nf \<in> set (it_structure t)" and x: "?P x"
        and step: "create_member (create_model_item_fuel n types) types v nf x = Inr y"
      obtain ws u ws' u' where x': "x = (ws, u)" and y: "y = (ws', u')" by fastforce
      have named: "fst nf \<noteq> []" using names_okD [OF Suc.prems(2) t, of "fst nf" "snd nf"] nf by simp
      have IH: "framed (tree_prefix v @ k) u u'"
        if "create_model_item_fuel n types (Some v) ty k [] None u = Inr (us, u')" and "k \<noteq> []" for ty k us u'
        using Suc.IH [OF that(1) Suc.prems(2)] that(2) v construct_vpath_child [OF that(2) v] by simp
      have "framed v u u' \<and> (sorted_rows u \<longrightarrow> new_item_at v ModelItemC (it_id t) props u \<longrightarrow>
          new_item_at v ModelItemC (it_id t) props u')"
        by (rule create_member_framed [OF step [unfolded x' y] named v]) (rule IH)
      moreover have "sorted_rows st \<Longrightarrow> sorted_rows u" using x sorted by (simp add: x' framed_def)
      ultimately show "?P y" using x framed_trans by (auto simp: x' y)
    qed
    then show ?thesis by simp
  qed
  then show ?case using framed_trans [OF f(1)] t by (simp add: f(2))
qed simp

text \<open>No item inherits from \<open>q\<close>.\<close>

definition uninherited :: "string \<Rightarrow> store \<Rightarrow> bool" where
  "uninherited q st \<longleftrightarrow> bm_query_inherited q st = []"

lemma uninherited_iff: "uninherited q st \<longleftrightarrow> (\<forall>k \<in> set st. mi_source_vpath k \<noteq> Some q)"
  by (auto simp: uninherited_def bm_query_inherited_def filter_empty_conv)

lemma set_st_put_subset: "set (st_put i st) \<subseteq> insert i (set st)"
  by (induction st) auto

lemma uninherited_put: "uninherited q st \<Longrightarrow> mi_source_vpath i \<noteq> Some q \<Longrightarrow> uninherited q (st_put i st)"
  using set_st_put_subset unfolding uninherited_iff by blast

lemma on_item_uninherited:
  assumes "on_item f v st = Inr su" and "uninherited q st" and "\<And>i j. f st i = Inr j \<Longrightarrow> mi_place j = mi_place i"
  shows "uninherited q su"
proof -
  from assms(1) obtain i j where i: "st_get st v = Some i" and j: "f st i = Inr j" and su: "su = st_put j st"
    by (auto simp: on_item_def rbind_Inr_iff split: option.splits)
  have "mi_source_vpath j \<noteq> Some q"
    using assms(3) [OF j] st_get_Some [OF i] assms(2) by (auto simp: uninherited_iff mi_place_def)
  then show ?thesis unfolding su using assms(2) by (rule uninherited_put [rotated])
qed

lemma create_of_class_uninherited:
  "create_of_class c pv t i props st = (v, su) \<Longrightarrow> uninherited q st \<Longrightarrow> uninherited q su"
  by (auto simp: create_of_class_def Let_def bm_add_def new_model_item_def intro!: uninherited_put)

lemma create_member_uninherited:
  assumes "create_member create types v nf (ws, u) = Inr (ws', u')" and "uninherited q u"
    and "\<And>ty i us u'. create (Some v) ty i [] None u = Inr (us, u') \<Longrightarrow> uninherited q u'"
  shows "uninherited q u'"
proof -
  obtain name f where nf: "nf = (name, f)" by fastforce
  show ?thesis
    using assms(1,2) assms(3) on_item_uninherited set_default_place
    by (cases f) (auto simp: nf rbind_Inr_iff create_class_defs split: if_splits option.splits prod.splits
        dest: create_of_class_uninherited)
qed

lemma create_model_item_uninherited:
  "create_model_item_fuel n types pv ty i props None st = Inr (vs, su) \<Longrightarrow> uninherited q st \<Longrightarrow>
    uninherited q su"
proof (induction n arbitrary: pv ty i props st vs su)
  case (Suc n)
  from Suc.prems(1) obtain t where t: "map_of types ty = Some t" by (auto split: option.splits)
  obtain v sv where new: "create_of_class ModelItemC pv t i props st = (v, sv)" by fastforce
  have "for_res (create_member (create_model_item_fuel n types) types v) (it_structure t) ([v], sv) = Inr (vs, su)"
    using Suc.prems(1) t new by (simp add: create_class_defs)
  then have "uninherited q (snd (vs, su))"
  proof (rule for_res_invariant)
    show "uninherited q (snd ([v], sv))" using create_of_class_uninherited [OF new Suc.prems(2)] by simp
    fix nf x y assume "uninherited q (snd x)"
      and "create_member (create_model_item_fuel n types) types v nf x = Inr y"
    moreover obtain ws u ws' u' where x: "x = (ws, u)" and y: "y = (ws', u')" by fastforce
    ultimately have c: "create_member (create_model_item_fuel n types) types v nf (ws, u) = Inr (ws', u')"
      and q: "uninherited q u" by simp_all
    show "uninherited q (snd y)"
      unfolding y snd_conv by (rule create_member_uninherited [OF c q]) (rule Suc.IH [OF _ q])
  qed
  then show ?case by simp
qed simp

lemma unlock_node_new:
  assumes "on_item (unlock_node types given_props) v st = Inr su" and "sorted_rows st" and "new_item_at v c ty props st"
  shows "new_item_at v c ty (filter (\<lambda>(n, x). n \<noteq> ''is_locked'') props) su"
proof -
  from on_item_get [OF assms(1,2)] unlock_node_place obtain i j where i: "st_get st v = Some i"
    and j: "unlock_node types given_props st i = Inr j" and su: "st_get su v = Some j" by metis
  have step: "j = i \<or> (\<exists>x. set_property types st ''is_locked'' x False i = Inr j)"
    using j by (auto simp: unlock_node_def rbind_Inr_iff split: if_splits option.split_asm)
  then have keep: "mi_place j = mi_place i" "mi_state j = mi_state i"
    using set_property_keeps by auto
  have others: "map_of (mi_properties j) n = map_of (mi_properties i) n" if "n \<noteq> ''is_locked''" for n
    using step set_property_assigns that by fastforce
  have i': "mi_class i = c" "mi_item_type_id i = ty" "mi_state i = Initial"
    "\<And>n x. map_of props n = Some x \<Longrightarrow> map_of (mi_properties i) n = Some x"
    using assms(3) i by (auto simp: new_item_at_def)
  have "map_of (mi_properties j) n = Some x"
    if "map_of (filter (\<lambda>(n, x). n \<noteq> ''is_locked'') props) n = Some x" for n x
  proof -
    have "n \<noteq> ''is_locked'' \<and> map_of props n = Some x"
      using that by (induction props) (auto split: if_splits)
    then show ?thesis using others [of n] i'(4) [of n x] by simp
  qed
  moreover have "mi_class j = c" "mi_item_type_id j = ty" "mi_state j = Initial"
    using keep i' by (simp_all add: mi_place_def)
  ultimately show ?thesis
    unfolding new_item_at_def using su by blast
qed


section \<open>Examples\<close>

lemma ex_tree_ok: "model_ok ex_tree"
  using ex_tree_sorted
  by (simp add: model_ok_def row_ok_def vpaths_def ex_tree_def ex_root_def ex_nodes_def ex_blade_def ex_node_def
    new_model_item_def construct_vpath_def slash_def)

lemma ex_names_ok: "names_ok (mm_types ex_manager)"
proof -
  have "list_all (\<lambda>(k, t). distinct (map fst (it_structure t)) \<and>
      list_all (\<lambda>(n, f). n \<noteq> [] \<and> slash \<notin> set n) (it_structure t)) (mm_types ex_manager)" by code_simp
  then show ?thesis by (auto simp: names_ok_def list_all_iff)
qed

lemma create_example:
  "\<exists>st'. create_item ex_manager ''node'' ''/nodes/n2'' ex_update ex_tree = Inr (Inr ''/nodes/n2'', st')"
proof -
  have "(case create_item ex_manager ''node'' ''/nodes/n2'' ex_update ex_tree of
      Inr (Inr w, st') \<Rightarrow> w = ''/nodes/n2'' | _ \<Rightarrow> False)" by code_simp
  then show ?thesis by (auto split: sum.splits prod.splits)
qed

theorem creation_keeps_model_witness:
  "\<exists>r st'. create_item ex_manager ''node'' ''/nodes/n2'' ex_update ex_tree = Inr (r, st') \<and> model_ok st'"
  using create_example creation_keeps_model [OF ex_tree_ok ex_names_ok] by blast


text \<open>A node that is marked for removal.\<close>

definition ex_marked :: store where
  "ex_marked = st_put (ex_node\<lparr>mi_state := ForRemoval, mi_previous_state := Some Applied\<rparr>) ex_tree"

text \<open>Creating an item over one that is marked for removal first takes the removal back and only then
  validates the properties: a creation that is refused with errors leaves the item in the state it had
  before it was marked.\<close>

theorem refused_creation_takes_removal_back:
  "\<exists>es st'. create_item ex_manager ''node'' ''/nodes/n1'' [(''hostname'', VStr [])] ex_marked = Inr (Inl es, st') \<and>
    es \<noteq> [] \<and> map_option mi_state (get_item ex_marked ''/nodes/n1'') = Some ForRemoval \<and>
    map_option mi_state (get_item st' ''/nodes/n1'') = Some Applied"
proof (rule refused_outcome)
  show "case create_item ex_manager ''node'' ''/nodes/n1'' [(''hostname'', VStr [])] ex_marked of
      Inr (Inl es, st') \<Rightarrow> es \<noteq> [] \<and> map_option mi_state (get_item ex_marked ''/nodes/n1'') = Some ForRemoval \<and>
        map_option mi_state (get_item st' ''/nodes/n1'') = Some Applied
    | _ \<Rightarrow> False" by code_simp
qed

end
