(* ===== verification/Model_Remove.thy ===== *)
theory Model_Remove
  imports Model_Create
begin

text \<open>
  The removal of items in \<open>litp/core/model_manager.py\<close>: which items go at once and which are marked
  for the next plan, the deletion of removed items, snapshots, and the return of items to their
  initial state. An operation may still hold an item it has deleted, so the state is the table and
  the deleted objects; an object is found in the table or among the deleted ones. The items that
  inherit from an item are listed before the loops over them begin.
\<close>

section \<open>Objects\<close>

type_synonym objects = "store \<times> store"

definition object :: "string \<Rightarrow> objects \<Rightarrow> model_item option" where
  "object v s = (case st_get (fst s) v of Some i \<Rightarrow> Some i | None \<Rightarrow> st_get (snd s) v)"

definition the_object :: "string \<Rightarrow> objects \<Rightarrow> model_item res" where
  "the_object v s =
     (case object v s of None \<Rightarrow> Inl (AttributeError (''no item '' @ v)) | Some i \<Rightarrow> Inr i)"

definition on_object :: "(store \<Rightarrow> model_item \<Rightarrow> model_item res) \<Rightarrow> string \<Rightarrow> objects \<Rightarrow> objects res" where
  "on_object f v s =
     rbind (the_object v s) (\<lambda>i. rbind (f (fst s) i) (\<lambda>j.
       Inr (if st_get (fst s) v \<noteq> None then (st_put j (fst s), snd s) else (fst s, st_put j (snd s)))))"

definition delete_object :: "string \<Rightarrow> objects \<Rightarrow> objects" where
  "delete_object v s =
     (case st_get (fst s) v of
        None \<Rightarrow> s
      | Some i \<Rightarrow> (bm_delete i (fst s), st_put i (snd s)))"

definition children_of :: "item_type dict \<Rightarrow> string \<Rightarrow> objects \<Rightarrow> store res" where
  "children_of types v s = rbind (the_object v s) (get_children types (fst s))"

section \<open>Which items can go at once\<close>

definition has_ancestry_with_apd_false :: "store \<Rightarrow> model_item \<Rightarrow> bool res" where
  "has_ancestry_with_apd_false st i =
     rbind (ancestry st i) (\<lambda>is. Inr (list_ex (\<lambda>a. \<not> mi_apd a) (tl is)))"

text \<open>The queue holds every item below the parent at most once.\<close>

fun apd_false_fuel :: "nat \<Rightarrow> item_type dict \<Rightarrow> store \<Rightarrow> store \<Rightarrow> bool res" where
  "apd_false_fuel n types st [] = Inr False"
| "apd_false_fuel 0 types st (i # queue) = Inl diverges"
| "apd_false_fuel (Suc n) types st (i # queue) =
     (if \<not> mi_apd i then Inr True
      else rbind (get_children types st i) (\<lambda>cs. apd_false_fuel n types st (queue @ cs)))"

text \<open>\<open>queue.remove(item)\<close> takes out the first item equal to it.\<close>

fun remove_equal :: "model_item \<Rightarrow> store \<Rightarrow> store" where
  "remove_equal i [] = []"
| "remove_equal i (j # js) = (if mi_eq i j then js else j # remove_equal i js)"

definition has_siblings_or_their_descendants_apd_false :: "item_type dict \<Rightarrow> store \<Rightarrow> model_item \<Rightarrow> bool res" where
  "has_siblings_or_their_descendants_apd_false types st i =
     (case get_parent st i of
        None \<Rightarrow> Inr False
      | Some p \<Rightarrow> rbind (get_children types st p) (\<lambda>cs.
          apd_false_fuel (length st + 1) types st (remove_equal i cs)))"

fun all_res :: "('a \<Rightarrow> bool res) \<Rightarrow> 'a list \<Rightarrow> bool res" where
  "all_res f [] = Inr True"
| "all_res f (x # xs) = rbind (f x) (\<lambda>b. if b then all_res f xs else Inr False)"

lemma all_res_cong [fundef_cong]:
  "xs = ys \<Longrightarrow> (\<And>x. x \<in> set ys \<Longrightarrow> f x = g x) \<Longrightarrow> all_res f xs = all_res g ys"
proof (induction xs arbitrary: ys)
  case (Cons x xs)
  then show ?case by (cases "g x") auto
qed auto

fun can_item_be_deleted_fuel :: "nat \<Rightarrow> item_type dict \<Rightarrow> objects \<Rightarrow> model_item \<Rightarrow> bool res" where
  "can_item_be_deleted_fuel 0 types s i = Inl diverges"
| "can_item_be_deleted_fuel (Suc n) types s i =
     (if \<not> mi_apd i then Inr False
      else rbind (has_ancestry_with_apd_false (fst s) i) (\<lambda>above. if above then Inr False
      else rbind (has_siblings_or_their_descendants_apd_false types (fst s) i) (\<lambda>beside. if beside then Inr False
      else rbind (inherited_items_recursive (fst s) (mi_vpath i)) (\<lambda>js.
           rbind (all_res (can_item_be_deleted_fuel n types s) js) (\<lambda>inheriting.
             if \<not> inheriting then Inr False
             else if mi_state i \<notin> {Initial, Removed} then Inr False
             else rbind (get_children types (fst s) i) (\<lambda>cs.
               Inr (list_all (\<lambda>c. mi_state c \<in> {Initial, Removed}) cs)))))))"

definition can_item_be_deleted :: "item_type dict \<Rightarrow> objects \<Rightarrow> model_item \<Rightarrow> bool res" where
  "can_item_be_deleted types s i = can_item_be_deleted_fuel (length (fst s) + 1) types s i"

section \<open>Deleting and marking\<close>

definition inconsistency :: exn where
  "inconsistency = ModelManagerException ''model inconsistency if removing item''"

definition delete_removed_item :: "item_type dict \<Rightarrow> bool \<Rightarrow> string \<Rightarrow> objects \<Rightarrow> objects res" where
  "delete_removed_item types validate_inherit v s =
     rbind (if validate_inherit then inherited_items_recursive (fst s) v else Inr []) (\<lambda>js.
       if list_ex (\<lambda>j. mi_state j \<noteq> Removed) js then Inl inconsistency
       else rbind (children_of types v s) (\<lambda>cs.
         if list_ex (\<lambda>c. mi_state c \<noteq> Removed) cs then Inl inconsistency
         else Inr (delete_object v s)))"

definition settle_child :: "item_type dict \<Rightarrow> bool \<Rightarrow> string \<Rightarrow> objects \<Rightarrow> objects res" where
  "settle_child types parent_goes c s =
     rbind (the_object c s) (\<lambda>i.
       if mi_state i \<noteq> Removed then Inr s
       else if parent_goes \<or> \<not> is_collection i then delete_removed_item types True c s
       else on_object set_for_removal c s)"

definition delete_if_removed :: "item_type dict \<Rightarrow> string \<Rightarrow> objects \<Rightarrow> objects res" where
  "delete_if_removed types v s =
     rbind (the_object v s) (\<lambda>i.
       if mi_state i = Removed then delete_removed_item types True v s else Inr s)"

text \<open>The items that inherit from the item are removed, then its children, then the item is settled. The
  steps down to an inheriting item or to a child are not more than there are rows.\<close>

fun remove_recursive_fuel :: "nat \<Rightarrow> item_type dict \<Rightarrow> string \<Rightarrow> objects \<Rightarrow> objects res" where
  "remove_recursive_fuel 0 types v s = Inl diverges"
| "remove_recursive_fuel (Suc n) types v s =
     rbind (inherited_items_recursive (fst s) v) (\<lambda>js.
     rbind (for_res (\<lambda>j s. rbind (remove_recursive_fuel n types j s) (delete_if_removed types j))
              (map mi_vpath js) s) (\<lambda>s.
     rbind (children_of types v s) (\<lambda>cs.
     rbind (for_res (remove_recursive_fuel n types) (map mi_vpath cs) s) (\<lambda>s.
     rbind (rbind (the_object v s) (can_item_be_deleted types s)) (\<lambda>goes.
     rbind (children_of types v s) (\<lambda>cs.
     rbind (for_res (settle_child types goes) (map mi_vpath cs) s)
       (on_object (if goes then set_removed else set_for_removal) v)))))))"

definition remove_item_in :: "item_type dict \<Rightarrow> string \<Rightarrow> objects \<Rightarrow> objects res" where
  "remove_item_in types v s =
     rbind (remove_recursive_fuel (length (fst s) + 1) types v s) (delete_if_removed types v)"

definition protected_paths :: "string list" where
  "protected_paths = [''/software'', ''/infrastructure'', ''/infrastructure/storage'',
     ''/infrastructure/networking'', ''/ms'', ''/snapshots/litp'']"

definition removal_error :: "item_type \<Rightarrow> model_item \<Rightarrow> string \<Rightarrow> validation_error option" where
  "removal_error t i vpath =
     (if it_id t = ''root''
      then Some (item_error (Some ''/'') ''Operation not permitted'' METHOD_NOT_ALLOWED_ERROR)
      else if it_id t = ''sshd-config'' \<and> mi_state i \<noteq> Initial \<or> vpath \<in> set protected_paths
      then Some (item_error (Some vpath) ''Operation not permitted'' METHOD_NOT_ALLOWED_ERROR)
      else if is_collection i
      then Some (item_error (Some vpath) ''Cannot directly delete Collection item'' METHOD_NOT_ALLOWED_ERROR)
      else None)"

definition remove_item :: "manager \<Rightarrow> string \<Rightarrow> store \<Rightarrow> (outcome \<times> store) res" where
  "remove_item m path st =
     (let vpath = (if path \<noteq> ''/'' then rstrip_slash path else path) in
      rbind (split_path vpath) (\<lambda>_.
        case get_item st vpath of
          None \<Rightarrow> Inr (Inl [item_error (Some vpath) ''Path not found'' INVALID_LOCATION_ERROR], st)
        | Some i \<Rightarrow> rbind (item_type_of (mm_types m) i) (\<lambda>t.
            case removal_error t i vpath of
              Some e \<Rightarrow> Inr (Inl [e], st)
            | None \<Rightarrow> rbind (remove_item_in (mm_types m) vpath (st, [])) (\<lambda>s.
                Inr (Inr vpath, fst s)))))"

section \<open>After a plan\<close>

text \<open>\<open>sorted(items, key=parent_vpath, reverse=True)\<close>: the greatest key first, items of one key in the
  order they had. \<open>None\<close> is below every string.\<close>

fun opt_le :: "string option \<Rightarrow> string option \<Rightarrow> bool" where
  "opt_le None y = True"
| "opt_le (Some x) None = False"
| "opt_le (Some x) (Some y) = (x \<le> y)"

fun insert_by_parent :: "model_item \<Rightarrow> store \<Rightarrow> store" where
  "insert_by_parent i [] = [i]"
| "insert_by_parent i (j # js) =
     (if opt_le (mi_parent_vpath j) (mi_parent_vpath i) then i # j # js else j # insert_by_parent i js)"

definition by_parent_reversed :: "store \<Rightarrow> store" where
  "by_parent_reversed is = foldr insert_by_parent is []"

definition mark_removed_child :: "string \<Rightarrow> objects \<Rightarrow> objects res" where
  "mark_removed_child c s =
     rbind (the_object c s) (\<lambda>i. if mi_state i = Removed then on_object set_for_removal c s else Inr s)"

definition delete_or_mark :: "item_type dict \<Rightarrow> string \<Rightarrow> objects \<Rightarrow> objects res" where
  "delete_or_mark types v s =
     (case delete_removed_item types True v s of
        Inr s' \<Rightarrow> Inr s'
      | Inl (ModelManagerException e) \<Rightarrow>
          rbind (children_of types v s) (\<lambda>cs.
            rbind (for_res mark_removed_child (map mi_vpath cs) s) (on_object set_for_removal v))
      | Inl e \<Rightarrow> Inl e)"

text \<open>A collection whose parent stays comes back, marked for removal.\<close>

definition restore_collection :: "string \<Rightarrow> objects \<Rightarrow> objects res" where
  "restore_collection v s =
     rbind (the_object v s) (\<lambda>i.
       case get_parent (fst s) i of
         None \<Rightarrow> Inr s
       | Some p \<Rightarrow> rbind (on_object set_for_removal v s) (\<lambda>s.
           rbind (the_object v s) (\<lambda>i. Inr (bm_add i (fst s), st_delete v (snd s)))))"

definition delete_removed_items_after_plan :: "manager \<Rightarrow> store \<Rightarrow> store res" where
  "delete_removed_items_after_plan m st =
     (let removed = by_parent_reversed (bm_query_by_states [Removed] st)
      in rbind (for_res (delete_or_mark (mm_types m)) (map mi_vpath removed) (st, [])) (\<lambda>s.
           rbind (for_res restore_collection (map mi_vpath (filter is_collection removed)) s) (\<lambda>s.
             Inr (fst s))))"

definition set_all_applied :: "manager \<Rightarrow> string list \<Rightarrow> store \<Rightarrow> store res" where
  "set_all_applied m exceptions st =
     for_res (on_item (\<lambda>st i.
         if list_ex (mi_extends (mm_types m) i) exceptions then Inr i else set_applied st i))
       (map mi_vpath (bm_query_by_states [Initial, Updated, ForRemoval, Removed] st)) st"

text \<open>The tasks of an item that a plan ran, as their states and lock types.\<close>

record item_task =
  tk_state :: string
  tk_lock_type :: string

definition determinable_after :: "item_task list \<Rightarrow> model_item \<Rightarrow> model_item" where
  "determinable_after tasks i =
     (if list_ex (\<lambda>t. tk_state t \<noteq> ''Initial'') tasks
      then if list_ex (\<lambda>t. tk_lock_type t = ''type_other'' \<and> tk_state t \<noteq> ''Success'') tasks then set_apd False i
           else if mi_state i = ForRemoval \<and> mi_previous_state i = Some Removed then set_apd False i
           else set_apd True i
      else i)"

definition set_applied_properties_determinable :: "(string \<times> item_task list) list \<Rightarrow> store \<Rightarrow> store res" where
  "set_applied_properties_determinable item_tasks st =
     for_res (\<lambda>(v, tasks) st.
       case get_item st v of
         None \<Rightarrow> Inr st
       | Some i \<Rightarrow> on_item (\<lambda>st i. Inr (determinable_after tasks i)) v st) item_tasks st"

section \<open>Back to the initial state\<close>

text \<open>The exclusion of a path is a search for the path, read as a regular expression with no special
  characters, followed by the end of a word.\<close>

definition excluded_by :: "string \<Rightarrow> string \<Rightarrow> bool" where
  "excluded_by v x \<longleftrightarrow> re_search (Seq (re_literal (rstrip_slash x)) WordBoundary) v"

definition set_item_initial :: "string list \<Rightarrow> store \<Rightarrow> model_item \<Rightarrow> model_item res" where
  "set_item_initial exclude_paths st i =
     (if list_ex (excluded_by (mi_vpath i)) exclude_paths then Inr i
      else rbind (set_initial st i) (\<lambda>j. Inr
        (if mi_state j = Initial then set_apd True (reset_applied_properties j) else j)))"

fun set_initial_fuel :: "nat \<Rightarrow> item_type dict \<Rightarrow> string list \<Rightarrow> string \<Rightarrow> store \<Rightarrow> store res" where
  "set_initial_fuel 0 types exclude_paths v st = Inl diverges"
| "set_initial_fuel (Suc n) types exclude_paths v st =
     rbind (inherited_items_recursive st v) (\<lambda>js.
     rbind (for_res (\<lambda>j st.
              rbind (case st_get st j of None \<Rightarrow> Inl (AttributeError ''children'') | Some i \<Rightarrow> get_children types st i)
                (\<lambda>cs. for_res (set_initial_fuel n types exclude_paths) (map mi_vpath cs) st))
              (map mi_vpath js) st) (\<lambda>st.
     rbind (case st_get st v of None \<Rightarrow> Inl (AttributeError ''children'') | Some i \<Rightarrow> get_children types st i) (\<lambda>cs.
     rbind (for_res (set_initial_fuel n types exclude_paths) (map mi_vpath cs) st)
       (on_item (set_item_initial exclude_paths) v))))"

text \<open>The path is looked up with an exception before the errors are formed, so there are none to return.\<close>

definition set_items_to_initial_from :: "manager \<Rightarrow> string \<Rightarrow> string list \<Rightarrow> store \<Rightarrow> store res" where
  "set_items_to_initial_from m path exclude_paths st =
     rbind (query_by_vpath st path) (\<lambda>i.
       set_initial_fuel (length st + 1) (mm_types m) exclude_paths (mi_vpath i) st)"

section \<open>Snapshots, validation and restoring\<close>

definition set_snapshot_applied :: "string \<Rightarrow> store \<Rightarrow> store res" where
  "set_snapshot_applied n st =
     (case get_item st (snapshot_path n) of
        None \<Rightarrow> Inr st
      | Some i \<Rightarrow>
          rbind (on_item set_applied (mi_vpath i) st) (\<lambda>st.
            case get_parent st i of
              None \<Rightarrow> Inl (AttributeError ''set_applied'')
            | Some p \<Rightarrow> on_item set_applied (mi_vpath p) st))"

definition set_snapshot_for_removal :: "string \<Rightarrow> store \<Rightarrow> store res" where
  "set_snapshot_for_removal n st =
     (case get_item st (snapshot_path n) of
        None \<Rightarrow> Inr st | Some i \<Rightarrow> on_item set_for_removal (mi_vpath i) st)"

definition create_snapshot_item :: "manager \<Rightarrow> string \<Rightarrow> store \<Rightarrow> (outcome \<times> store) res" where
  "create_snapshot_item m n st = create_item m ''snapshot-base'' (snapshot_path n) [(''timestamp'', VNone)] st"

definition remove_snapshot_item :: "manager \<Rightarrow> string \<Rightarrow> store \<Rightarrow> store res" where
  "remove_snapshot_item m n st =
     (case get_item st (snapshot_path n) of
        None \<Rightarrow> Inr st
      | Some i \<Rightarrow>
          rbind (on_item set_removed (mi_vpath i) st) (\<lambda>st.
            rbind (delete_removed_item (mm_types m) True (mi_vpath i) (st, [])) (\<lambda>s. Inr (fst s))))"

text \<open>A query by type and no properties: the items of the type and of the types that extend it, without
  the inherited ones and the collections.\<close>

definition query_items :: "item_type dict \<Rightarrow> store \<Rightarrow> string \<Rightarrow> store" where
  "query_items types st ty =
     filter (\<lambda>i. \<not> given (mi_source_vpath i) \<and> \<not> is_collection i \<and> mi_extends types i ty)
       (bm_query_by_item_types (ty # (if has_key ty types then get_extending_types types ty else [])) st)"

definition remove_all_snapshots :: "manager \<Rightarrow> store \<Rightarrow> store res" where
  "remove_all_snapshots m st =
     for_res (remove_snapshot_item m) (map mi_item_id (query_items (mm_types m) st ''snapshot-base'')) st"

definition validate_model_item :: "manager \<Rightarrow> store \<Rightarrow> model_item \<Rightarrow> validation_error list res" where
  "validate_model_item m st i =
     rbind (item_type_of (mm_types m) i) (\<lambda>t. validate_item_type (mm_env m) (mm_types m) st t i PROPERTY_READ)"

definition validate_model :: "manager \<Rightarrow> store \<Rightarrow> validation_error list res" where
  "validate_model m st =
     rbind (map_res (validate_model_item m st) (bm_query_by_states [Initial, Applied, Updated, Removed] st))
       (\<lambda>ess. Inr (concat ess))"

text \<open>A backup is restored without the snapshots; the debug setting stays what it is.\<close>

definition restore_model ::
  "manager \<Rightarrow> string \<Rightarrow> 'e database \<Rightarrow> 'e database res" where
  "restore_model m model_id db =
     (case get_item (db_models db LIVE_MODEL_ID) ''/litp/logging'' of
        None \<Rightarrow> Inl (AttributeError ''get_property'')
      | Some i \<Rightarrow>
          rbind (get_property (mm_types m) ''force_debug'' i) (\<lambda>v.
            let db = restore_backup (mm_like m) model_id [''/snapshots''] db;
                live = db_models db LIVE_MODEL_ID in
            rbind (on_item (\<lambda>st. set_property (mm_types m) st ''force_debug''
                     (case v of None \<Rightarrow> VNone | Some x \<Rightarrow> x) False) ''/litp/logging'' live) (\<lambda>live.
              Inr (db\<lparr>db_models := (db_models db)(LIVE_MODEL_ID := live)\<rparr>))))"

section \<open>What the steps of a removal do\<close>

definition sorted_objects :: "objects \<Rightarrow> bool" where
  "sorted_objects s \<longleftrightarrow> sorted_rows (fst s) \<and> sorted_rows (snd s)"

lemma object_vpath: "object v s = Some i \<Longrightarrow> mi_vpath i = v"
  by (auto simp: object_def split: option.splits dest: st_get_Some)

lemma the_object_Inr [res_simps]: "the_object v s = Inr i \<longleftrightarrow> object v s = Some i"
  by (simp add: the_object_def split: option.splits)

lemma on_object_cases:
  assumes "on_object f v s = Inr s'" and "sorted_objects s" and "\<And>i j. f (fst s) i = Inr j \<Longrightarrow> mi_vpath j = mi_vpath i"
  obtains i j where "object v s = Some i" and "f (fst s) i = Inr j" and "sorted_objects s'"
    and "\<And>w. object w s' = (if w = v then Some j else object w s)"
    and "\<And>w. st_get (fst s') w = (if w = v \<and> st_get (fst s) v \<noteq> None then Some j else st_get (fst s) w)"
proof -
  from assms(1) obtain i j where i: "object v s = Some i" and j: "f (fst s) i = Inr j"
    and s': "s' = (if st_get (fst s) v \<noteq> None then (st_put j (fst s), snd s) else (fst s, st_put j (snd s)))"
    by (auto simp: on_object_def rbind_Inr_iff res_simps)
  have v: "mi_vpath j = v" using assms(3) [OF j] object_vpath [OF i] by simp
  have sorted: "sorted_rows (fst s)" "sorted_rows (snd s)" using assms(2) by (simp_all add: sorted_objects_def)
  show thesis
    by (rule that [OF i j])
      (use s' v sorted in \<open>auto simp: sorted_objects_def sorted_st_put st_get_put object_def split: option.splits\<close>)
qed

lemma delete_object_cases:
  assumes "sorted_objects s"
  shows "sorted_objects (delete_object v s)" and "object w (delete_object v s) = object w s"
    and "st_get (fst (delete_object v s)) w = (if w = v then None else st_get (fst s) w)"
proof -
  have sorted: "sorted_rows (fst s)" "sorted_rows (snd s)" using assms by (simp_all add: sorted_objects_def)
  show "sorted_objects (delete_object v s)"
    using sorted by (auto simp: delete_object_def sorted_objects_def bm_delete_def sorted_st_delete sorted_st_put
        split: option.splits)
  show "st_get (fst (delete_object v s)) w = (if w = v then None else st_get (fst s) w)"
    by (auto simp: delete_object_def bm_delete_def st_get_delete split: option.splits dest: st_get_Some)
  show "object w (delete_object v s) = object w s"
  proof (cases "st_get (fst s) v")
    case (Some i)
    then have "mi_vpath i = v" using st_get_Some by blast
    with Some sorted show ?thesis
      by (simp add: delete_object_def object_def bm_delete_def st_get_delete st_get_put split: option.split)
  qed (simp add: delete_object_def)
qed

lemma delete_removed_result:
  "delete_removed_item types b v s = Inr s' \<Longrightarrow> s' = delete_object v s"
  by (auto simp: delete_removed_item_def rbind_Inr_iff split: if_splits)

lemma can_item_be_deleted_True:
  assumes "can_item_be_deleted types s i = Inr True"
  shows "mi_apd i \<and> mi_state i \<in> {Initial, Removed}"
  using assms by (auto simp: can_item_be_deleted_def rbind_Inr_iff split: if_splits)

text \<open>A removal is made of steps that mark an object for removal, set an object that can be deleted to
  removed, or delete an object that is removed. An invariant of these steps is one of the removal.\<close>

locale removal =
  fixes types :: "item_type dict" and inv :: "objects \<Rightarrow> bool"
  assumes inv_sorted: "inv s \<Longrightarrow> sorted_objects s"
    and mark: "inv s \<Longrightarrow> on_object set_for_removal v s = Inr s' \<Longrightarrow> inv s'"
    and go: "inv s \<Longrightarrow> object v s = Some i \<Longrightarrow> mi_apd i \<Longrightarrow> mi_state i \<in> {Initial, Removed} \<Longrightarrow>
      on_object set_removed v s = Inr s' \<Longrightarrow> inv s'"
    and delete: "inv s \<Longrightarrow> object v s = Some i \<Longrightarrow> mi_state i = Removed \<Longrightarrow> inv (delete_object v s)"
begin

lemma settle_child_inv:
  assumes "inv s" and "settle_child types b c s = Inr s'"
  shows "inv s'"
proof -
  from assms(2) obtain i where i: "object c s = Some i"
    and "s' = s \<or> mi_state i = Removed \<and> s' = delete_object c s \<or> on_object set_for_removal c s = Inr s'"
    by (auto simp: settle_child_def rbind_Inr_iff the_object_Inr split: if_splits dest: delete_removed_result)
  then show ?thesis using assms(1) mark delete [OF assms(1) i] by blast
qed

lemma delete_if_removed_inv:
  assumes "inv s" and "delete_if_removed types v s = Inr s'"
  shows "inv s'"
proof -
  from assms(2) obtain i where "object v s = Some i" and "s' = s \<or> mi_state i = Removed \<and> s' = delete_object v s"
    by (auto simp: delete_if_removed_def rbind_Inr_iff the_object_Inr split: if_splits dest: delete_removed_result)
  then show ?thesis using assms(1) delete by blast
qed

lemma settle_going_objects:
  assumes "inv s" and "for_res (settle_child types True) cs s = Inr s'"
  shows "inv s' \<and> object w s' = object w s"
  using assms(2)
proof (rule for_res_invariant)
  fix c u u' assume u: "inv u \<and> object w u = object w s" and step: "settle_child types True c u = Inr u'"
  have "u' = u \<or> u' = delete_object c u"
    using step by (auto simp: settle_child_def rbind_Inr_iff split: if_splits dest: delete_removed_result)
  then show "inv u' \<and> object w u' = object w s"
    using u settle_child_inv [OF _ step] delete_object_cases(2) [OF inv_sorted] by metis
qed (use assms(1) in simp)

lemma remove_recursive_inv:
  "inv s \<Longrightarrow> remove_recursive_fuel n types v s = Inr s' \<Longrightarrow> inv s'"
proof (induction n arbitrary: v s s')
  case (Suc n)
  from Suc.prems(2) obtain s1 s2 s3 goes and js cs cs' :: store and i where
    s1: "for_res (\<lambda>j s. rbind (remove_recursive_fuel n types j s) (delete_if_removed types j)) (map mi_vpath js) s = Inr s1"
    and s2: "for_res (remove_recursive_fuel n types) (map mi_vpath cs) s1 = Inr s2"
    and i: "object v s2 = Some i" and goes: "can_item_be_deleted types s2 i = Inr goes"
    and s3: "for_res (settle_child types goes) (map mi_vpath cs') s2 = Inr s3"
    and s': "on_object (if goes then set_removed else set_for_removal) v s3 = Inr s'"
    by (auto simp: rbind_Inr_iff the_object_Inr)
  have "inv s1" using s1
  proof (rule for_res_invariant)
    fix x u w assume "inv u" and "rbind (remove_recursive_fuel n types x u) (delete_if_removed types x) = Inr w"
    then show "inv w" using Suc.IH delete_if_removed_inv unfolding rbind_Inr_iff by blast
  qed (rule Suc.prems(1))
  with s2 have "inv s2" by (rule for_res_invariant) (rule Suc.IH)
  with s3 have "inv s3" by (rule for_res_invariant) (rule settle_child_inv)
  show ?case
  proof (cases goes)
    case True
    with settle_going_objects [OF \<open>inv s2\<close>, of "map mi_vpath cs'" s3 v] s3 i have "object v s3 = Some i" by simp
    then show ?thesis using go [OF \<open>inv s3\<close>] can_item_be_deleted_True goes True s' by auto
  next
    case False
    then show ?thesis using mark [OF \<open>inv s3\<close>] s' by simp
  qed
qed simp

lemma remove_item_in_inv: "inv s \<Longrightarrow> remove_item_in types v s = Inr s' \<Longrightarrow> inv s'"
  unfolding remove_item_in_def rbind_Inr_iff using remove_recursive_inv delete_if_removed_inv by blast

end

section \<open>What a removal takes away\<close>

text \<open>An item that is not part of a deployment: initial, or removed by a plan before.\<close>

definition disposable :: "model_item \<Rightarrow> bool" where
  "disposable i \<longleftrightarrow> mi_state i = Removed \<or> mi_state i = Initial \<and> mi_apd i"

text \<open>Where the objects of \<open>st\<close> are after a part of a removal: an object that is removed or no longer in the
  table was disposable.\<close>

definition removing :: "store \<Rightarrow> objects \<Rightarrow> bool" where
  "removing st s \<longleftrightarrow> sorted_objects s \<and>
     (\<forall>w i. st_get st w = Some i \<longrightarrow>
        (\<exists>j. object w s = Some j \<and> mi_place j = mi_place i \<and> mi_apd j = mi_apd i \<and>
           (mi_state j = Initial \<longrightarrow> mi_state i = Initial) \<and>
           (mi_state j = Removed \<or> st_get (fst s) w = None \<longrightarrow> disposable i)))"

lemma removingI:
  assumes "removing st s" and "sorted_objects s'"
    and "\<And>w i j. st_get st w = Some i \<Longrightarrow> object w s = Some j \<Longrightarrow>
      (mi_state j = Initial \<Longrightarrow> mi_state i = Initial) \<Longrightarrow>
      (mi_state j = Removed \<or> st_get (fst s) w = None \<Longrightarrow> disposable i) \<Longrightarrow> mi_apd j = mi_apd i \<Longrightarrow>
      \<exists>k. object w s' = Some k \<and> mi_place k = mi_place j \<and> mi_apd k = mi_apd j \<and>
        (mi_state k = Initial \<longrightarrow> mi_state i = Initial) \<and>
        (mi_state k = Removed \<or> st_get (fst s') w = None \<longrightarrow> disposable i)"
  shows "removing st s'"
proof -
  have "\<exists>k. object w s' = Some k \<and> mi_place k = mi_place i \<and> mi_apd k = mi_apd i \<and>
      (mi_state k = Initial \<longrightarrow> mi_state i = Initial) \<and>
      (mi_state k = Removed \<or> st_get (fst s') w = None \<longrightarrow> disposable i)" if i: "st_get st w = Some i" for w i
  proof -
    from assms(1) i obtain j where "object w s = Some j" and j: "mi_place j = mi_place i" "mi_apd j = mi_apd i"
      and "mi_state j = Initial \<Longrightarrow> mi_state i = Initial"
      and "mi_state j = Removed \<or> st_get (fst s) w = None \<Longrightarrow> disposable i" unfolding removing_def by blast
    from assms(3) [OF i this(1,4,5) j(2)] j show ?thesis by auto
  qed
  with assms(2) show ?thesis by (simp add: removing_def)
qed

lemma set_state_vpath: "set_state st x i = Inr j \<Longrightarrow> mi_vpath j = mi_vpath i"
  using set_state_result by (auto simp: mi_place_def)

interpretation removing: removal types "removing st" for types st
proof
  fix s s' v i
  assume inv: "removing st s"
  then show sorted: "sorted_objects s" by (simp add: removing_def)
  show "removing st s'" if "on_object set_for_removal v s = Inr s'"
  proof -
    from that sorted obtain k l where k: "object v s = Some k" and l: "set_for_removal (fst s) k = Inr l"
      and s': "sorted_objects s'" and o: "\<And>w. object w s' = (if w = v then Some l else object w s)"
      and r: "\<And>w. st_get (fst s') w = (if w = v \<and> st_get (fst s) v \<noteq> None then Some l else st_get (fst s) w)"
      by (rule on_object_cases) (auto simp: set_for_removal_def set_state_vpath)
    have "mi_place l = mi_place k" "mi_apd l = mi_apd k" "mi_state l = ForRemoval"
      using set_state_result [of "fst s" ForRemoval k l] l by (simp_all add: set_for_removal_def)
    with inv s' show ?thesis by (rule_tac removingI) (auto simp: o r k split: if_splits)
  qed
  show "removing st s'" if i: "object v s = Some i" and apd: "mi_apd i" and state: "mi_state i \<in> {Initial, Removed}"
    and step: "on_object set_removed v s = Inr s'"
  proof -
    from step sorted obtain k l where k: "object v s = Some k" and l: "set_removed (fst s) k = Inr l"
      and s': "sorted_objects s'" and o: "\<And>w. object w s' = (if w = v then Some l else object w s)"
      and r: "\<And>w. st_get (fst s') w = (if w = v \<and> st_get (fst s) v \<noteq> None then Some l else st_get (fst s) w)"
      by (rule on_object_cases) (auto simp: set_removed_def set_state_vpath)
    have "mi_place l = mi_place k" "mi_apd l = mi_apd k" "mi_state l = Removed"
      using set_state_result [of "fst s" Removed k l] l by (simp_all add: set_removed_def)
    with inv s' i k apd state show ?thesis
      by (rule_tac removingI) (auto simp: o r disposable_def split: if_splits)
  qed
  show "removing st (delete_object v s)" if "object v s = Some i" and "mi_state i = Removed"
    using inv delete_object_cases(1) [OF sorted] that
    by (rule_tac removingI) (auto simp: delete_object_cases(2,3) [OF sorted] split: if_splits)
qed

lemma removing_start: "sorted_rows st \<Longrightarrow> removing st (st, [])"
  by (simp add: removing_def sorted_objects_def sorted_rows_def object_def disposable_def)

lemma remove_item_cases:
  assumes "remove_item m path st = Inr (r, st')"
  shows "(\<exists>e. r = Inl [e] \<and> st' = st) \<or>
    (\<exists>s v. r = Inr v \<and> v = (if path \<noteq> ''/'' then rstrip_slash path else path) \<and> get_item st v \<noteq> None \<and>
       remove_item_in (mm_types m) v (st, []) = Inr s \<and> st' = fst s)"
  using assms by (auto simp: remove_item_def Let_def rbind_Inr_iff split: option.splits)

text \<open>C18: the removal of an item takes from the model only items that are not deployed: those in their
  initial state whose applied properties are known, or already removed. Every other item stays in the
  model, in its place.\<close>

theorem removal_spares_deployed:
  assumes "remove_item m path st = Inr (r, st')" and "sorted_rows st" and "st_get st v = Some i"
    and "\<not> disposable i"
  shows "\<exists>j. st_get st' v = Some j \<and> mi_place j = mi_place i \<and> mi_state j \<noteq> Removed"
  using remove_item_cases [OF assms(1)]
proof (elim disjE exE conjE)
  fix s w assume "remove_item_in (mm_types m) w (st, []) = Inr s" and st': "st' = fst s"
  with removing.remove_item_in_inv removing_start [OF assms(2)] have "removing st s" by blast
  with assms(3,4) obtain j where "object v s = Some j" "mi_place j = mi_place i" "mi_state j \<noteq> Removed"
    and "st_get (fst s) v \<noteq> None"
    unfolding removing_def by blast
  then show ?thesis using st' by (auto simp: object_def)
next
  assume "st' = st"
  then show ?thesis using assms(3,4) by (auto simp: disposable_def)
qed

section \<open>What a removal marks\<close>

definition going :: "model_item \<Rightarrow> bool" where
  "going i \<longleftrightarrow> mi_state i \<in> {ForRemoval, Removed}"

text \<open>The rows of \<open>s'\<close> are rows of \<open>s\<close> in their places, and none that was on its way out stays.\<close>

definition shrinks :: "objects \<Rightarrow> objects \<Rightarrow> bool" where
  "shrinks s s' \<longleftrightarrow> sorted_objects s' \<and>
     (\<forall>w k. st_get (fst s') w = Some k \<longrightarrow>
        (\<exists>i. st_get (fst s) w = Some i \<and> mi_place k = mi_place i \<and> (going i \<longrightarrow> going k)))"

lemma shrinks_refl: "sorted_objects s \<Longrightarrow> shrinks s s"
  by (simp add: shrinks_def)

lemma shrinks_trans: "shrinks s t \<Longrightarrow> shrinks t u \<Longrightarrow> shrinks s u"
  unfolding shrinks_def by metis

lemma shrinksD:
  "shrinks s s' \<Longrightarrow> st_get (fst s') w = Some k \<Longrightarrow>
    \<exists>i. st_get (fst s) w = Some i \<and> mi_place k = mi_place i \<and> (going i \<longrightarrow> going k)"
  by (simp add: shrinks_def)

lemma set_state_shrinks:
  assumes "on_object (\<lambda>st. set_state st x) v s = Inr s'" and "sorted_objects s" and "x \<in> {ForRemoval, Removed}"
  shows "shrinks s s' \<and> (\<forall>k. st_get (fst s') v = Some k \<longrightarrow> going k)"
proof -
  from assms(1,2) obtain k l where k: "object v s = Some k" and l: "set_state (fst s) x k = Inr l"
    and s': "sorted_objects s'"
    and r: "\<And>w. st_get (fst s') w = (if w = v \<and> st_get (fst s) v \<noteq> None then Some l else st_get (fst s) w)"
    by (rule on_object_cases) (auto simp: set_state_vpath)
  have l': "mi_place l = mi_place k" "going l"
    using set_state_result [OF l] assms(3) by (auto simp: going_def)
  have "k = i" if "st_get (fst s) v = Some i" for i using that k by (simp add: object_def)
  with s' l' show ?thesis by (auto simp: shrinks_def r split: if_splits)
qed

interpretation shrinking: removal types "shrinks s0" for types s0
proof
  fix s s' v i
  assume inv: "shrinks s0 s"
  then show sorted: "sorted_objects s" by (simp add: shrinks_def)
  show "shrinks s0 s'" if "on_object set_for_removal v s = Inr s'"
    using set_state_shrinks [of ForRemoval v s s'] that sorted shrinks_trans [OF inv]
    by (simp add: set_for_removal_def [abs_def])
  show "shrinks s0 s'" if "on_object set_removed v s = Inr s'"
    using set_state_shrinks [of Removed v s s'] that sorted shrinks_trans [OF inv]
    by (simp add: set_removed_def [abs_def])
  show "shrinks s0 (delete_object v s)"
    using inv delete_object_cases(1) [OF sorted]
    by (auto simp: shrinks_def delete_object_cases(3) [OF sorted])
qed

text \<open>Every item with children is of a type that has some.\<close>

definition childful :: "item_type dict \<Rightarrow> store \<Rightarrow> bool" where
  "childful types st \<longleftrightarrow> (\<forall>i \<in> set st. \<forall>c \<in> set st.
     mi_parent_vpath c = Some (mi_vpath i) \<longrightarrow> item_might_have_children types i = Inr True)"

lemma might_have_children_place:
  "mi_place i = mi_place j \<Longrightarrow> item_might_have_children types i = item_might_have_children types j"
  using mi_place_eqD(1) [of i j] mi_place_eqD(8) [of i j types]
  by (simp add: item_might_have_children_def is_collection_def)

lemma childful_shrinks:
  assumes "childful types (fst s)" and "shrinks s s'" and "sorted_objects s"
  shows "childful types (fst s')"
  unfolding childful_def
proof (intro ballI impI)
  fix i c assume i: "i \<in> set (fst s')" and c: "c \<in> set (fst s')" and p: "mi_parent_vpath c = Some (mi_vpath i)"
  have get: "st_get (fst s') (mi_vpath k) = Some k" if "k \<in> set (fst s')" for k
    using assms(2) that by (simp add: shrinks_def sorted_objects_def st_get_iff)
  obtain i' c' where i': "st_get (fst s) (mi_vpath i) = Some i'" "mi_place i = mi_place i'"
    and c': "st_get (fst s) (mi_vpath c) = Some c'" "mi_place c = mi_place c'"
    using shrinksD [OF assms(2) get [OF i]] shrinksD [OF assms(2) get [OF c]] by blast
  have "i' \<in> set (fst s)" "c' \<in> set (fst s)" using i' c' st_get_Some by blast+
  moreover have "mi_parent_vpath c' = Some (mi_vpath i')" using p i' c' by (simp add: mi_place_def)
  ultimately have "item_might_have_children types i' = Inr True" using assms(1) unfolding childful_def by blast
  then show "item_might_have_children types i = Inr True" using might_have_children_place [OF i'(2)] by simp
qed

text \<open>An item of the table below another one through items of the table.\<close>

inductive beneath :: "store \<Rightarrow> string \<Rightarrow> string \<Rightarrow> bool" for st where
  itself: "st_get st v \<noteq> None \<Longrightarrow> beneath st v v"
| child: "st_get st v \<noteq> None \<Longrightarrow> st_get st c = Some k \<Longrightarrow> mi_parent_vpath k = Some v \<Longrightarrow> beneath st w c \<Longrightarrow>
    beneath st w v"

lemma beneath_shrinks: "beneath (fst s') w v \<Longrightarrow> shrinks s s' \<Longrightarrow> beneath (fst s) w v"
proof (induction rule: beneath.induct)
  case (itself v)
  then show ?case using shrinksD by (fastforce intro: beneath.itself)
next
  case (child v c k w)
  then obtain i where "st_get (fst s) c = Some i" "mi_place k = mi_place i" using shrinksD by blast
  moreover have "st_get (fst s) v \<noteq> None" using child.hyps(1) shrinksD [OF child.prems] by fastforce
  ultimately show ?case using child by (auto intro: beneath.child simp: mi_place_def)
qed

lemma remove_recursive_shrinks:
  "sorted_objects s \<Longrightarrow> remove_recursive_fuel n types v s = Inr s' \<Longrightarrow> shrinks s s'"
  by (rule shrinking.remove_recursive_inv) (simp_all add: shrinks_refl)

lemma shrinks_sorted: "shrinks s t \<Longrightarrow> sorted_objects t"
  by (simp add: shrinks_def)

definition shrinking_step :: "('a \<Rightarrow> objects \<Rightarrow> objects res) \<Rightarrow> bool" where
  "shrinking_step f \<longleftrightarrow> (\<forall>x u w. sorted_objects u \<longrightarrow> f x u = Inr w \<longrightarrow> shrinks u w)"

lemma shrinking_stepD: "shrinking_step f \<Longrightarrow> sorted_objects u \<Longrightarrow> f x u = Inr w \<Longrightarrow> shrinks u w"
  unfolding shrinking_step_def by blast

lemma for_res_shrinks:
  assumes "for_res f xs s = Inr s'" and "sorted_objects s" and "shrinking_step f"
  shows "shrinks s s'"
  using assms(1)
proof (rule for_res_invariant)
  fix x u w assume "shrinks s u" and "f x u = Inr w"
  then show "shrinks s w" using shrinking_stepD [OF assms(3)] shrinks_sorted shrinks_trans by blast
qed (rule shrinks_refl [OF assms(2)])

text \<open>An iteration over a list does its work on each of its elements, and the rest keeps it.\<close>

lemma for_res_member:
  assumes "for_res f xs s = Inr s'" and "x \<in> set xs" and "sorted_objects s" and "shrinking_step f"
  shows "\<exists>u w. shrinks s u \<and> f x u = Inr w \<and> shrinks w s'"
  using assms(1-3)
proof (induction xs arbitrary: s)
  case (Cons y ys)
  from Cons.prems(1) obtain t where t: "f y s = Inr t" and rest: "for_res f ys t = Inr s'"
    by (auto simp: rbind_Inr_iff)
  have st: "shrinks s t" using shrinking_stepD [OF assms(4) Cons.prems(3) t] .
  show ?case
  proof (cases "x = y")
    case True
    then show ?thesis
      using t for_res_shrinks [OF rest shrinks_sorted [OF st] assms(4)] shrinks_refl [OF Cons.prems(3)] by blast
  next
    case False
    with Cons.prems(2) Cons.IH [OF rest _ shrinks_sorted [OF st]] show ?thesis using shrinks_trans [OF st] by auto
  qed
qed simp

lemma remove_recursive_marks:
  assumes "remove_recursive_fuel n types v s = Inr s'" and "sorted_objects s" and "childful types (fst s)"
    and "beneath (fst s') w v" and "st_get (fst s') w = Some k"
  shows "going k"
  using assms
proof (induction n arbitrary: v s s' k)
  case (Suc n)
  let ?inh = "\<lambda>j s. rbind (remove_recursive_fuel n types j s) (delete_if_removed types j)"
  from Suc.prems(1) obtain s1 s2 s3 goes and js cs cs' :: store and i where
    s1: "for_res ?inh (map mi_vpath js) s = Inr s1"
    and cs: "children_of types v s1 = Inr cs"
    and s2: "for_res (remove_recursive_fuel n types) (map mi_vpath cs) s1 = Inr s2"
    and s3: "for_res (settle_child types goes) (map mi_vpath cs') s2 = Inr s3"
    and s': "on_object (if goes then set_removed else set_for_removal) v s3 = Inr s'"
    by (auto simp: rbind_Inr_iff)
  have settle: "shrinking_step (settle_child types goes)"
    using shrinking.settle_child_inv shrinks_refl unfolding shrinking_step_def by blast
  have rec: "shrinking_step (remove_recursive_fuel n types)"
    using remove_recursive_shrinks unfolding shrinking_step_def by blast
  have inh: "shrinking_step ?inh"
    using shrinking.delete_if_removed_inv remove_recursive_shrinks
    unfolding shrinking_step_def rbind_Inr_iff by blast
  have k1: "shrinks s s1" using for_res_shrinks [OF s1 Suc.prems(2) inh] .
  note sorted1 = shrinks_sorted [OF k1]
  have k2: "shrinks s1 s2" using for_res_shrinks [OF s2 sorted1 rec] .
  have k3: "shrinks s2 s3" using for_res_shrinks [OF s3 shrinks_sorted [OF k2] settle] .
  have k4: "shrinks s3 s'" and v: "\<And>k. st_get (fst s') v = Some k \<Longrightarrow> going k"
    using set_state_shrinks [of Removed v s3 s'] set_state_shrinks [of ForRemoval v s3 s'] s' shrinks_sorted [OF k3]
    by (auto simp: set_removed_def [abs_def] set_for_removal_def [abs_def] split: if_splits)
  from Suc.prems(4) show ?case
  proof (cases rule: beneath.cases)
    case itself
    then show ?thesis using v Suc.prems(5) by simp
  next
    case (child c l)
    have k14: "shrinks s1 s'" using k2 k3 k4 shrinks_trans by blast
    from shrinksD [OF k14 child(2)] obtain c1 where c1: "st_get (fst s1) c = Some c1" "mi_place l = mi_place c1" by blast
    obtain p where p: "st_get (fst s1) v = Some p" using child(1) shrinksD [OF k14] by fastforce
    have "c1 \<in> set (fst s1)" "p \<in> set (fst s1)" "mi_vpath p = v" "mi_vpath c1 = c"
      using c1 p st_get_Some by blast+
    moreover have "mi_parent_vpath c1 = Some v" using child(3) c1(2) by (simp add: mi_place_def)
    moreover have "childful types (fst s1)" using childful_shrinks [OF Suc.prems(3) k1 Suc.prems(2)] .
    ultimately have "item_might_have_children types p = Inr True" unfolding childful_def by blast
    then have "c1 \<in> set cs"
      using cs p \<open>c1 \<in> set (fst s1)\<close> \<open>mi_parent_vpath c1 = Some v\<close> \<open>mi_vpath p = v\<close>
      by (auto simp: children_of_def rbind_Inr_iff the_object_Inr object_def get_children_def bm_query_children_def)
    then have "c \<in> set (map mi_vpath cs)" using \<open>mi_vpath c1 = c\<close> by force
    from for_res_member [OF s2 this sorted1 rec] obtain u w' where
      u: "shrinks s1 u" and run: "remove_recursive_fuel n types c u = Inr w'" and rest: "shrinks w' s2" by blast
    have w': "shrinks w' s'" using rest k3 k4 shrinks_trans by blast
    from shrinksD [OF w' Suc.prems(5)] obtain k' where k': "st_get (fst w') w = Some k'" and "going k' \<longrightarrow> going k" by blast
    moreover have "sorted_objects u" using u by (simp add: shrinks_def)
    moreover have "childful types (fst u)"
      using childful_shrinks [OF \<open>childful types (fst s1)\<close> u sorted1] .
    ultimately show ?thesis using Suc.IH [OF run _ _ beneath_shrinks [OF child(4) w']] by blast
  qed
qed simp

text \<open>C19: after a removal the item is gone or marked for removal; and if it is still there, so is every item
  left beneath it on its way out, marked or removed.\<close>

theorem removal_marks_tree:
  assumes "remove_item m path st = Inr (Inr v, st')" and "sorted_rows st" and "childful (mm_types m) st"
  shows "(\<forall>k. st_get st' v = Some k \<longrightarrow> mi_state k = ForRemoval) \<and>
    (\<forall>w k. beneath st' w v \<longrightarrow> st_get st' w = Some k \<longrightarrow> going k)"
proof -
  let ?s0 = "(st, []) :: objects"
  from remove_item_cases [OF assms(1)] obtain s where run: "remove_item_in (mm_types m) v ?s0 = Inr s"
    and st': "st' = fst s" by blast
  have sorted0: "sorted_objects ?s0" using assms(2) by (simp add: sorted_objects_def sorted_rows_def)
  from run obtain t where t: "remove_recursive_fuel (length st + 1) (mm_types m) v ?s0 = Inr t"
    and s: "delete_if_removed (mm_types m) v t = Inr s"
    unfolding remove_item_in_def rbind_Inr_iff fst_conv by blast
  note shr = remove_recursive_shrinks [OF sorted0 t]
  have t_s: "shrinks t s"
    using shrinking.delete_if_removed_inv [OF shrinks_refl [OF shrinks_sorted [OF shr]] s] .
  have marks: "going k" if "beneath (fst t) w v" "st_get (fst t) w = Some k" for w k
    using remove_recursive_marks [OF t sorted0 _ that] assms(3) by simp
  have "going k" if w: "beneath st' w v" "st_get st' w = Some k" for w k
    using marks [OF beneath_shrinks [OF _ t_s]] shrinksD [OF t_s] w unfolding st' by blast
  moreover have "mi_state k \<noteq> Removed" if k: "st_get st' v = Some k" for k
  proof
    assume r: "mi_state k = Removed"
    from s obtain i where i: "object v t = Some i"
      and "mi_state i \<noteq> Removed \<and> s = t \<or> s = delete_object v t"
      by (auto simp: delete_if_removed_def rbind_Inr_iff the_object_Inr split: if_splits dest: delete_removed_result)
    then show False
      using k r i delete_object_cases(3) [OF shrinks_sorted [OF shr], of v v] by (auto simp: st' object_def)
  qed
  ultimately show ?thesis
    by (auto simp: going_def intro: beneath.itself)
qed

section \<open>What is left after a plan\<close>

text \<open>Where the cleanup of the table \<open>st\<close> is when the removed items left in it are among \<open>left\<close>.\<close>

definition cleaning :: "store \<Rightarrow> string set \<Rightarrow> objects \<Rightarrow> bool" where
  "cleaning st left s \<longleftrightarrow> sorted_objects s \<and>
     (\<forall>w i. st_get st w = Some i \<longrightarrow> mi_state i \<noteq> Removed \<longrightarrow> st_get (fst s) w = Some i) \<and>
     (\<forall>w k. object w s = Some k \<longrightarrow> (\<exists>i. st_get st w = Some i \<and>
        (k = i \<or> mi_place k = mi_place i \<and> mi_state i = Removed \<and> mi_state k = ForRemoval))) \<and>
     (\<forall>w k. st_get (fst s) w = Some k \<longrightarrow> mi_state k = Removed \<longrightarrow> w \<in> left)"

definition removed_in :: "store \<Rightarrow> string \<Rightarrow> bool" where
  "removed_in st v \<longleftrightarrow> (\<forall>i. st_get st v = Some i \<longrightarrow> mi_state i = Removed)"

lemma cleaning_mono: "cleaning st left s \<Longrightarrow> left \<subseteq> right \<Longrightarrow> cleaning st right s"
  unfolding cleaning_def by blast

lemma cleaning_objectD:
  "cleaning st left s \<Longrightarrow> object w s = Some k \<Longrightarrow> \<exists>i. st_get st w = Some i \<and>
    (k = i \<or> mi_place k = mi_place i \<and> mi_state i = Removed \<and> mi_state k = ForRemoval)"
  unfolding cleaning_def by blast

lemma cleaning_leftD: "cleaning st left s \<Longrightarrow> st_get (fst s) w = Some k \<Longrightarrow> mi_state k = Removed \<Longrightarrow> w \<in> left"
  unfolding cleaning_def by blast

lemma cleaning_keepD:
  "cleaning st left s \<Longrightarrow> st_get st w = Some i \<Longrightarrow> mi_state i \<noteq> Removed \<Longrightarrow> st_get (fst s) w = Some i"
  unfolding cleaning_def by blast

lemma cleaning_removed: "cleaning st left s \<Longrightarrow> object c s = Some k \<Longrightarrow> mi_state k = Removed \<Longrightarrow> removed_in st c"
  using cleaning_objectD by (fastforce simp: removed_in_def)

lemma cleaning_mark:
  assumes c: "cleaning st left s" and step: "on_object set_for_removal v s = Inr s'" and v: "removed_in st v"
  shows "cleaning st (left - {v}) s'"
proof -
  have sorted: "sorted_objects s" using c by (simp add: cleaning_def)
  from step sorted obtain k l where k: "object v s = Some k" and l: "set_for_removal (fst s) k = Inr l"
    and s': "sorted_objects s'" and o: "\<And>w. object w s' = (if w = v then Some l else object w s)"
    and r: "\<And>w. st_get (fst s') w = (if w = v \<and> st_get (fst s) v \<noteq> None then Some l else st_get (fst s) w)"
    by (rule on_object_cases) (auto simp: set_for_removal_def set_state_vpath)
  have l': "mi_place l = mi_place k" "mi_state l = ForRemoval"
    using set_state_result [of "fst s" ForRemoval k l] l by (simp_all add: set_for_removal_def)
  obtain i where i: "st_get st v = Some i" "mi_place k = mi_place i" using cleaning_objectD [OF c k] by auto
  with v have "mi_state i = Removed" by (simp add: removed_in_def)
  show ?thesis
    unfolding cleaning_def o r
  proof (intro conjI allI impI)
    fix w k' assume "(if w = v then Some l else object w s) = Some k'"
    then show "\<exists>i. st_get st w = Some i \<and>
        (k' = i \<or> mi_place k' = mi_place i \<and> mi_state i = Removed \<and> mi_state k' = ForRemoval)"
      using cleaning_objectD [OF c] l' i \<open>mi_state i = Removed\<close> by (cases "w = v") auto
  next
    fix w k' assume "(if w = v \<and> st_get (fst s) v \<noteq> None then Some l else st_get (fst s) w) = Some k'"
      and "mi_state k' = Removed"
    then show "w \<in> left - {v}" using c l'(2) unfolding cleaning_def by (auto split: if_splits)
  next
    fix w j assume "st_get st w = Some j" and "mi_state j \<noteq> Removed"
    then show "(if w = v \<and> st_get (fst s) v \<noteq> None then Some l else st_get (fst s) w) = Some j"
      using c i \<open>mi_state i = Removed\<close> unfolding cleaning_def by auto
  qed (rule s')
qed

lemma cleaning_delete:
  assumes "cleaning st left s" and "removed_in st v"
  shows "cleaning st (left - {v}) (delete_object v s)"
proof -
  have sorted: "sorted_objects s" using assms(1) by (simp add: cleaning_def)
  show ?thesis
    using assms unfolding cleaning_def removed_in_def delete_object_cases(2,3) [OF sorted]
    using delete_object_cases(1) [OF sorted] by auto
qed

lemma mark_removed_child_cleaning:
  assumes "cleaning st left s" and "mark_removed_child c s = Inr s'"
  shows "cleaning st left s'"
proof -
  from assms(2) obtain i where i: "object c s = Some i"
    and "s' = s \<or> mi_state i = Removed \<and> on_object set_for_removal c s = Inr s'"
    by (auto simp: mark_removed_child_def rbind_Inr_iff the_object_Inr split: if_splits)
  then show ?thesis
    using assms(1) cleaning_mark [OF assms(1)] cleaning_removed [OF assms(1) i] cleaning_mono by blast
qed

lemma delete_or_mark_cleaning:
  assumes "cleaning st left s" and "delete_or_mark types v s = Inr s'" and "removed_in st v"
  shows "cleaning st (left - {v}) s'"
proof (cases "delete_removed_item types True v s")
  case (Inr t)
  with assms(2) delete_removed_result [OF Inr] have "s' = delete_object v s" by (simp add: delete_or_mark_def)
  then show ?thesis using cleaning_delete [OF assms(1,3)] by simp
next
  case (Inl e)
  with assms(2) obtain u and cs :: store where u: "for_res mark_removed_child (map mi_vpath cs) s = Inr u"
    and s': "on_object set_for_removal v u = Inr s'"
    by (cases e) (auto simp: delete_or_mark_def rbind_Inr_iff)
  have "cleaning st left u"
    using u by (rule for_res_invariant) (rule assms(1), rule mark_removed_child_cleaning)
  then show ?thesis using cleaning_mark s' assms(3) by blast
qed

lemma cleanup_loop:
  "for_res (delete_or_mark types) vs s = Inr s' \<Longrightarrow> cleaning st left s \<Longrightarrow> left \<subseteq> set vs \<Longrightarrow>
    \<forall>v \<in> set vs. removed_in st v \<Longrightarrow> cleaning st {} s'"
proof (induction vs arbitrary: s left)
  case (Cons v vs)
  from Cons.prems(1) obtain t where t: "delete_or_mark types v s = Inr t"
    and rest: "for_res (delete_or_mark types) vs t = Inr s'" by (auto simp: rbind_Inr_iff)
  from delete_or_mark_cleaning [OF Cons.prems(2) t] Cons.prems(4) have "cleaning st (left - {v}) t" by simp
  from Cons.IH [OF rest this] Cons.prems(3,4) show ?case by auto
qed (auto elim: cleaning_mono)

lemma restore_collection_cleaning:
  assumes "cleaning st {} s" and "restore_collection v s = Inr s'" and "removed_in st v"
  shows "cleaning st {} s'"
proof -
  from assms(2) have "s' = s \<or> (\<exists>t i. on_object set_for_removal v s = Inr t \<and> object v t = Some i \<and>
      s' = (bm_add i (fst t), st_delete v (snd t)))"
    by (auto simp: restore_collection_def rbind_Inr_iff the_object_Inr split: option.splits)
  then show ?thesis
  proof
    assume "\<exists>t i. on_object set_for_removal v s = Inr t \<and> object v t = Some i \<and>
      s' = (bm_add i (fst t), st_delete v (snd t))"
    then obtain t i where t: "on_object set_for_removal v s = Inr t" and i: "object v t = Some i"
      and s': "s' = (bm_add i (fst t), st_delete v (snd t))" by blast
    have c: "cleaning st {} t" using cleaning_mark [OF assms(1) t assms(3)] by simp
    have v: "mi_vpath i = v" using object_vpath [OF i] .
    obtain j where j: "st_get st v = Some j" and ij: "i = j \<or> mi_state i = ForRemoval"
      using cleaning_objectD [OF c i] by blast
    have "mi_state i \<noteq> Removed"
    proof -
      have "sorted_objects s" using assms(1) by (simp add: cleaning_def)
      with t obtain k where "set_for_removal (fst s) k = Inr i"
        using i by (rule_tac on_object_cases [OF t]) (auto simp: set_for_removal_def set_state_vpath)
      then show ?thesis using set_state_result by (fastforce simp: set_for_removal_def)
    qed
    note state = this
    have sorted: "sorted_rows (fst t)" "sorted_rows (snd t)" using c by (auto simp: cleaning_def sorted_objects_def)
    have o: "object w s' = object w t" for w
      using i v sorted
      by (auto simp: s' object_def bm_add_def st_get_put st_get_delete split: option.splits)
    have r: "st_get (fst s') w = (if w = v then Some i else st_get (fst t) w)" for w
      using sorted v by (simp add: s' bm_add_def st_get_put)
    have "mi_state j = Removed" using assms(3) j by (simp add: removed_in_def)
    then have "st_get (fst s') w = Some k" if "st_get st w = Some k" "mi_state k \<noteq> Removed" for w k
      using cleaning_keepD [OF c that] j that by (cases "w = v") (simp_all add: r)
    moreover have "mi_state k \<noteq> Removed" if "st_get (fst s') w = Some k" for w k
      using cleaning_leftD [OF c, of w k] state that by (cases "w = v") (auto simp: r)
    moreover have "sorted_objects s'"
      using sorted by (simp add: s' sorted_objects_def bm_add_def sorted_st_put sorted_st_delete)
    ultimately show ?thesis unfolding cleaning_def o using cleaning_objectD [OF c] by (intro conjI allI impI) metis+
  qed (use assms(1) in simp)
qed

lemma set_by_parent_reversed: "set (by_parent_reversed is) = set is"
proof -
  have "set (insert_by_parent i js) = insert i (set js)" for i js
    by (induction js) auto
  then show ?thesis unfolding by_parent_reversed_def by (induction "is") auto
qed

text \<open>The cleanup after a plan leaves no removed item in the model: each is gone or, when something
  that is not removed still depends on it, marked for removal in its place. All other items stay as
  they are.\<close>

theorem cleanup_after_plan:
  assumes "delete_removed_items_after_plan m st = Inr st'" and "sorted_rows st"
  shows "(\<forall>k \<in> set st'. mi_state k \<noteq> Removed \<and>
      (k \<in> set st \<or> (\<exists>i \<in> set st. mi_place k = mi_place i \<and> mi_state i = Removed \<and> mi_state k = ForRemoval))) \<and>
    (\<forall>i \<in> set st. mi_state i \<noteq> Removed \<longrightarrow> i \<in> set st')"
proof -
  let ?r = "by_parent_reversed (bm_query_by_states [Removed] st)"
  from assms(1) obtain s t where s: "for_res (delete_or_mark (mm_types m)) (map mi_vpath ?r) (st, []) = Inr s"
    and t: "for_res restore_collection (map mi_vpath (filter is_collection ?r)) s = Inr t" and st': "st' = fst t"
    by (auto simp: delete_removed_items_after_plan_def Let_def rbind_Inr_iff)
  have removed: "\<forall>v \<in> set (map mi_vpath ?r). removed_in st v"
    using assms(2) by (auto simp: set_by_parent_reversed bm_query_by_states_def removed_in_def st_get_iff sorted_rows_def
        dest: inj_onD [OF distinct_map [THEN iffD1, THEN conjunct2]])
  have "cleaning st (mi_vpath ` set ?r) (st, [])"
    using assms(2)
    by (auto simp: cleaning_def sorted_objects_def sorted_rows_def object_def set_by_parent_reversed
        bm_query_by_states_def st_get_def [of "[]"] dest: st_get_Some split: option.splits)
  from cleanup_loop [OF s this _ removed] have start: "cleaning st {} s" by simp
  from t have c: "cleaning st {} t"
  proof (rule for_res_invariant)
    show "cleaning st {} s" by (rule start)
    fix v u w assume "v \<in> set (map mi_vpath (filter is_collection ?r))" and "cleaning st {} u"
      and "restore_collection v u = Inr w"
    moreover from this removed have "removed_in st v" by auto
    ultimately show "cleaning st {} w" by (rule_tac restore_collection_cleaning)
  qed
  have sorted: "sorted_rows st'" using c by (simp add: st' cleaning_def sorted_objects_def)
  have "mi_state k \<noteq> Removed \<and>
      (k \<in> set st \<or> (\<exists>i \<in> set st. mi_place k = mi_place i \<and> mi_state i = Removed \<and> mi_state k = ForRemoval))"
    if "k \<in> set st'" for k
  proof -
    have g: "st_get (fst t) (mi_vpath k) = Some k" using sorted that by (simp add: st' st_get_iff)
    then have "object (mi_vpath k) t = Some k" by (simp add: object_def)
    from cleaning_objectD [OF c this] cleaning_leftD [OF c g] show ?thesis using assms(2) by (auto simp: st_get_iff)
  qed
  moreover have "i \<in> set st'" if "i \<in> set st" "mi_state i \<noteq> Removed" for i
    using cleaning_keepD [OF c, of "mi_vpath i" i] that sorted assms(2) by (auto simp: st' st_get_iff)
  ultimately show ?thesis by blast
qed

section \<open>Examples\<close>

lemma removal_example:
  "\<exists>st'. remove_item ex_manager ''/nodes/n1'' ex_tree = Inr (Inr ''/nodes/n1'', st') \<and>
    st_get st' ''/nodes/b1'' = None"
proof -
  have "(case remove_item ex_manager ''/nodes/n1'' ex_tree of
      Inr (Inr w, st') \<Rightarrow> w = ''/nodes/n1'' \<and> st_get st' ''/nodes/b1'' = None | _ \<Rightarrow> False)" by code_simp
  from accepted_outcome [OF this] show ?thesis by blast
qed

theorem removal_spares_deployed_witness:
  "\<exists>st' j. remove_item ex_manager ''/nodes/n1'' ex_tree = Inr (Inr ''/nodes/n1'', st') \<and>
    st_get st' ''/nodes/b1'' = None \<and> st_get st' ''/nodes/n1'' = Some j \<and> mi_state j \<noteq> Removed"
proof -
  obtain st' where r: "remove_item ex_manager ''/nodes/n1'' ex_tree = Inr (Inr ''/nodes/n1'', st')"
    and b: "st_get st' ''/nodes/b1'' = None" using removal_example by blast
  have n: "st_get ex_tree ''/nodes/n1'' = Some ex_node" by code_simp
  have "\<not> disposable ex_node" by code_simp
  from removal_spares_deployed [OF r ex_tree_sorted n this] r b show ?thesis by blast
qed

theorem removal_marks_tree_witness:
  "\<exists>st'. remove_item ex_manager ''/nodes/n1'' ex_tree = Inr (Inr ''/nodes/n1'', st') \<and>
    (\<forall>k. st_get st' ''/nodes/n1'' = Some k \<longrightarrow> mi_state k = ForRemoval)"
proof -
  obtain st' where r: "remove_item ex_manager ''/nodes/n1'' ex_tree = Inr (Inr ''/nodes/n1'', st')"
    using removal_example by blast
  have "childful (mm_types ex_manager) ex_tree" by code_simp
  from removal_marks_tree [OF r ex_tree_sorted this] r show ?thesis by blast
qed

text \<open>After a plan that removed the node, although the blade still inherits from it.\<close>

definition ex_after_plan :: store where
  "ex_after_plan = st_put (ex_node\<lparr>mi_state := Removed, mi_previous_state := Some ForRemoval\<rparr>) ex_tree"

theorem cleanup_after_plan_witness:
  "\<exists>st'. delete_removed_items_after_plan ex_manager ex_after_plan = Inr st' \<and>
    (\<forall>k \<in> set st'. mi_state k \<noteq> Removed) \<and> map_option mi_state (st_get st' ''/nodes/n1'') = Some ForRemoval"
proof -
  have "(case delete_removed_items_after_plan ex_manager ex_after_plan of
      Inr st' \<Rightarrow> map_option mi_state (st_get st' ''/nodes/n1'') = Some ForRemoval | Inl e \<Rightarrow> False)" by code_simp
  then obtain st' where r: "delete_removed_items_after_plan ex_manager ex_after_plan = Inr st'"
    and n: "map_option mi_state (st_get st' ''/nodes/n1'') = Some ForRemoval" by (auto split: sum.splits)
  have "sorted_rows ex_after_plan" unfolding ex_after_plan_def using ex_tree_sorted by (rule sorted_st_put)
  from cleanup_after_plan [OF r this] r n show ?thesis by blast
qed

end
