(* ===== verification/Query_Item.thy ===== *)
theory Query_Item
  imports Model_Remove
begin

text \<open>
  Attribute access by name of \<open>litp/core/model_item.py\<close>, and the class \<open>QueryItem\<close> of
  \<open>litp/core/model_manager.py\<close>: how plugins see the items of the model, search below them and set
  those properties that plugins may update. A query item is a view of the item at its vpath; the
  answers are items, wrapped again by the code.
\<close>

section \<open>Attributes by name\<close>

text \<open>The value of a property, if it is set, the name of the method of a view, or a child.\<close>

datatype item_attribute = PropAttr "pval option" | ViewAttr string | ChildAttr "model_item option"

definition no_field :: "string \<Rightarrow> exn" where
  "no_field n = AttributeError (''No such field '' @ n)"

definition child_attribute :: "item_type dict \<Rightarrow> store \<Rightarrow> model_item \<Rightarrow> string \<Rightarrow> item_attribute res" where
  "child_attribute types st i n =
     (if is_collection i then
        rbind (get_child types st i n) (\<lambda>c. if c = None then Inl (no_field n) else Inr (ChildAttr c))
      else Inl (no_field n))"

definition get_attribute :: "item_type dict \<Rightarrow> store \<Rightarrow> model_item \<Rightarrow> string \<Rightarrow> item_attribute res" where
  "get_attribute types st i n =
     rbind (item_type_of types i) (\<lambda>t.
       case map_of (it_structure t) n of
         Some (Property p) \<Rightarrow> Inr (PropAttr (map_of (mi_properties i) n))
       | Some (View w) \<Rightarrow> Inr (ViewAttr (vf_callable w))
       | Some f \<Rightarrow> rbind (get_child types st i n) (\<lambda>c. Inr (ChildAttr c))
       | None \<Rightarrow> child_attribute types st i n)"

text \<open>Through a query item a property has its inherited value, a view is called, and a child is
  looked up among the children of the item. What a view raises becomes a \<open>ViewError\<close>.\<close>

datatype query_value = QProp "pval option" | QView pval | QChild "model_item option"

fun as_view_error :: "(exn \<Rightarrow> string) \<Rightarrow> pval res \<Rightarrow> pval res" where
  "as_view_error show_exn (Inl (ViewError msg)) = Inl (ViewError msg)"
| "as_view_error show_exn (Inl e) = Inl (ViewError (show_exn e))"
| "as_view_error show_exn (Inr v) = Inr v"

definition query_children :: "item_type dict \<Rightarrow> store \<Rightarrow> model_item \<Rightarrow> store res" where
  "query_children types st i = get_children types st i"

definition query_child :: "item_type dict \<Rightarrow> store \<Rightarrow> model_item \<Rightarrow> string \<Rightarrow> model_item option res" where
  "query_child types st i n = rbind (query_children types st i) (\<lambda>cs. Inr (children_get cs n))"

definition query_attribute ::
  "(exn \<Rightarrow> string) \<Rightarrow> (string \<Rightarrow> model_item \<Rightarrow> pval res) \<Rightarrow> item_type dict \<Rightarrow> store \<Rightarrow> model_item \<Rightarrow> string \<Rightarrow> query_value res" where
  "query_attribute show_exn call_view types st i n =
     rbind (item_type_of types i) (\<lambda>t.
       case map_of (it_structure t) n of
         Some (Property p) \<Rightarrow> rbind (get_merged_properties st i False) (\<lambda>d. Inr (QProp (map_of d n)))
       | Some (View w) \<Rightarrow> rbind (as_view_error show_exn (call_view (vf_callable w) i)) (\<lambda>v. Inr (QView v))
       | Some f \<Rightarrow> rbind (query_child types st i n) (\<lambda>c. Inr (QChild c))
       | None \<Rightarrow>
           if is_collection i then
             rbind (query_child types st i n) (\<lambda>c. if c = None then Inl (no_field n) else Inr (QChild c))
           else Inl (no_field n))"

section \<open>Searches and states\<close>

definition descendant_in_state :: "item_state \<Rightarrow> manager \<Rightarrow> store \<Rightarrow> model_item \<Rightarrow> bool res" where
  "descendant_in_state s m st i =
     rbind (query_descends (mm_types m) (mm_like m) st i) (\<lambda>ds. Inr (list_ex (\<lambda>d. mi_state d = s) ds))"

definition has_initial_dependencies :: "manager \<Rightarrow> store \<Rightarrow> model_item \<Rightarrow> bool res" where
  "has_initial_dependencies = descendant_in_state Initial"

definition has_updated_dependencies :: "manager \<Rightarrow> store \<Rightarrow> model_item \<Rightarrow> bool res" where
  "has_updated_dependencies = descendant_in_state Updated"

definition has_removed_dependencies :: "manager \<Rightarrow> store \<Rightarrow> model_item \<Rightarrow> bool res" where
  "has_removed_dependencies = descendant_in_state ForRemoval"

text \<open>The criteria of a search name properties of the type or public members of \<open>QueryItem\<close>, which
  are called when they are methods; the expected values are texts and flags. A member that is an
  object equals none of them.\<close>

datatype member_value = MText pval | MFlag bool | MObject

definition object_or_none :: "model_item option res \<Rightarrow> member_value res" where
  "object_or_none r = rbind r (\<lambda>x. Inr (if x = None then MText VNone else MObject))"

definition state_text :: "item_state \<Rightarrow> string" where
  "state_text s =
     (case s of Initial \<Rightarrow> ''Initial'' | Applied \<Rightarrow> ''Applied'' | Updated \<Rightarrow> ''Updated''
      | ForRemoval \<Rightarrow> ''ForRemoval'' | Removed \<Rightarrow> ''Removed'')"

definition query_members :: "manager \<Rightarrow> store \<Rightarrow> model_item \<Rightarrow> member_value res dict" where
  "query_members m st i =
     (let types = mm_types m; flag = (\<lambda>n r. (n, rbind r (\<lambda>b. Inr (MFlag b))));
          text = (\<lambda>n s. (n, Inr (MText (VStr s)))); object = (\<lambda>n. (n, Inr MObject))
      in [text ''item_id'' (mi_item_id i), text ''item_type_id'' (mi_item_type_id i),
          text ''vpath'' (mi_vpath i), text ''get_vpath'' (mi_vpath i), text ''get_state'' (state_text (mi_state i)),
          flag ''is_initial'' (Inr (mi_state i = Initial)), flag ''is_applied'' (Inr (mi_state i = Applied)),
          flag ''is_updated'' (Inr (mi_state i = Updated)), flag ''is_for_removal'' (Inr (mi_state i = ForRemoval)),
          flag ''is_removed'' (Inr (mi_state i = Removed)), flag ''is_node'' (Inr (is_node types i)),
          flag ''is_ms'' (Inr (is_ms types i)), flag ''is_cluster'' (Inr (is_cluster types i)),
          flag ''applied_properties_determinable'' (Inr (mi_apd i)),
          flag ''has_initial_dependencies'' (has_initial_dependencies m st i),
          flag ''has_updated_dependencies'' (has_updated_dependencies m st i),
          flag ''has_removed_dependencies'' (has_removed_dependencies m st i),
          object ''item_type'', object ''properties'', object ''applied_properties'',
          (''parent'', object_or_none (Inr (get_parent st i))), (''get_parent'', object_or_none (Inr (get_parent st i))),
          (''get_source'', object_or_none (Inr (get_source st i))), (''get_node'', object_or_none (get_node types st i)),
          (''get_ms'', object_or_none (get_ms types st i)), (''get_cluster'', object_or_none (get_cluster types st i))] @
         map (\<lambda>n. (n, Inl (TypeError n))) [''get_ancestor'', ''clear_property'', ''query'', ''query_by_vpath''])"

fun members_match :: "member_value res dict \<Rightarrow> member_value dict \<Rightarrow> bool res" where
  "members_match ms [] = Inr True"
| "members_match ms ((n, expected) # ps) =
     rbind (the (map_of ms n)) (\<lambda>v. if v \<noteq> expected then Inr False else members_match ms ps)"

definition match_qparams :: "manager \<Rightarrow> store \<Rightarrow> member_value dict \<Rightarrow> model_item \<Rightarrow> bool res" where
  "match_qparams m st qparams i =
     rbind (item_type_of (mm_types m) i) (\<lambda>t.
       let is_prop = (\<lambda>(n, v). as_property (map_of (it_structure t) n) \<noteq> None);
           (props, others) = List.partition is_prop qparams
       in if list_ex (\<lambda>(n, v). \<not> has_key n (query_members m st i)) others then Inr False
          else rbind (get_merged_properties st i False) (\<lambda>d.
            if list_all (\<lambda>(n, v). case map_of d n of None \<Rightarrow> False | Some w \<Rightarrow> v = MText w) props
            then members_match (query_members m st i) others
            else Inr False))"

definition get_matched_model_item :: "manager \<Rightarrow> store \<Rightarrow> string \<Rightarrow> member_value dict \<Rightarrow> model_item \<Rightarrow> bool res" where
  "get_matched_model_item m st ty qparams i =
     (if is_collection i \<or> \<not> mi_extends (mm_types m) i ty then Inr False else match_qparams m st qparams i)"

definition query_model_item ::
  "manager \<Rightarrow> store \<Rightarrow> model_item \<Rightarrow> string \<Rightarrow> member_value dict \<Rightarrow> store res" where
  "query_model_item m st i ty qparams =
     rbind (query_descends (mm_types m) (mm_like m) st i) (\<lambda>ds.
       filter_res (get_matched_model_item m st ty qparams) ds)"

text \<open>\<open>ModelManager.query\<close>: over the whole model, without the inherited items.\<close>

definition query_manager :: "manager \<Rightarrow> store \<Rightarrow> string \<Rightarrow> member_value dict \<Rightarrow> store res" where
  "query_manager m st ty qparams =
     filter_res (get_matched_model_item m st ty qparams)
       (filter (\<lambda>i. \<not> given (mi_source_vpath i))
         (bm_query_by_item_types (ty # (if has_key ty (mm_types m) then get_extending_types (mm_types m) ty else [])) st))"

definition query_all :: "manager \<Rightarrow> store \<Rightarrow> member_value dict \<Rightarrow> store res" where
  "query_all m st qparams = filter_res (match_qparams m st qparams) (bm_query st)"

text \<open>\<open>_set_state\<close> with \<open>recursive\<close>: the recursion visits the children but sets the state of the
  item the query item stands for each time.\<close>

fun set_model_item_state_fuel :: "nat \<Rightarrow> item_type dict \<Rightarrow> string \<Rightarrow> item_state \<Rightarrow> bool \<Rightarrow> string \<Rightarrow> store \<Rightarrow> store res" where
  "set_model_item_state_fuel 0 types self s recursive v st = Inl diverges"
| "set_model_item_state_fuel (Suc n) types self s recursive v st =
     (case st_get st v of
        None \<Rightarrow> Inr st
      | Some i \<Rightarrow>
          rbind (if recursive then
                   rbind (get_children types st i) (\<lambda>cs.
                     for_res (set_model_item_state_fuel n types self s True) (map mi_vpath cs) st)
                 else Inr st)
            (on_item (\<lambda>st. set_state st s) self))"

definition set_query_item_state :: "item_type dict \<Rightarrow> item_state \<Rightarrow> bool \<Rightarrow> string \<Rightarrow> store \<Rightarrow> store res" where
  "set_query_item_state types s recursive v st =
     set_model_item_state_fuel (length st + 1) types v s recursive v st"

section \<open>Updates by plugins\<close>

definition plugin_errors :: "string \<Rightarrow> exn" where
  "plugin_errors n = AttributeError (''ValidationErrors occurred during update of property '' @ CHR 0x22 # n @ [CHR 0x22])"

text \<open>The properties of the item itself, with the new value, go through the validators of the type.\<close>

definition validate_updatable_plugin_property ::
  "manager \<Rightarrow> store \<Rightarrow> model_item \<Rightarrow> string \<Rightarrow> pval \<Rightarrow> bool \<Rightarrow> validation_error list res" where
  "validate_updatable_plugin_property m st i n v clear =
     rbind (item_type_of (mm_types m) i) (\<lambda>t.
       rbind (if clear then clear_property_validator (mm_types m) st i n
              else case map_of (it_structure t) n of
                     Some (Property p) \<Rightarrow> run_property_type_validators (mm_env m) (pf_prop_type p) n v
                   | _ \<Rightarrow> Inl (AttributeError ''prop_type'')) (\<lambda>es.
       rbind (run_item_type_validators (mm_env m) t (AList.update n v (mi_properties i))) (\<lambda>fs.
         Inr (es @ fs))))"

definition validate_plugin_update ::
  "manager \<Rightarrow> store \<Rightarrow> model_item \<Rightarrow> string \<Rightarrow> pval \<Rightarrow> bool \<Rightarrow> unit res" where
  "validate_plugin_update m st i n v clear =
     rbind (item_type_of (mm_types m) i) (\<lambda>t.
       case map_of (it_structure t) n of
         None \<Rightarrow> Inl (no_field n)
       | Some (Property p) \<Rightarrow>
           (if \<not> pf_updatable_plugin p then Inl (AttributeError (''Field '' @ n @ '' is not updatable by plugins''))
            else rbind (get_reference_read_only (mm_types m) st (get_parent st i) (mi_item_id i)) (\<lambda>ro.
              if ro then Inl (AttributeError ''Read-only reference cannot be updated'')
              else rbind (validate_updatable_plugin_property m st i n v clear) (\<lambda>es.
                if es \<noteq> [] \<or> check_item_is_not_for_removal (get_parent st i) (mi_vpath i) \<noteq> None
                then Inl (plugin_errors n) else Inr ())))
       | Some f \<Rightarrow> Inl (AttributeError (''Field '' @ n @ '' is not a Property'')))"

definition set_plugin_property ::
  "manager \<Rightarrow> string \<Rightarrow> string \<Rightarrow> pval \<Rightarrow> bool \<Rightarrow> store \<Rightarrow> store res" where
  "set_plugin_property m vpath n v clear st =
     (case st_get st vpath of
        None \<Rightarrow> Inl (AttributeError (''no item '' @ vpath))
      | Some i \<Rightarrow>
          rbind (validate_plugin_update m st i n v clear) (\<lambda>_.
            if item_for_removal_exists st vpath then
              rbind (recover_item_for_removal m vpath [(n, v)] True st) (\<lambda>(r, st).
                case r of Inl es \<Rightarrow> Inl (plugin_errors n) | Inr w \<Rightarrow> Inr st)
            else rbind (inherited_items_recursive st vpath) (\<lambda>is.
              rbind (on_item (\<lambda>st. update_properties (mm_types m) st [(n, v)]) vpath st)
                (update_inherited_items_state m (map mi_vpath is) [(n, v)]))))"

text \<open>Assignment to an attribute: nothing happens when the item is gone; a query item given to a
  plugin for reading cannot be written.\<close>

definition query_setattr :: "manager \<Rightarrow> bool \<Rightarrow> string \<Rightarrow> string \<Rightarrow> pval \<Rightarrow> store \<Rightarrow> store res" where
  "query_setattr m updatable vpath n v st =
     (case st_get st vpath of
        None \<Rightarrow> Inr st
      | Some i \<Rightarrow>
          if \<not> updatable then Inl (AttributeError ''Not updatable'')
          else rbind (item_type_of (mm_types m) i) (\<lambda>t.
            if has_key n (it_structure t) then set_plugin_property m vpath n v False st
            else Inl (AttributeError (''Field '' @ n @ '' doesn'' @ CHR 0x27 # ''t exist''))))"

definition clear_property :: "manager \<Rightarrow> string \<Rightarrow> string \<Rightarrow> store \<Rightarrow> store res" where
  "clear_property m vpath n st = set_plugin_property m vpath n VNone True st"


section \<open>What a plugin can change\<close>

lemma plugin_update_valid:
  assumes "validate_plugin_update m st i n x clear = Inr ()"
  obtains t p where "item_type_of (mm_types m) i = Inr t" "map_of (it_structure t) n = Some (Property p)"
    "pf_updatable_plugin p" "validate_updatable_plugin_property m st i n x clear = Inr []"
proof -
  from assms obtain t f where t: "item_type_of (mm_types m) i = Inr t" "map_of (it_structure t) n = Some f"
    by (auto simp: validate_plugin_update_def rbind_Inr_iff split: option.splits)
  with assms that show ?thesis
    by (cases f) (auto simp: validate_plugin_update_def rbind_Inr_iff split: if_splits)
qed


section \<open>Examples\<close>

fun opened :: "field \<Rightarrow> field" where
  "opened (Property p) = Property (p\<lparr>pf_updatable_plugin := True\<rparr>)"
| "opened f = f"

definition plugin_manager :: manager where
  "plugin_manager = ex_manager\<lparr>mm_types :=
     map (\<lambda>(k, t). (k, t\<lparr>it_structure := map (\<lambda>(n, f). (n, opened f)) (it_structure t)\<rparr>)) (mm_types ex_manager)\<rparr>"


text \<open>A recursive change of the state leaves the children as they are.\<close>

lemma recursive_state_stays:
  "map_sum id (map (\<lambda>i. (mi_vpath i, mi_state i)))
      (set_query_item_state (mm_types ex_manager) Updated True ''/nodes'' ex_tree) =
     Inr [(''/'', Initial), (''/nodes'', Updated), (''/nodes/b1'', Initial), (''/nodes/n1'', Applied)]"
  by code_simp

end
