(* ===== verification/Task_Args.thy ===== *)
theory Task_Args
  imports Prelude
begin

text \<open>
  \<open>litp/core/task_utils.py\<close>, \<open>task_args.py\<close>, \<open>task_kwargs.py\<close>, \<open>task_dependencies.py\<close> and
  \<open>task_replaces.py\<close>: how the arguments, the dependencies and the replaced resources of a task are
  turned into values that can be stored as JSON, and read back. A dictionary is listed in the order
  of its keys and a set without repetition, so that equality of the values below is the equality the
  code compares stored arguments with.
\<close>

section \<open>Arguments\<close>

text \<open>\<open>PFuture i n\<close> is the value a property \<open>n\<close> of the item at \<open>i\<close> will have; its item is a
  query item or, when the item has left the model, the bare path.\<close>

datatype future_item = OnItem string | OnPath string

datatype pyval =
    PNone
  | PBool bool
  | PInt int
  | PFloat string
  | PStr string
  | PList "pyval list"
  | PTuple "pyval list"
  | PSet "pyval list"
  | PDict "(string \<times> pyval) list"
  | PFuture future_item string

fun future_vpath :: "future_item \<Rightarrow> string" where
  "future_vpath (OnItem v) = v"
| "future_vpath (OnPath v) = v"

text \<open>A future value of an item that has left the model has no \<open>query_item.vpath\<close>: the query item
  is then a string, and storing it again raises.\<close>

fun serialize_arg_value :: "pyval \<Rightarrow> pyval res" where
  "serialize_arg_value (PFuture (OnItem v) p) =
     Inr (PDict [(''__class__'', PStr ''FuturePropertyValue''), (''item'', PStr v), (''prop'', PStr p)])"
| "serialize_arg_value (PFuture (OnPath v) p) = Inl (AttributeError ''vpath'')"
| "serialize_arg_value (PSet vs) =
     rbind (map_res serialize_arg_value vs) (\<lambda>us.
       Inr (PDict [(''__class__'', PStr ''set''), (''values'', PList us)]))"
| "serialize_arg_value (PList vs) = rbind (map_res serialize_arg_value vs) (\<lambda>us. Inr (PList us))"
| "serialize_arg_value (PDict d) =
     rbind (map_res (\<lambda>(k, v). rbind (serialize_arg_value v) (\<lambda>u. Inr (k, u))) d) (\<lambda>e. Inr (PDict e))"
| "serialize_arg_value v = Inr v"

text \<open>\<open>has v\<close> says whether the model has an item at \<open>v\<close>. A stored list under \<open>values\<close> is read
  item by item; a missing one is the empty list.\<close>

definition get_str :: "(string \<times> pyval) list \<Rightarrow> string \<Rightarrow> string" where
  "get_str d k = (case map_of d k of Some (PStr s) \<Rightarrow> s | _ \<Rightarrow> [])"

definition future_of :: "(string \<Rightarrow> bool) \<Rightarrow> (string \<times> pyval) list \<Rightarrow> pyval" where
  "future_of has d =
     (let v = get_str d ''item''
      in PFuture (if has v then OnItem v else OnPath v) (get_str d ''prop''))"

lemma size_list_member: "x \<in> set xs \<Longrightarrow> f x < Suc (size_list f xs)"
  using size_list_estimation' [of x xs "f x" f] by simp

lemma size_pairs: "(k, v) \<in> set d \<Longrightarrow> size v < Suc (size_list (\<lambda>x. Suc (size (snd x))) d)"
  using size_list_member [of "(k, v)" d "\<lambda>x. Suc (size (snd x))"] by simp

lemma size_values:
  assumes "map_of d k = Some (PList vs)" and "v \<in> set vs"
  shows "size v < Suc (size_list (\<lambda>x. Suc (size (snd x))) d)"
proof -
  from assms(1) have "size (PList vs) < Suc (size_list (\<lambda>x. Suc (size (snd x))) d)"
    by (blast dest: map_of_SomeD intro: size_pairs)
  moreover have "size v < size (PList vs)" using assms(2) size_list_member [of v vs size] by simp
  ultimately show ?thesis by simp
qed

function deserialize_arg_value :: "(string \<Rightarrow> bool) \<Rightarrow> pyval \<Rightarrow> pyval" where
  "deserialize_arg_value has (PDict d) =
     (if map_of d ''__class__'' = Some (PStr ''FuturePropertyValue'') then future_of has d
      else if map_of d ''__class__'' = Some (PStr ''set'')
      then PSet (case map_of d ''values'' of
                   Some (PList vs) \<Rightarrow> remdups (map (deserialize_arg_value has) vs) | _ \<Rightarrow> [])
      else PDict (map (\<lambda>(k, v). (k, deserialize_arg_value has v)) d))"
| "deserialize_arg_value has (PList vs) = PList (map (deserialize_arg_value has) vs)"
| "deserialize_arg_value has PNone = PNone"
| "deserialize_arg_value has (PBool b) = PBool b"
| "deserialize_arg_value has (PInt i) = PInt i"
| "deserialize_arg_value has (PFloat f) = PFloat f"
| "deserialize_arg_value has (PStr s) = PStr s"
| "deserialize_arg_value has (PTuple vs) = PTuple vs"
| "deserialize_arg_value has (PSet vs) = PSet vs"
| "deserialize_arg_value has (PFuture i p) = PFuture i p"
  by pat_completeness auto

termination
  by (relation "measure (\<lambda>(has, v). size v)")
    (auto simp: size_prod_simp dest: size_values size_pairs size_list_member [where f = size])

text \<open>The values that survive storing: every future value is of an item of the model, and no
  dictionary of the plugin looks like a stored set or a stored future value.\<close>

fun storable :: "(string \<Rightarrow> bool) \<Rightarrow> pyval \<Rightarrow> bool" where
  "storable has (PFuture i p) \<longleftrightarrow> i = OnItem (future_vpath i) \<and> has (future_vpath i)"
| "storable has (PSet vs) \<longleftrightarrow> distinct vs \<and> list_all (storable has) vs"
| "storable has (PList vs) \<longleftrightarrow> list_all (storable has) vs"
| "storable has (PDict d) \<longleftrightarrow>
     map_of d ''__class__'' \<notin> {Some (PStr ''FuturePropertyValue''), Some (PStr ''set'')} \<and>
     list_all (\<lambda>(k, v). storable has v) d"
| "storable has v \<longleftrightarrow> True"

lemma map_res_back:
  assumes "\<And>v. v \<in> set vs \<Longrightarrow> \<exists>u. f v = Inr u \<and> g u = v"
  shows "\<exists>us. map_res f vs = Inr us \<and> map g us = vs"
  using assms by (induction vs) (fastforce simp: rbind_Inr_iff)+

lemma map_of_serialized:
  "map_res (\<lambda>(k, v). rbind (f v) (\<lambda>u. Inr (k, u))) d = Inr e \<Longrightarrow> map_of e k = Some u \<Longrightarrow>
    \<exists>v. map_of d k = Some v \<and> f v = Inr u"
  by (induction d arbitrary: e) (auto simp: rbind_Inr_iff split: if_splits)

lemma serialize_PStr: "serialize_arg_value v = Inr (PStr s) \<Longrightarrow> v = PStr s"
  by (cases v rule: serialize_arg_value.cases) (auto simp: rbind_Inr_iff)



section \<open>Dependencies and replaced resources\<close>

text \<open>An element of \<open>requires\<close>: a task, by its unique id, a query item, by its path, a
  \<open>(call_type, call_id)\<close> pair, or anything else a plugin has put there. \<open>known\<close> and \<open>has\<close> say
  which tasks and items are found again.\<close>

datatype dependency = OnTask string | OnQuery string | OnCall string string | OnOther

fun serialize_dependency :: "dependency \<Rightarrow> string list" where
  "serialize_dependency (OnCall t i) = [''c'', t, i]"
| "serialize_dependency (OnTask u) = [''t'', u]"
| "serialize_dependency (OnQuery v) = [''q'', v]"
| "serialize_dependency OnOther = []"

fun deserialize_dependency ::
  "(string \<Rightarrow> bool) \<Rightarrow> (string \<Rightarrow> bool) \<Rightarrow> string list \<Rightarrow> dependency option res" where
  "deserialize_dependency known has [] = Inl IndexError"
| "deserialize_dependency known has (k # s) =
     (if k = ''t'' then (case s of [] \<Rightarrow> Inl IndexError | u # _ \<Rightarrow> Inr (if known u then Some (OnTask u) else None))
      else if k = ''q'' then (case s of [] \<Rightarrow> Inl IndexError | v # _ \<Rightarrow> Inr (if has v then Some (OnQuery v) else None))
      else if k = ''c'' then (case s of t # i # _ \<Rightarrow> Inr (Some (OnCall t i)) | _ \<Rightarrow> Inl IndexError)
      else Inr None)"

definition deserialize_task_dependencies ::
  "(string \<Rightarrow> bool) \<Rightarrow> (string \<Rightarrow> bool) \<Rightarrow> string list list \<Rightarrow> dependency list res" where
  "deserialize_task_dependencies known has sdeps =
     rbind (map_res (deserialize_dependency known has) sdeps) (\<lambda>ds. Inr (remdups (map the (filter (\<lambda>d. d \<noteq> None) ds))))"

text \<open>\<open>sdep[0] == "c"\<close> keeps a pair; any other stored element is dropped.\<close>

fun serialize_replace :: "(string \<times> string) option \<Rightarrow> string list" where
  "serialize_replace (Some (t, i)) = [''c'', t, i]"
| "serialize_replace None = []"

fun deserialize_replace :: "string list \<Rightarrow> (string \<times> string) option res" where
  "deserialize_replace [] = Inl IndexError"
| "deserialize_replace (k # s) =
     (if k = ''c'' then (case s of t # i # _ \<Rightarrow> Inr (Some (t, i)) | _ \<Rightarrow> Inl IndexError) else Inr None)"

definition deserialize_task_replaces :: "string list list \<Rightarrow> (string \<times> string) list res" where
  "deserialize_task_replaces sdeps =
     rbind (map_res deserialize_replace sdeps) (\<lambda>ds. Inr (remdups (map the (filter (\<lambda>d. d \<noteq> None) ds))))"

lemma kept_items:
  "map the (filter (\<lambda>d. d \<noteq> None) (map (\<lambda>d. if P d then Some d else None) ds)) = filter P ds"
  by (induction ds) auto

text \<open>Reading the stored dependencies back gives those that are still known, each once.\<close>

lemma dependencies_round_trip:
  assumes "OnOther \<notin> set ds"
  shows "\<exists>es. deserialize_task_dependencies known has (map serialize_dependency ds) = Inr es \<and> distinct es \<and>
    set es = {d \<in> set ds. case d of OnTask u \<Rightarrow> known u | OnQuery v \<Rightarrow> has v | _ \<Rightarrow> True}"
proof -
  let ?keep = "\<lambda>d. case d of OnTask u \<Rightarrow> known u | OnQuery v \<Rightarrow> has v | _ \<Rightarrow> True"
  have "map_res (deserialize_dependency known has) (map serialize_dependency ds) =
      Inr (map (\<lambda>d. if ?keep d then Some d else None) ds)"
    using assms by (induction ds) (auto split: dependency.splits)
  then have "deserialize_task_dependencies known has (map serialize_dependency ds) =
      Inr (remdups (filter ?keep ds))"
    unfolding deserialize_task_dependencies_def by (simp only: rbind.simps kept_items)
  then show ?thesis by auto
qed

end
