(* ===== verification/Task.thy ===== *)
theory Task
  imports Plan Model_Lookup Task_Args "HOL-Library.Sublist" "HOL-Library.List_Lexorder" "HOL-Library.Char_ord"
begin

text \<open>
  \<open>litp/core/task.py\<close>: the tasks a plan is made of. A task is about a model item, which it knows
  through a query item; the record \<open>qitem\<close> holds what the code asks that query item for, and
  \<open>query_item\<close> computes it from the model. The dependencies of a task are other tasks, query
  items and \<open>(call_type, call_id)\<close> pairs. The theory models the names, the equality and the hash
  of tasks, the nodes they belong to, which of two tasks may depend on the other, and the checks of
  an ordered task list.
\<close>

section \<open>Names of Puppet classes\<close>

text \<open>\<open>'_%02x'\<close> of a code point, and \<open>clean_classname\<close> over the code points of a text: a byte
  string has those below 256, a \<open>unicode\<close> object wider ones.\<close>

definition hex_digits :: string where
  "hex_digits = ''0123456789abcdef''"

definition hex_digit :: "nat \<Rightarrow> char" where
  "hex_digit n = hex_digits ! n"

fun hex :: "nat \<Rightarrow> string" where
  "hex n = (if n < 16 then [hex_digit n] else hex (n div 16) @ [hex_digit (n mod 16)])"

declare hex.simps [simp del]

definition hex02 :: "nat \<Rightarrow> string" where
  "hex02 n = (if n < 16 then CHR ''0'' # hex n else hex n)"

definition class_chars :: string where
  "class_chars = ''abcdefghijklmnopqrstuvwxyz0123456789_''"

definition clean_code :: "nat \<Rightarrow> string" where
  "clean_code n =
     (if n = 95 then ''__''
      else if n < 256 \<and> char_of n \<in> set class_chars then [char_of n]
      else CHR ''_'' # hex02 n)"

definition clean_codes :: "nat list \<Rightarrow> string" where
  "clean_codes ns = concat (map clean_code ns)"

definition clean_classname :: "string \<Rightarrow> string" where
  "clean_classname name = clean_codes (map of_char name)"

section \<open>Query items\<close>

record node_ref =
  nd_vpath :: string
  nd_hostname :: string
  nd_state :: item_state
  nd_is_ms :: bool

text \<open>A query item of a live item: its path, ids and state, the ids of the item types it is an
  instance of, and the answers of \<open>get_node\<close>, \<open>get_ms\<close> and \<open>get_cluster\<close>.\<close>

record qitem =
  qi_vpath :: string
  qi_item_id :: string
  qi_type_id :: string
  qi_types :: "string list"
  qi_state :: item_state
  qi_determinable :: bool
  qi_node :: "node_ref option"
  qi_ms :: "node_ref option"
  qi_cluster :: "cluster_item option"

text \<open>\<open>task.model_item\<close>: the query item, or the vpath when the item has left the model.\<close>

datatype item_at = Live qitem | Gone string

definition text_property :: "pval dict \<Rightarrow> string \<Rightarrow> string option" where
  "text_property d n = (case map_of d n of Some (VStr s) \<Rightarrow> Some s | _ \<Rightarrow> None)"

definition node_ref_of :: "item_type dict \<Rightarrow> store \<Rightarrow> model_item \<Rightarrow> node_ref res" where
  "node_ref_of types st i =
     rbind (get_merged_properties st i False) (\<lambda>props.
       Inr \<lparr>nd_vpath = mi_vpath i,
            nd_hostname = (case text_property props ''hostname'' of Some h \<Rightarrow> h | None \<Rightarrow> ''None''),
            nd_state = mi_state i, nd_is_ms = is_ms types i\<rparr>)"

definition cluster_item_of :: "store \<Rightarrow> model_item \<Rightarrow> cluster_item res" where
  "cluster_item_of st i =
     rbind (get_merged_properties st i False) (\<lambda>props.
       Inr \<lparr>cl_vpath = mi_vpath i, cl_item_id = mi_item_id i,
            cl_dependency_list = text_property props ''dependency_list''\<rparr>)"

fun opt_res :: "('a \<Rightarrow> 'b res) \<Rightarrow> 'a option \<Rightarrow> 'b option res" where
  "opt_res f None = Inr None"
| "opt_res f (Some a) = rbind (f a) (\<lambda>b. Inr (Some b))"

definition query_item :: "item_type dict \<Rightarrow> store \<Rightarrow> model_item \<Rightarrow> qitem res" where
  "query_item types st i =
     rbind (get_node types st i) (\<lambda>n. rbind (opt_res (node_ref_of types st) n) (\<lambda>n.
     rbind (get_ms types st i) (\<lambda>m. rbind (opt_res (node_ref_of types st) m) (\<lambda>m.
     rbind (get_cluster types st i) (\<lambda>c. rbind (opt_res (cluster_item_of st) c) (\<lambda>c.
       Inr \<lparr>qi_vpath = mi_vpath i, qi_item_id = mi_item_id i, qi_type_id = mi_item_type_id i,
            qi_types = filter (mi_extends types i) (mi_item_type_id i # dict_keys types),
            qi_state = mi_state i, qi_determinable = mi_apd i,
            qi_node = n, qi_ms = m, qi_cluster = c\<rparr>))))))"

definition is_instance :: "qitem \<Rightarrow> string \<Rightarrow> bool" where
  "is_instance q type_id \<longleftrightarrow> type_id \<in> set (qi_types q)"

lemma query_item_instance:
  assumes "query_item types st i = Inr q"
  shows "is_instance q type_id \<longleftrightarrow> mi_extends types i type_id"
proof -
  have "mi_extends types i type_id \<Longrightarrow> type_id = mi_item_type_id i \<or> has_key type_id types"
    by (auto simp: mi_extends_def type_extends_def has_key_def split: if_splits option.splits)
  with assms show ?thesis
    by (auto simp: query_item_def is_instance_def rbind_Inr_iff dict_keys_def has_key_iff split: if_split_asm)
qed

section \<open>Tasks\<close>

datatype lock_type = TypeLock | TypeUnlock | TypeOther

text \<open>A task of any of the classes; the fields of the other classes are unused. \<open>ta_key\<close> names
  the task: dependencies refer to tasks by it. \<open>ta_args\<close> and \<open>ta_kwargs\<close> are the arguments the
  plugin gave. The last three fields are the marks the plan builder puts on a task.\<close>

record task =
  ta_key :: string
  ta_class :: task_class
  ta_item :: item_at
  ta_items :: "item_at list"
  ta_description :: string
  ta_tag_name :: "string option"
  ta_state :: task_state
  ta_lock_type :: lock_type
  ta_requires :: "dependency list"
  ta_group :: "string option"
  ta_plugin_name :: "string option"
  ta_unique_id :: string
  ta_args :: "pyval list"
  ta_kwargs :: "(string \<times> pyval) list"
  ta_node :: item_at
  ta_call_type :: string
  ta_call_id :: string
  ta_persist :: bool
  ta_replaces :: "(string \<times> string) list"
  ta_dep_ids :: "string list"
  ta_plugin_class :: string
  ta_nodes :: "qitem list"
  ta_agent :: string
  ta_action :: string
  ta_net_task :: bool
  ta_index :: nat
  ta_pre_vxvm_bond :: "bool option"

fun at_vpath :: "item_at \<Rightarrow> string" where
  "at_vpath (Live q) = qi_vpath q"
| "at_vpath (Gone v) = v"

definition item_vpath :: "task \<Rightarrow> string" where
  "item_vpath t = at_vpath (ta_item t)"

definition is_config :: "task \<Rightarrow> bool" where
  "is_config t \<longleftrightarrow> ta_class t = ConfigTaskC"

definition is_callback :: "task \<Rightarrow> bool" where
  "is_callback t \<longleftrightarrow> ta_class t \<in> {CallbackTaskC, RemoteExecutionTaskC}"

text \<open>\<open>item.attribute\<close> of an item that has left the model: the attribute of a string.\<close>

fun live :: "string \<Rightarrow> item_at \<Rightarrow> qitem res" where
  "live attr (Live q) = Inr q"
| "live attr (Gone v) = Inl (AttributeError attr)"

definition node_hostname :: "item_at \<Rightarrow> string" where
  "node_hostname n =
     (case n of
        Live q \<Rightarrow> (case qi_node q of Some d \<Rightarrow> nd_hostname d
                   | None \<Rightarrow> (case qi_ms q of Some d \<Rightarrow> nd_hostname d | None \<Rightarrow> ''None''))
      | Gone v \<Rightarrow> ''unknown (vpath='' @ v @ '')'')"

text \<open>\<open>unique_id\<close>: \<open>hash\<close> is Python's built-in hash of the printed arguments.\<close>

definition config_unique_id :: "string \<Rightarrow> string \<Rightarrow> string \<Rightarrow> string" where
  "config_unique_id hostname call_type call_id =
     clean_classname (hostname @ ''_'' @ call_type @ ''_'' @ call_id)"

text \<open>The constructor of a callback task forms the id before the base class stores the path of the
  item, when the column of the path is still empty and reads \<open>None\<close>.\<close>

definition callback_unique_id :: "string \<Rightarrow> int \<Rightarrow> string" where
  "callback_unique_id callback_name args_hash =
     clean_classname (''None'' @ ''_'' @ callback_name @ ''_'' @ str_of_int args_hash)"

definition cleanup_unique_id :: "string \<Rightarrow> string" where
  "cleanup_unique_id vpath = clean_classname (vpath @ ''_'' @ ''cleanup'')"

section \<open>Equality and hash\<close>

definition args_serialized :: "task \<Rightarrow> pyval list res" where
  "args_serialized t = map_res serialize_arg_value (ta_args t)"

definition kwargs_serialized :: "task \<Rightarrow> (string \<times> pyval) list res" where
  "kwargs_serialized t =
     map_res (\<lambda>(k, v). rbind (serialize_arg_value v) (\<lambda>u. Inr (k, u))) (ta_kwargs t)"

fun stored_future :: "pyval \<Rightarrow> bool" where
  "stored_future (PDict d) \<longleftrightarrow> map_of d ''__class__'' = Some (PStr ''FuturePropertyValue'')"
| "stored_future v \<longleftrightarrow> False"

definition task_has_future :: "task \<Rightarrow> bool" where
  "task_has_future t =
     (case kwargs_serialized t of Inr d \<Rightarrow> list_ex (\<lambda>(k, v). stored_future v) d | Inl _ \<Rightarrow> False)"

definition eq_dependencies :: "task \<Rightarrow> task \<Rightarrow> bool" where
  "eq_dependencies a b \<longleftrightarrow> set (ta_requires a) = set (ta_requires b)"

definition config_eq :: "task \<Rightarrow> task \<Rightarrow> bool" where
  "config_eq a b \<longleftrightarrow>
     ta_class b = ConfigTaskC \<and> at_vpath (ta_node a) = at_vpath (ta_node b) \<and>
     item_vpath a = item_vpath b \<and> ta_call_type a = ta_call_type b \<and> ta_call_id a = ta_call_id b \<and>
     kwargs_serialized a = kwargs_serialized b \<and> eq_dependencies a b \<and>
     \<not> task_has_future a \<and> \<not> task_has_future b \<and> ta_persist a = ta_persist b"

definition callback_eq :: "task \<Rightarrow> task \<Rightarrow> bool" where
  "callback_eq a b \<longleftrightarrow>
     ta_class b = ta_class a \<and> item_vpath a = item_vpath b \<and> ta_plugin_class a = ta_plugin_class b \<and>
     ta_call_type a = ta_call_type b \<and> args_serialized a = args_serialized b \<and>
     kwargs_serialized a = kwargs_serialized b \<and> eq_dependencies a b"

definition remote_eq :: "task \<Rightarrow> task \<Rightarrow> bool" where
  "remote_eq a b \<longleftrightarrow>
     ta_class b = ta_class a \<and> item_vpath a = item_vpath b \<and> ta_agent a = ta_agent b \<and>
     ta_action a = ta_action b \<and> args_serialized a = args_serialized b \<and>
     kwargs_serialized a = kwargs_serialized b"

definition base_eq :: "task \<Rightarrow> task \<Rightarrow> bool" where
  "base_eq a b \<longleftrightarrow> ta_class b = ta_class a \<and> item_vpath a = item_vpath b"

definition task_eq :: "task \<Rightarrow> task \<Rightarrow> bool" where
  "task_eq a b =
     (case ta_class a of
        ConfigTaskC \<Rightarrow> config_eq a b
      | CallbackTaskC \<Rightarrow> callback_eq a b
      | RemoteExecutionTaskC \<Rightarrow> remote_eq a b
      | CleanupTaskC \<Rightarrow> base_eq a b)"

text \<open>What the hash of a task is computed from; a cleanup task has the hash of its identity.\<close>

datatype hash_key =
    ConfigHash string string string string
  | CallbackHash string string string "pyval list res" "(string \<times> pyval) list res"
  | RemoteHash string "string list" string string "pyval list res" "(string \<times> pyval) list res"
  | IdentityHash string

definition config_hash :: "task \<Rightarrow> hash_key" where
  "config_hash t = ConfigHash (at_vpath (ta_node t)) (item_vpath t) (ta_call_type t) (ta_call_id t)"

definition callback_hash :: "task \<Rightarrow> hash_key" where
  "callback_hash t =
     CallbackHash (item_vpath t) (ta_plugin_class t) (ta_call_type t) (args_serialized t) (kwargs_serialized t)"

definition remote_hash :: "task \<Rightarrow> hash_key" where
  "remote_hash t =
     RemoteHash (item_vpath t) (sort (map qi_vpath (ta_nodes t))) (ta_agent t) (ta_action t)
       (args_serialized t) (kwargs_serialized t)"

definition task_hash :: "task \<Rightarrow> hash_key" where
  "task_hash t =
     (case ta_class t of
        ConfigTaskC \<Rightarrow> config_hash t
      | CallbackTaskC \<Rightarrow> callback_hash t
      | RemoteExecutionTaskC \<Rightarrow> remote_hash t
      | CleanupTaskC \<Rightarrow> IdentityHash (ta_key t))"

lemmas task_eq_defs = task_eq_def config_eq_def callback_eq_def remote_eq_def base_eq_def eq_dependencies_def

lemma task_eq_sym: "task_eq a b \<Longrightarrow> task_eq b a"
  by (auto simp: task_eq_defs split: task_class.split_asm)

lemma task_eq_trans: "task_eq a b \<Longrightarrow> task_eq b c \<Longrightarrow> task_eq a c"
  by (auto simp: task_eq_defs split: task_class.split_asm)

lemma task_eq_refl: "task_eq a a \<longleftrightarrow> \<not> (is_config a \<and> task_has_future a)"
  by (auto simp: task_eq_defs is_config_def split: task_class.split)

text \<open>Equal configuration and callback tasks have the same hash, as dictionaries and sets need it.
  Two remote execution tasks that differ in their nodes only are equal and have different hashes.\<close>

lemma equal_tasks_hash_alike:
  "task_eq a b \<Longrightarrow> ta_class a \<in> {ConfigTaskC, CallbackTaskC} \<Longrightarrow> task_hash a = task_hash b"
  by (auto simp: task_eq_defs task_hash_def config_hash_def callback_hash_def split: task_class.split_asm)

lemma remote_tasks_hash_apart:
  assumes "ta_class a = RemoteExecutionTaskC" and "b = a\<lparr>ta_nodes := ns\<rparr>"
    and "sort (map qi_vpath ns) \<noteq> sort (map qi_vpath (ta_nodes a))"
  shows "task_eq a b \<and> task_hash a \<noteq> task_hash b"
  using assms by (simp add: task_eq_defs task_hash_def remote_hash_def item_vpath_def
      args_serialized_def kwargs_serialized_def)

section \<open>Puppet class names are one-to-one\<close>

definition unhex :: "char \<Rightarrow> nat" where
  "unhex c = length (takeWhile (\<lambda>d. d \<noteq> c) hex_digits)"

fun decode_class :: "string \<Rightarrow> nat list" where
  "decode_class [] = []"
| "decode_class (c # s) =
     (if c \<noteq> CHR ''_'' then of_char c # decode_class s
      else case s of
        a # t \<Rightarrow>
          (if a = CHR ''_'' then 95 # decode_class t
           else (case t of b # u \<Rightarrow> (16 * unhex a + unhex b) # decode_class u | [] \<Rightarrow> []))
      | [] \<Rightarrow> [])"

lemma index_nth: "distinct xs \<Longrightarrow> n < length xs \<Longrightarrow> length (takeWhile (\<lambda>x. x \<noteq> xs ! n) xs) = n"
proof (induction xs arbitrary: n)
  case (Cons x xs)
  then show ?case by (cases n) auto
qed simp

lemma hex_digit_char:
  assumes "n < 16"
  shows "unhex (hex_digit n) = n \<and> hex_digit n \<in> set class_chars \<and> hex_digit n \<noteq> CHR ''_''"
proof -
  have len: "length hex_digits = 16" by (simp add: hex_digits_def)
  then have "hex_digit n \<in> set hex_digits" using assms by (simp add: hex_digit_def)
  moreover have "set hex_digits \<subseteq> set class_chars - {CHR ''_''}"
    by (simp add: hex_digits_def class_chars_def)
  ultimately have "hex_digit n \<in> set class_chars - {CHR ''_''}" by (rule rev_subsetD)
  moreover have "unhex (hex_digit n) = n"
    unfolding unhex_def hex_digit_def by (rule index_nth) (simp_all add: len assms, simp add: hex_digits_def)
  ultimately show ?thesis by simp
qed

lemma hex02_byte: "n < 256 \<Longrightarrow> hex02 n = [hex_digit (n div 16), hex_digit (n mod 16)]"
  by (auto simp: hex02_def hex.simps [of n] hex.simps [of "n div 16"] hex_digit_def hex_digits_def)

lemma char_95: "char_of (95::nat) = CHR ''_''"
  by code_simp

lemma decode_clean_code:
  assumes "n < 256"
  shows "decode_class (clean_code n @ s) = n # decode_class s"
proof (cases "n = 95")
  case False
  have ne: "char_of n \<noteq> CHR ''_''"
  proof
    assume "char_of n = CHR ''_''"
    then have "(of_char (char_of n :: char) :: nat) = of_char (char_of (95::nat) :: char)" by (simp only: char_95)
    with assms False show False by (simp only: of_char_of) simp
  qed
  show ?thesis
  proof (cases "char_of n \<in> set class_chars")
    case True
    with assms False ne show ?thesis by (simp add: clean_code_def)
  next
    case nin: False
    with assms False show ?thesis
      using hex_digit_char [of "n div 16"] hex_digit_char [of "n mod 16"]
      by (simp add: clean_code_def hex02_byte)
  qed
qed (simp add: clean_code_def)

lemma decode_clean_codes: "list_all (\<lambda>n. n < 256) ns \<Longrightarrow> decode_class (clean_codes ns) = ns"
  by (induction ns) (simp_all add: clean_codes_def decode_clean_code del: decode_class.simps(2))

lemma clean_code_chars: "n < 256 \<Longrightarrow> set (clean_code n) \<subseteq> set class_chars"
  using hex_digit_char [of "n div 16"] hex_digit_char [of "n mod 16"]
  by (auto simp: clean_code_def hex02_byte) (simp_all add: class_chars_def)

lemma clean_codes_chars: "list_all (\<lambda>n. n < 256) ns \<Longrightarrow> set (clean_codes ns) \<subseteq> set class_chars"
  unfolding clean_codes_def using clean_code_chars by (induction ns) simp_all

text \<open>Different names give different Puppet class names, made of lower-case letters, digits and
  underscores only.\<close>

theorem clean_classname_one_to_one:
  "(clean_classname a = clean_classname b \<longleftrightarrow> a = b) \<and> set (clean_classname a) \<subseteq> set class_chars"
proof
  have decode: "decode_class (clean_classname s) = map of_char s" for s
    unfolding clean_classname_def by (rule decode_clean_codes) (simp add: list_all_iff)
  have "clean_classname a = clean_classname b \<Longrightarrow> a = b"
    using decode [of a] decode [of b] by (metis inj_map_eq_map inj_of_char)
  then show "clean_classname a = clean_classname b \<longleftrightarrow> a = b" by blast
  show "set (clean_classname a) \<subseteq> set class_chars"
    unfolding clean_classname_def by (rule clean_codes_chars) (simp add: list_all_iff)
qed

text \<open>Wide characters break this: the code point 256 is written like the two characters 16 and 48.\<close>

lemma wide_names_collide: "clean_codes [256] = clean_codes [16, 48]"
  by code_simp

text \<open>The unique id of a configuration task does not keep its call type and call id apart.\<close>

lemma unique_ids_collide:
  "config_unique_id h ''x_y'' ''z'' = config_unique_id h ''x'' ''y_z''"
  by (simp add: config_unique_id_def)

section \<open>Removal, nodes and dependencies\<close>

definition is_deconfigure :: "task \<Rightarrow> bool res" where
  "is_deconfigure t =
     rbind (live ''is_for_removal'' (ta_item t)) (\<lambda>q.
       Inr ((qi_state q = ForRemoval \<or> is_config t \<and> \<not> ta_persist t) \<and> ta_state t \<noteq> TaskSuccess))"

definition all_model_items :: "task \<Rightarrow> item_at list" where
  "all_model_items t =
     remdups (ta_items t @ (case ta_item t of Live q \<Rightarrow> [Live q] | Gone v \<Rightarrow> []))"

definition all_model_items_determinable :: "task \<Rightarrow> bool res" where
  "all_model_items_determinable t =
     rbind (map_res (live ''applied_properties_determinable'') (all_model_items t)) (\<lambda>qs.
       Inr (list_all qi_determinable qs))"

definition has_run :: "task \<Rightarrow> bool" where
  "has_run t \<longleftrightarrow> ta_state t \<notin> {TaskInitial, TaskRunning}"

definition node_or_ms :: "qitem \<Rightarrow> node_ref option" where
  "node_or_ms q = (case qi_node q of Some n \<Rightarrow> Some n | None \<Rightarrow> qi_ms q)"

text \<open>The path of the node (or management server) of a task, all the callers ask it for. A
  cleanup task answers with the management server of the model.\<close>

definition get_task_node :: "task \<Rightarrow> string option res" where
  "get_task_node t =
     (case ta_class t of
        ConfigTaskC \<Rightarrow> rbind (live ''vpath'' (ta_node t)) (\<lambda>q. Inr (Some (qi_vpath q)))
      | RemoteExecutionTaskC \<Rightarrow>
          (case ta_nodes t of [] \<Rightarrow> Inl StopIteration | q # _ \<Rightarrow> Inr (Some (qi_vpath q)))
      | CallbackTaskC \<Rightarrow>
          rbind (live ''get_node'' (ta_item t)) (\<lambda>q. Inr (map_option nd_vpath (node_or_ms q)))
      | CleanupTaskC \<Rightarrow> rbind (live ''query_by_vpath'' (ta_item t)) (\<lambda>q. Inr (Some ''/ms'')))"

definition get_task_model_item_node :: "task \<Rightarrow> string option res" where
  "get_task_model_item_node t =
     rbind (live ''get_node'' (ta_item t)) (\<lambda>q. Inr (map_option nd_vpath (node_or_ms q)))"

definition MS_GROUP :: string where
  "MS_GROUP = ''DEPLOYMENT_MS_GROUP''"

text \<open>\<open>task.group in MS_GROUP\<close> looks for the group within the text of the name.\<close>

definition in_ms_group :: "task \<Rightarrow> bool res" where
  "in_ms_group t =
     (case ta_group t of
        None \<Rightarrow> Inl (TypeError ''in <string> requires string as left operand'')
      | Some g \<Rightarrow> Inr (sublist g MS_GROUP))"

definition can_have_dependency_for_validation :: "task \<Rightarrow> task \<Rightarrow> bool res" where
  "can_have_dependency_for_validation a b =
     rbind (get_task_node a) (\<lambda>n. rbind (get_task_node b) (\<lambda>m.
       if n \<noteq> None \<and> m \<noteq> None \<and> n \<noteq> m then Inr False
       else rbind (if n = m then Inr True
                   else rbind (in_ms_group a) (\<lambda>ga. if \<not> ga then Inr False else in_ms_group b)) (\<lambda>ok.
         if \<not> ok then Inr False
         else rbind (get_task_model_item_node a) (\<lambda>n. rbind (get_task_model_item_node b) (\<lambda>m.
           Inr (n = None \<or> m = None \<or> n = m))))))"

definition can_have_dependency :: "task \<Rightarrow> task \<Rightarrow> bool res" where
  "can_have_dependency a b =
     rbind (is_deconfigure a) (\<lambda>da. rbind (is_deconfigure b) (\<lambda>db.
       if da \<noteq> db then Inr False else can_have_dependency_for_validation a b))"

lemma same_node_for_validation:
  assumes "can_have_dependency_for_validation a b = Inr True" and "get_task_node a = Inr (Some v)"
    and "get_task_node b = Inr (Some w)"
  shows "v = w"
  using assms by (simp add: can_have_dependency_for_validation_def split: if_splits)

text \<open>The dependency relation between tasks is symmetric.\<close>

lemma validation_sym:
  "can_have_dependency_for_validation a b = Inr x \<Longrightarrow>
    can_have_dependency_for_validation b a = Inr y \<Longrightarrow> x = y"
  by (auto simp: can_have_dependency_for_validation_def rbind_Inr_iff split: if_splits)

section \<open>The arguments of a task\<close>

text \<open>The types an argument may have. \<open>value_of\<close> gives the value of a property that is a view or
  that plugins may update, and \<open>None\<close> for any other property; such a value is checked in turn,
  \<open>n\<close> deep.\<close>

fun check_args :: "nat \<Rightarrow> (future_item \<Rightarrow> string \<Rightarrow> pyval option res) \<Rightarrow> pyval \<Rightarrow> unit res" where
  "check_args n value_of (PFuture i p) =
     rbind (value_of i p) (\<lambda>v.
       case v of
         None \<Rightarrow> Inl (TypeError ''Invalid task argument type'')
       | Some v \<Rightarrow> (case n of 0 \<Rightarrow> Inl (RuntimeError ''maximum recursion depth exceeded'')
                    | Suc m \<Rightarrow> check_args m value_of v))"
| "check_args n value_of (PList vs) = for_res (\<lambda>v _. check_args n value_of v) vs ()"
| "check_args n value_of (PTuple vs) = for_res (\<lambda>v _. check_args n value_of v) vs ()"
| "check_args n value_of (PSet vs) = for_res (\<lambda>v _. check_args n value_of v) vs ()"
| "check_args n value_of (PDict d) = for_res (\<lambda>v _. check_args n value_of v) (map snd d) ()"
| "check_args n value_of v = Inr ()"

definition validate_args :: "nat \<Rightarrow> (future_item \<Rightarrow> string \<Rightarrow> pyval option res) \<Rightarrow> task \<Rightarrow> unit res" where
  "validate_args n value_of t =
     rbind (if is_callback t then check_args n value_of (PTuple (ta_args t)) else Inr ()) (\<lambda>_.
       if is_callback t \<or> is_config t then check_args n value_of (PDict (ta_kwargs t)) else Inr ())"

definition validate_nodes :: "task \<Rightarrow> unit res" where
  "validate_nodes t =
     (if ta_nodes t = [] then Inl (ValueError ''At least one node or ms must be specified'')
      else case List.find (\<lambda>q. qi_type_id q \<notin> {''node'', ''ms''}) (ta_nodes t) of
        Some q \<Rightarrow> Inl (ValueError (''Invalid node or ms specified: '' @ qi_vpath q))
      | None \<Rightarrow> Inr ())"

definition validate_task :: "nat \<Rightarrow> (future_item \<Rightarrow> string \<Rightarrow> pyval option res) \<Rightarrow> task \<Rightarrow> unit res" where
  "validate_task n value_of t =
     rbind (validate_args n value_of t) (\<lambda>_.
       if ta_class t = RemoteExecutionTaskC then validate_nodes t else Inr ())"

section \<open>Ordered task lists\<close>

text \<open>What a plugin returns: a task, or an ordered list of them.\<close>

datatype plugin_task = Single task | Ordered "plugin_task list"

fun validate_pair :: "plugin_task \<Rightarrow> plugin_task \<Rightarrow> unit res" where
  "validate_pair (Single a) (Single b) =
     rbind (can_have_dependency_for_validation a b) (\<lambda>ok.
       if ok then Inr ()
       else Inl (TaskValidationException
         ''OrderedTaskList can only contain tasks for the same node.'' [ta_description b]))"
| "validate_pair _ _ = Inl (TaskValidationException ''Nested OrderedTaskLists are not supported'' [])"

fun validate_task_list :: "plugin_task list \<Rightarrow> unit res" where
  "validate_task_list (a # b # ts) = rbind (validate_pair a b) (\<lambda>_. validate_task_list (b # ts))"
| "validate_task_list _ = Inr ()"

fun validate_plugin_task ::
  "nat \<Rightarrow> (future_item \<Rightarrow> string \<Rightarrow> pyval option res) \<Rightarrow> plugin_task \<Rightarrow> unit res" where
  "validate_plugin_task n value_of (Single t) = validate_task n value_of t"
| "validate_plugin_task n value_of (Ordered ts) =
     (if ts = [] then Inl (TaskValidationException ''no tasks specified'' [])
      else rbind (validate_task_list ts) (\<lambda>_. for_res (\<lambda>t _. validate_plugin_task n value_of t) ts ()))"

text \<open>Each task of an accepted list of two or more may depend on the one before it, so all of them
  that have a node are on one node. A list of one element is not looked into.\<close>

lemma validate_task_list_chain:
  "validate_task_list ts = Inr () \<Longrightarrow> Suc i < length ts \<Longrightarrow>
    \<exists>a b. ts ! i = Single a \<and> ts ! Suc i = Single b \<and> can_have_dependency_for_validation a b = Inr True"
proof (induction ts arbitrary: i rule: validate_task_list.induct)
  case (1 a b ts)
  then have step: "validate_pair a b = Inr ()" and rest: "validate_task_list (b # ts) = Inr ()"
    by (auto simp: rbind_Inr_iff)
  show ?case
  proof (cases i)
    case 0
    with step show ?thesis by (cases "(a, b)" rule: validate_pair.cases) (auto simp: rbind_Inr_iff split: if_splits)
  next
    case (Suc j)
    with 1(1) [of "()" j] 1(3) step rest show ?thesis by simp
  qed
qed auto

lemma nested_list_accepted:
  "validate_plugin_task n value_of (Ordered [Ordered [Single t]]) = validate_task n value_of t"
  by (cases "validate_task n value_of t") simp_all

section \<open>Example tasks\<close>

definition sample_item :: "string \<Rightarrow> qitem" where
  "sample_item v = \<lparr>qi_vpath = v, qi_item_id = v, qi_type_id = ''item'', qi_types = [''item''], qi_state = Initial,
     qi_determinable = True, qi_node = Some \<lparr>nd_vpath = ''/n'', nd_hostname = ''n'', nd_state = Applied, nd_is_ms = False\<rparr>,
     qi_ms = None, qi_cluster = None\<rparr>"

definition sample_task :: "string \<Rightarrow> task_class \<Rightarrow> dependency list \<Rightarrow> task" where
  "sample_task k c ds = \<lparr>ta_key = k, ta_class = c, ta_item = Live (sample_item (''/n/'' @ k)), ta_items = [],
     ta_description = [], ta_tag_name = None, ta_state = TaskInitial, ta_lock_type = TypeOther,
     ta_requires = ds, ta_group = Some ''DEPLOYMENT_NODE_GROUP'', ta_plugin_name = None, ta_unique_id = k,
     ta_args = [], ta_kwargs = [], ta_node = Live (sample_item ''/n''), ta_call_type = ''type'', ta_call_id = k,
     ta_persist = True, ta_replaces = [], ta_dep_ids = [], ta_plugin_class = [], ta_nodes = [], ta_agent = [],
     ta_action = [], ta_net_task = False, ta_index = 0, ta_pre_vxvm_bond = None\<rparr>"

end
