(* ===== verification/Worklist.thy ===== *)
theory Worklist
  imports Prelude "HOL-Library.While_Combinator"
begin

text \<open>
  The searches of the plan builder run level by level: a loop takes the whole queue, looks at the
  successors of its elements and queues those it has not seen. This theory states when such a loop
  ends, and that what it has collected is what can be reached.
\<close>

definition pending :: "'a list \<times> 's \<Rightarrow> bool" where
  "pending st \<longleftrightarrow> fst st \<noteq> []"

definition level_loop :: "('a list \<times> 's \<Rightarrow> 'a list \<times> 's) \<Rightarrow> 'a list \<times> 's \<Rightarrow> ('a list \<times> 's) option" where
  "level_loop round st = while_option pending round st"

text \<open>The loop ends when the elements seen so far stay within a finite set and every round either
  sees a new one or leaves an empty queue.\<close>

lemma level_loop_ends:
  fixes seen :: "'s \<Rightarrow> 'b set"
  assumes "finite U" and start: "P st"
    and round: "\<And>q s q' s'. P (q, s) \<Longrightarrow> q \<noteq> [] \<Longrightarrow> round (q, s) = (q', s') \<Longrightarrow>
      P (q', s') \<and> seen s \<subseteq> seen s' \<and> (seen s' = seen s \<longrightarrow> q' = [])"
    and bound: "\<And>q s. P (q, s) \<Longrightarrow> seen s \<subseteq> U"
  shows "\<exists>s'. level_loop round st = Some ([], s') \<and> P ([], s')"
proof -
  let ?R = "(\<lambda>st. card (U - seen (snd st))) <*mlex*> (\<lambda>st. if fst st = [] then 0 else 1) <*mlex*> {}"
  have step: "P (round s)" if "P s" "pending s" for s
    using round [of "fst s" "snd s" "fst (round s)" "snd (round s)"] that by (simp add: pending_def)
  have "\<exists>t. while_option pending round st = Some t"
  proof (rule wf_rel_while_option_Some [of ?R P])
    show "wf ?R" by (blast intro: wf_mlex)
    show "(round s, s) \<in> ?R" if "P s \<and> pending s" for s
    proof -
      obtain q w where s: "s = (q, w)" by (cases s)
      obtain q' w' where r: "round s = (q', w')" by (cases "round s")
      from round [of q w q' w'] that s r have w: "P (q', w')" "seen w \<subseteq> seen w'"
        "seen w' = seen w \<longrightarrow> q' = []" by (auto simp: pending_def)
      show ?thesis
      proof (cases "seen w' = seen w")
        case True
        with w that s r show ?thesis by (simp add: mlex_prod_def pending_def)
      next
        case False
        from bound [of q' w'] w(1) have "seen w' \<subseteq> U" by blast
        with False w(2) have "U - seen w' \<subset> U - seen w" by blast
        with \<open>finite U\<close> have "card (U - seen w') < card (U - seen w)" by (simp add: psubset_card_mono)
        then show ?thesis using s r by (simp add: mlex_prod_def)
      qed
    qed
    show "P s \<and> pending s \<Longrightarrow> P (round s)" for s
      using step by blast
  qed (rule start)
  then obtain t where t: "while_option pending round st = Some t" by blast
  from while_option_stop [OF t] have "fst t = []" by (simp add: pending_def)
  moreover have "P t"
    by (rule while_option_rule [where P = P, OF _ t start]) (rule step)
  ultimately show ?thesis using t unfolding level_loop_def by (cases t) auto
qed

text \<open>A queue of the elements to look at next and the elements that have been queued.\<close>

definition enqueue :: "'a \<Rightarrow> 'a list \<times> 'a list \<Rightarrow> 'a list \<times> 'a list" where
  "enqueue i qs = (if i \<in> set (snd qs) then qs else (fst qs @ [i], snd qs @ [i]))"

lemma fold_enqueue:
  assumes "fold enqueue is (q, s) = (q', s')"
  shows "set s' = set s \<union> set is \<and> set q' = set q \<union> (set is - set s)"
  using assms
proof (induction "is" arbitrary: q s)
  case (Cons i "is")
  obtain q1 s1 where e: "enqueue i (q, s) = (q1, s1)" by (cases "enqueue i (q, s)")
  with Cons.prems have "fold enqueue is (q1, s1) = (q', s')" by simp
  from Cons.IH [OF this] e show ?case by (auto simp: enqueue_def [of i] split: if_splits)
qed simp

lemma fold_enqueue_concat:
  "fold (\<lambda>d. fold enqueue (f d)) ds qs = fold enqueue (concat (map f ds)) qs"
  by (induction ds arbitrary: qs) simp_all

end
