(* ===== verification/Task_Graph.thy ===== *)
theory Task_Graph
  imports Task Topsort Worklist
begin

text \<open>
  The graphs \<open>litp/core/plan_builder.py\<close> orders tasks by: \<open>TaskCollection\<close> and its searches,
  the graph of the dependencies plugins give, the graph of the dependencies of the model, and the
  bridge between the two. The nodes of a graph are the keys of the tasks; different tasks of a
  collection have different keys. A graph lists the dependencies of each node.
\<close>

section \<open>Task collections\<close>

definition task_at :: "task list \<Rightarrow> string \<Rightarrow> task option" where
  "task_at ts k = List.find (\<lambda>t. ta_key t = k) ts"

definition keys_of :: "task list \<Rightarrow> string list" where
  "keys_of ts = map ta_key ts"

definition find_by_vpath :: "task list \<Rightarrow> string \<Rightarrow> task list" where
  "find_by_vpath ts v = (if v = [] then [] else filter (\<lambda>t. item_vpath t = v) ts)"

definition find_by_partial_vpath :: "task list \<Rightarrow> string \<Rightarrow> task list" where
  "find_by_partial_vpath ts v = (if v = [] then [] else filter (\<lambda>t. prefix v (item_vpath t)) ts)"

text \<open>Only configuration tasks have a \<open>call_id\<close>: a callback task whose callback has the name that
  is searched for raises.\<close>

definition find_by_call :: "task list \<Rightarrow> string \<Rightarrow> string \<Rightarrow> task list res" where
  "find_by_call ts ty ci =
     (if ty = [] then Inr []
      else if list_ex (\<lambda>t. ta_call_type t = ty \<and> \<not> is_config t) ts then Inl (AttributeError ''call_id'')
      else Inr (filter (\<lambda>t. ta_call_type t = ty \<and> ta_call_id t = ci) ts))"

text \<open>The answers a collection remembers, and the searches that use them.\<close>

record task_collection =
  tc_tasks :: "task list"
  tc_by_vpath :: "(string \<times> task list) list"
  tc_by_partial_vpath :: "(string \<times> task list) list"
  tc_by_call :: "((string \<times> string) \<times> task list) list"

definition new_collection :: "task list \<Rightarrow> task_collection" where
  "new_collection ts = \<lparr>tc_tasks = ts, tc_by_vpath = [], tc_by_partial_vpath = [], tc_by_call = []\<rparr>"

datatype criteria = ByVpath string | ByPartialVpath string | ByCall string string

fun find_reference :: "criteria \<Rightarrow> task list \<Rightarrow> task list res" where
  "find_reference (ByVpath v) ts = Inr (find_by_vpath ts v)"
| "find_reference (ByPartialVpath v) ts = Inr (find_by_partial_vpath ts v)"
| "find_reference (ByCall ty ci) ts = find_by_call ts ty ci"

fun criterion :: "criteria \<Rightarrow> string" where
  "criterion (ByVpath v) = v"
| "criterion (ByPartialVpath v) = v"
| "criterion (ByCall ty ci) = ty"

fun recall :: "criteria \<Rightarrow> task_collection \<Rightarrow> task list option" where
  "recall (ByVpath v) c = map_of (tc_by_vpath c) v"
| "recall (ByPartialVpath v) c = map_of (tc_by_partial_vpath c) v"
| "recall (ByCall ty ci) c = map_of (tc_by_call c) (ty, ci)"

fun remember :: "criteria \<Rightarrow> task list \<Rightarrow> task_collection \<Rightarrow> task_collection" where
  "remember (ByVpath v) found c = c\<lparr>tc_by_vpath := AList.update v found (tc_by_vpath c)\<rparr>"
| "remember (ByPartialVpath v) found c =
     c\<lparr>tc_by_partial_vpath := AList.update v found (tc_by_partial_vpath c)\<rparr>"
| "remember (ByCall ty ci) found c = c\<lparr>tc_by_call := AList.update (ty, ci) found (tc_by_call c)\<rparr>"

definition find_tasks :: "criteria \<Rightarrow> task_collection \<Rightarrow> (task list \<times> task_collection) res" where
  "find_tasks q c =
     (if criterion q = [] then Inr ([], c)
      else case recall q c of
        Some found \<Rightarrow> Inr (found, c)
      | None \<Rightarrow> rbind (find_reference q (tc_tasks c)) (\<lambda>found. Inr (found, remember q found c)))"

definition remembers :: "task_collection \<Rightarrow> bool" where
  "remembers c \<longleftrightarrow> (\<forall>q found. recall q c = Some found \<longrightarrow> find_reference q (tc_tasks c) = Inr found)"

lemma recall_remember: "recall q' (remember q found c) = (if q' = q then Some found else recall q' c)"
  by (cases q; cases q') simp_all

lemma tasks_remember [simp]: "tc_tasks (remember q found c) = tc_tasks c"
  by (cases q) simp_all

lemma find_reference_empty: "criterion q = [] \<Longrightarrow> find_reference q ts = Inr []"
  by (cases q) (simp_all add: find_by_vpath_def find_by_partial_vpath_def find_by_call_def)

text \<open>The answers are those of the search itself, whatever was asked before.\<close>

lemma find_tasks_reference:
  assumes "remembers c"
  shows "find_tasks q c = Inl e \<longleftrightarrow> find_reference q (tc_tasks c) = Inl e"
    and "find_tasks q c = Inr (found, c') \<Longrightarrow>
      find_reference q (tc_tasks c) = Inr found \<and> remembers c' \<and> tc_tasks c' = tc_tasks c"
proof -
  have ref: "find_tasks q c = (if criterion q = [] then Inr ([], c) else
      rbind (find_reference q (tc_tasks c)) (\<lambda>found.
        Inr (found, if recall q c = None then remember q found c else c)))"
    using assms by (auto simp: find_tasks_def remembers_def split: option.split)
  show "find_tasks q c = Inl e \<longleftrightarrow> find_reference q (tc_tasks c) = Inl e"
    by (simp add: ref find_reference_empty rbind_Inl_iff)
  assume "find_tasks q c = Inr (found, c')"
  with assms show "find_reference q (tc_tasks c) = Inr found \<and> remembers c' \<and> tc_tasks c' = tc_tasks c"
    by (auto simp: ref find_reference_empty remembers_def rbind_Inr_iff recall_remember split: if_split_asm)
qed

lemma new_collection_remembers: "remembers (new_collection ts)"
  unfolding remembers_def
proof (intro allI impI)
  fix q found assume "recall q (new_collection ts) = Some found"
  then show "find_reference q (tc_tasks (new_collection ts)) = Inr found"
    by (cases q) (simp_all add: new_collection_def)
qed

text \<open>A required task counts when it is in the collection, unless it is a callback task that is no
  longer initial; a required item stands for the tasks of all the items whose path starts with its
  path.\<close>

fun tasks_of_dependency :: "task list \<Rightarrow> dependency \<Rightarrow> string list res" where
  "tasks_of_dependency ts (OnQuery v) = Inr (keys_of (find_by_partial_vpath ts v))"
| "tasks_of_dependency ts (OnTask k) =
     Inr (case task_at ts k of
            Some d \<Rightarrow> if is_callback d \<and> ta_state d \<noteq> TaskInitial then [] else [k]
          | None \<Rightarrow> [])"
| "tasks_of_dependency ts (OnCall ty ci) = rbind (find_by_call ts ty ci) (\<lambda>found. Inr (keys_of found))"
| "tasks_of_dependency ts OnOther = Inr []"

definition get_plugin_requires :: "task list \<Rightarrow> task \<Rightarrow> string list res" where
  "get_plugin_requires ts t =
     rbind (map_res (tasks_of_dependency ts) (ta_requires t)) (\<lambda>kss.
       Inr (remdups (filter (\<lambda>k. k \<noteq> ta_key t) (concat kss))))"

text \<open>The answers for all the tasks, as \<open>_found_task_plugin_requires\<close> comes to hold them.\<close>

definition plugin_requires :: "task list \<Rightarrow> graph res" where
  "plugin_requires ts = map_res (\<lambda>t. rbind (get_plugin_requires ts t) (\<lambda>ks. Inr (ta_key t, ks))) ts"

section \<open>Dependencies given by plugins\<close>

definition successors :: "graph \<Rightarrow> string \<Rightarrow> string list" where
  "successors g k = (case map_of g k of Some ds \<Rightarrow> ds | None \<Rightarrow> [])"

definition edges :: "graph \<Rightarrow> (string \<times> string) set" where
  "edges g = {(n, d). d \<in> set (successors g n)}"

lemma edges_iff [simp]: "(n, d) \<in> edges g \<longleftrightarrow> d \<in> set (successors g n)"
  by (simp add: edges_def)

lemma finite_edges: "finite (edges g)"
proof (rule finite_subset)
  show "edges g \<subseteq> (\<Union>(n, ds) \<in> set g. {n} \<times> set ds)"
  proof clarify
    fix n d assume "(n, d) \<in> edges g"
    then obtain ds where "map_of g n = Some ds" "d \<in> set ds"
      by (cases "map_of g n") (auto simp: successors_def)
    then show "(n, d) \<in> (\<Union>(n, ds) \<in> set g. {n} \<times> set ds)" by (blast dest: map_of_SomeD)
  qed
qed auto

text \<open>The loop over the dependencies of a task: the dependencies of the current level, the indirect
  ones seen so far, and the dependencies looked at.\<close>

definition requires_round ::
  "graph \<Rightarrow> string \<Rightarrow> string list \<times> string list \<times> string list \<Rightarrow> string list \<times> string list \<times> string list" where
  "requires_round req t st =
     (case st of (direct, indirect, visited) \<Rightarrow>
        (case fold (\<lambda>d. fold enqueue (filter (\<lambda>i. i \<noteq> t) (successors req d))) direct ([], indirect) of
           (queue, indirect) \<Rightarrow> (queue, indirect, List.union direct visited)))"

definition task_dependencies :: "graph \<Rightarrow> string \<Rightarrow> string list res" where
  "task_dependencies req t =
     (case level_loop (requires_round req t) (successors req t, [], []) of
        Some (_, _, visited) \<Rightarrow> Inr visited
      | None \<Rightarrow> Inl diverges)"

definition may_depend :: "task list \<Rightarrow> task \<Rightarrow> string \<Rightarrow> bool res" where
  "may_depend ts t k = (case task_at ts k of Some d \<Rightarrow> can_have_dependency t d | None \<Rightarrow> Inl (KeyError k))"

definition create_graph_from_task_requires :: "task list \<Rightarrow> graph res" where
  "create_graph_from_task_requires ts =
     rbind (plugin_requires ts) (\<lambda>req.
       map_res (\<lambda>t. rbind (task_dependencies req (ta_key t)) (\<lambda>ds.
                     rbind (filter_res (may_depend ts t) ds) (\<lambda>ds. Inr (ta_key t, ds)))) ts)"

lemma requires_round_seen:
  assumes "requires_round req t (q, s, v) = (q', s', v')"
  defines "new \<equiv> \<Union>d \<in> set q. set (successors req d) - {t}"
  shows "set s' = set s \<union> new \<and> set q' = new - set s \<and> set v' = set q \<union> set v"
proof -
  obtain a b where f: "fold enqueue (concat (map (\<lambda>d. filter (\<lambda>i. i \<noteq> t) (successors req d)) q)) ([], s) = (a, b)"
    by (cases "fold enqueue (concat (map (\<lambda>d. filter (\<lambda>i. i \<noteq> t) (successors req d)) q)) ([], s)")
  with assms(1) have "q' = a" "s' = b" "v' = List.union q v"
    by (simp_all add: requires_round_def fold_enqueue_concat)
  with fold_enqueue [OF f] show ?thesis by (auto simp: new_def)
qed

definition reached :: "graph \<Rightarrow> string \<Rightarrow> string set" where
  "reached req t = {d. d \<noteq> t \<and> (t, d) \<in> (edges req)\<^sup>+}"

definition requires_state :: "graph \<Rightarrow> string \<Rightarrow> string list \<times> string list \<times> string list \<Rightarrow> bool" where
  "requires_state req t st \<longleftrightarrow>
     (case st of (q, s, v) \<Rightarrow>
        set q \<union> set s \<union> set v \<subseteq> reached req t \<and> set (successors req t) \<subseteq> set v \<union> set q \<and>
        (\<Union>d \<in> set v. set (successors req d) - {t}) \<subseteq> set s \<and> set s \<subseteq> set v \<union> set q)"

lemma finite_reached: "finite (reached req t)"
proof (rule finite_subset)
  show "reached req t \<subseteq> snd ` (edges req)\<^sup>+" by (force simp: reached_def)
qed (simp add: finite_edges)

lemma requires_round_state:
  assumes P: "requires_state req t (q, s, v)" and r: "requires_round req t (q, s, v) = (q', s', v')"
  shows "requires_state req t (q', s', v') \<and> set s \<subseteq> set s' \<and> (set s' = set s \<longrightarrow> q' = [])"
proof -
  define W where "W = (\<Union>d \<in> set q. set (successors req d) - {t})"
  define V where "V = (\<Union>d \<in> set v. set (successors req d) - {t})"
  from r have upd: "set s' = set s \<union> W" "set q' = W - set s" "set v' = set q \<union> set v"
    using requires_round_seen [OF r] unfolding W_def by blast+
  from P have inv: "set q \<subseteq> reached req t" "set s \<subseteq> reached req t" "set v \<subseteq> reached req t"
    "set (successors req t) \<subseteq> set v \<union> set q" "V \<subseteq> set s" "set s \<subseteq> set v \<union> set q"
    by (simp_all add: requires_state_def V_def)
  have W: "W \<subseteq> reached req t"
  proof
    fix y assume "y \<in> W"
    then obtain d where "d \<in> set q" "(d, y) \<in> edges req" "y \<noteq> t" unfolding W_def by auto
    with inv(1) show "y \<in> reached req t"
      unfolding reached_def by (blast intro: trancl_into_trancl)
  qed
  have VW: "(\<Union>d \<in> set v'. set (successors req d) - {t}) = W \<union> V"
    unfolding upd(3) W_def V_def by (rule UN_Un)
  have "q' = []" if "set s' = set s"
  proof -
    have "W \<subseteq> set s" using upd(1) that by (metis sup_ge2)
    then have "set q' = {}" unfolding upd(2) by (rule Diff_eq_empty_iff [THEN iffD2])
    then show ?thesis by simp
  qed
  moreover have "requires_state req t (q', s', v')"
    proof -
    have "set q' \<union> set s' \<union> set v' \<subseteq> reached req t" using W inv(1-3) upd by simp blast
    moreover have "set (successors req t) \<subseteq> set v' \<union> set q'" unfolding upd(3) using inv(4) by auto
    moreover have "W \<union> V \<subseteq> set s'" using inv(5) upd(1) by blast
    moreover have "set s' \<subseteq> set v' \<union> set q'" unfolding upd using inv(6) by auto
    ultimately show ?thesis unfolding requires_state_def prod.case VW by blast
  qed
  ultimately show ?thesis using upd(1) by simp
qed

text \<open>The search ends and finds every task that is required directly or through others.\<close>

lemma task_dependencies_reach:
  assumes "t \<notin> set (successors req t)"
  shows "\<exists>ds. task_dependencies req t = Inr ds \<and> set ds = reached req t"
proof -
  have "requires_state req t (successors req t, [], [])"
    using assms by (auto simp: requires_state_def reached_def)
  then have "\<exists>s'. level_loop (requires_round req t) (successors req t, [], []) = Some ([], s') \<and>
      requires_state req t ([], s')"
  proof (rule level_loop_ends [OF finite_reached, where P = "requires_state req t" and seen = "\<lambda>s. set (fst s)"])
    fix q s q' s' assume "requires_state req t (q, s)" "requires_round req t (q, s) = (q', s')"
    then show "requires_state req t (q', s') \<and> set (fst s) \<subseteq> set (fst s') \<and>
        (set (fst s') = set (fst s) \<longrightarrow> q' = [])"
      using requires_round_state [of req t q "fst s" "snd s" q' "fst s'" "snd s'"] by simp
  qed (auto simp: requires_state_def)
  then obtain s v where l: "level_loop (requires_round req t) (successors req t, [], []) = Some ([], s, v)"
    and P: "requires_state req t ([], s, v)" by (metis surj_pair)
  from P have up: "set (successors req t) \<subseteq> set v" "(\<Union>d \<in> set v. set (successors req d) - {t}) \<subseteq> set v"
    and sub: "set v \<subseteq> reached req t" by (auto simp: requires_state_def)
  have "(t, d) \<in> (edges req)\<^sup>+ \<Longrightarrow> d \<noteq> t \<longrightarrow> d \<in> set v" for d
  proof (induction rule: trancl_induct)
    case (base y)
    with up(1) show ?case by auto
  next
    case (step y z)
    with up show ?case by (cases "y = t") auto
  qed
  then have "reached req t \<subseteq> set v" by (auto simp: reached_def)
  with sub l show ?thesis by (auto simp: task_dependencies_def)
qed

section \<open>Bridging the dependencies\<close>

text \<open>\<open>bridge_static_and_plugin_dependencies\<close> adds, task by task, the dependencies of the
  dependencies to the graph it reads them from.\<close>

definition add_dep :: "string \<Rightarrow> string \<Rightarrow> graph \<Rightarrow> graph" where
  "add_dep t d g = AList.update t (successors g t @ [d]) g"

definition bridge_visit :: "string \<Rightarrow> string \<Rightarrow> string list \<times> graph \<Rightarrow> string list \<times> graph" where
  "bridge_visit t i st =
     (if i \<in> set (successors (snd st) t) then st else (fst st @ [i], add_dep t i (snd st)))"

definition bridge_round :: "string \<Rightarrow> string list \<times> graph \<Rightarrow> string list \<times> graph" where
  "bridge_round t st =
     fold (\<lambda>d st. fold (bridge_visit t) (successors (snd st) d) st) (fst st) ([], snd st)"

definition bridge_task :: "string \<Rightarrow> graph \<Rightarrow> graph res" where
  "bridge_task t g =
     (case level_loop (bridge_round t) (successors g t, g) of
        Some (_, g') \<Rightarrow> Inr g' | None \<Rightarrow> Inl diverges)"

definition bridge_static_and_plugin_dependencies :: "graph \<Rightarrow> graph res" where
  "bridge_static_and_plugin_dependencies g = for_res bridge_task (map fst g) g"

lemma successors_update [simp]:
  "successors (AList.update t ds g) k = (if k = t then ds else successors g k)"
  by (simp add: successors_def)

lemma update_twice: "AList.update t a (AList.update t b g) = AList.update t a g"
  by (induction g) auto

lemma fold_enqueue_seen: "set is \<subseteq> set s \<Longrightarrow> fold enqueue is (q, s) = (q, s)"
  by (induction "is") (simp_all add: enqueue_def)

lemma fold_bridge_visit:
  "fold (bridge_visit t) is (q, AList.update t s g) =
    (case fold enqueue is (q, s) of (q', s') \<Rightarrow> (q', AList.update t s' g))"
proof (induction "is" arbitrary: q s)
  case (Cons i "is")
  show ?case
  proof (cases "i \<in> set s")
    case True
    then show ?thesis by (simp add: bridge_visit_def [of t i] enqueue_def [of i] Cons.IH)
  next
    case False
    then show ?thesis by (simp add: bridge_visit_def [of t i] enqueue_def [of i] add_dep_def update_twice Cons.IH)
  qed
qed simp

text \<open>Apart from the task itself, whose dependencies are all seen, the round looks at dependencies
  that do not change.\<close>

definition others :: "graph \<Rightarrow> string \<Rightarrow> string \<Rightarrow> string list" where
  "others g t d = (if d = t then [] else successors g d)"

lemma bridge_round_enqueue:
  "bridge_round t (q, AList.update t s g) =
    (case fold enqueue (concat (map (others g t) q)) ([], s) of (q', s') \<Rightarrow> (q', AList.update t s' g))"
proof -
  have "fold (\<lambda>d st. fold (bridge_visit t) (successors (snd st) d) st) ds (r, AList.update t s g) =
      (case fold enqueue (concat (map (others g t) ds)) (r, s) of (q', s') \<Rightarrow> (q', AList.update t s' g))"
    for ds r
  proof (induction ds arbitrary: r s)
    case (Cons d ds)
    obtain r1 s1 where e: "fold enqueue (others g t d) (r, s) = (r1, s1)"
      by (cases "fold enqueue (others g t d) (r, s)")
    have "fold (bridge_visit t) (successors (AList.update t s g) d) (r, AList.update t s g) =
        (r1, AList.update t s1 g)"
      using e by (cases "d = t") (simp_all add: others_def fold_bridge_visit fold_enqueue_seen)
    then show ?case using e by (simp add: Cons.IH)
  qed simp
  then show ?thesis by (simp add: bridge_round_def)
qed

definition bridge_state :: "string \<Rightarrow> graph \<Rightarrow> string list \<times> graph \<Rightarrow> bool" where
  "bridge_state t g st \<longleftrightarrow>
     (\<exists>s. snd st = AList.update t s g \<and> set s \<subseteq> {d. (t, d) \<in> (edges g)\<^sup>+} \<and> set (successors g t) \<subseteq> set s \<and>
        set (fst st) \<subseteq> set s \<and> (\<forall>d \<in> set s - set (fst st). set (others g t d) \<subseteq> set s))"

lemma bridge_round_state:
  assumes P: "bridge_state t g (q, h)" and r: "bridge_round t (q, h) = (q', h')"
  shows "bridge_state t g (q', h') \<and> set (successors h t) \<subseteq> set (successors h' t) \<and>
    (set (successors h' t) = set (successors h t) \<longrightarrow> q' = [])"
proof -
  from P obtain s where h: "h = AList.update t s g" and
    s: "set s \<subseteq> {d. (t, d) \<in> (edges g)\<^sup>+}" "set (successors g t) \<subseteq> set s" "set q \<subseteq> set s"
       "\<forall>d \<in> set s - set q. set (others g t d) \<subseteq> set s"
    unfolding bridge_state_def by auto
  define W where "W = (\<Union>d \<in> set q. set (others g t d))"
  obtain s' where e: "fold enqueue (concat (map (others g t) q)) ([], s) = (q', s')" and
    h': "h' = AList.update t s' g"
    using r h bridge_round_enqueue [of t q s g]
    by (cases "fold enqueue (concat (map (others g t) q)) ([], s)") auto
  from fold_enqueue [OF e] have upd: "set s' = set s \<union> W" "set q' = W - set s" by (auto simp: W_def)
  have W: "W \<subseteq> {d. (t, d) \<in> (edges g)\<^sup>+}"
  proof
    fix y assume "y \<in> W"
    then obtain d where "d \<in> set q" "(d, y) \<in> edges g" by (auto simp: W_def others_def split: if_splits)
    with s(1,3) show "y \<in> {d. (t, d) \<in> (edges g)\<^sup>+}" by (blast intro: trancl_into_trancl)
  qed
  have "q' = []" if "set s' = set s"
  proof -
    have "W \<subseteq> set s" using upd(1) that by (metis sup_ge2)
    then have "set q' = {}" unfolding upd(2) by (rule Diff_eq_empty_iff [THEN iffD2])
    then show ?thesis by simp
  qed
  moreover have "set (others g t d) \<subseteq> set s'" if "d \<in> set s' - set q'" for d
    using that s(4) upd W_def by (cases "d \<in> set q") blast+
  then have "bridge_state t g (q', h')"
    unfolding bridge_state_def using s(1,2) upd h' W by (intro exI [of _ s']) auto
  ultimately show ?thesis using upd(1) by (simp add: h h')
qed

lemma bridge_task_closes:
  assumes "t \<in> set (map fst g)"
  shows "\<exists>g'. bridge_task t g = Inr g' \<and> map fst g' = map fst g \<and>
    (\<forall>k. k \<noteq> t \<longrightarrow> successors g' k = successors g k) \<and> set (successors g' t) = {d. (t, d) \<in> (edges g)\<^sup>+}"
proof -
  let ?R = "{d. (t, d) \<in> (edges g)\<^sup>+}"
  have "finite ?R"
  proof (rule finite_subset)
    show "?R \<subseteq> snd ` (edges g)\<^sup>+" by force
  qed (simp add: finite_edges)
  moreover have "map_of g t = Some (successors g t)"
    using assms by (cases "map_of g t") (auto simp: successors_def map_of_eq_None_iff)
  then have "AList.update t (successors g t) g = g" by (simp add: update_triv)
  then have "bridge_state t g (successors g t, g)"
    unfolding bridge_state_def by (intro exI [of _ "successors g t"]) auto
  ultimately have "\<exists>h. level_loop (bridge_round t) (successors g t, g) = Some ([], h) \<and> bridge_state t g ([], h)"
  proof (rule level_loop_ends [where seen = "\<lambda>h. set (successors h t)"])
    show "set (successors h t) \<subseteq> ?R" if "bridge_state t g (q, h)" for q h
      using that by (auto simp: bridge_state_def)
  qed (rule bridge_round_state)
  then obtain h s where l: "level_loop (bridge_round t) (successors g t, g) = Some ([], h)" and
    h: "h = AList.update t s g" and
    s: "set s \<subseteq> ?R" "set (successors g t) \<subseteq> set s" "\<forall>d \<in> set s. set (others g t d) \<subseteq> set s"
    by (auto simp: bridge_state_def)
  have "(t, d) \<in> (edges g)\<^sup>+ \<Longrightarrow> d \<in> set s" for d
  proof (induction rule: trancl_induct)
    case (step y z)
    then have "set (others g t y) \<subseteq> set s" using s(3) by blast
    with s(2) step show ?case by (cases "y = t") (auto simp: others_def)
  qed (use s(2) in auto)
  with s(1) have "set s = ?R" by blast
  moreover have "map fst h = map fst g" using assms by (auto simp: h update_keys)
  ultimately show ?thesis using l h by (simp add: bridge_task_def)
qed

lemma edges_between:
  assumes "edges g \<subseteq> edges h" and "edges h \<subseteq> (edges g)\<^sup>+"
  shows "(edges h)\<^sup>+ = (edges g)\<^sup>+"
  using trancl_mono_subset [OF assms(1)] trancl_mono_subset [OF assms(2)] by simp

lemma bridge_loop_closes:
  assumes "set ks \<subseteq> set (map fst g)"
  shows "\<exists>h. for_res bridge_task ks g = Inr h \<and> map fst h = map fst g \<and> edges g \<subseteq> edges h \<and>
    edges h \<subseteq> (edges g)\<^sup>+ \<and> (\<forall>k \<in> set ks. set (successors h k) = {d. (k, d) \<in> (edges g)\<^sup>+})"
  using assms
proof (induction ks rule: rev_induct)
  case (snoc k ks)
  then obtain h where h: "for_res bridge_task ks g = Inr h" "map fst h = map fst g" "edges g \<subseteq> edges h"
    "edges h \<subseteq> (edges g)\<^sup>+" "\<forall>k \<in> set ks. set (successors h k) = {d. (k, d) \<in> (edges g)\<^sup>+}" by auto
  have closure: "(edges h)\<^sup>+ = (edges g)\<^sup>+" using h(3,4) by (rule edges_between)
  from snoc.prems h(2) have "k \<in> set (map fst h)" by (simp del: set_map)
  from bridge_task_closes [OF this] obtain h' where h': "bridge_task k h = Inr h'" "map fst h' = map fst h"
    "\<forall>j. j \<noteq> k \<longrightarrow> successors h' j = successors h j" "set (successors h' k) = {d. (k, d) \<in> (edges h)\<^sup>+}"
    by blast
  have "set (successors h' j) = {d. (j, d) \<in> (edges g)\<^sup>+}" if "j \<in> set (ks @ [k])" for j
    using that h'(3,4) h(5) closure by (cases "j = k") auto
  moreover have "edges g \<subseteq> edges h'"
  proof clarify
    fix j d assume "(j, d) \<in> edges g"
    with h(3) have "(j, d) \<in> edges h" by blast
    then show "(j, d) \<in> edges h'" using h'(3,4) by (cases "j = k") (auto simp del: edges_iff simp: edges_def)
  qed
  moreover have "edges h' \<subseteq> (edges g)\<^sup>+"
  proof clarify
    fix j d assume "(j, d) \<in> edges h'"
    then show "(j, d) \<in> (edges g)\<^sup>+"
      using h'(3,4) h(4) closure by (cases "j = k") (auto simp del: edges_iff simp: edges_def)
  qed
  ultimately show ?case using h h' by (simp add: for_res_append)
qed auto

text \<open>The bridged graph has an edge exactly where the combined graph has a path.\<close>

lemma bridge_closes:
  "\<exists>h. bridge_static_and_plugin_dependencies g = Inr h \<and> map fst h = map fst g \<and> edges h = (edges g)\<^sup>+"
proof -
  from bridge_loop_closes [of "map fst g" g] obtain h where h: "for_res bridge_task (map fst g) g = Inr h"
    "map fst h = map fst g" "edges h \<subseteq> (edges g)\<^sup>+"
    "\<forall>k \<in> set (map fst g). set (successors h k) = {d. (k, d) \<in> (edges g)\<^sup>+}" by auto
  have "(k, d) \<in> edges h" if "(k, d) \<in> (edges g)\<^sup>+" for k d
  proof -
    from tranclD [OF that] have "successors g k \<noteq> []" by auto
    then have "k \<in> set (map fst g)" by (cases "map_of g k") (force simp: successors_def dest: map_of_SomeD)+
    with h(4) that show ?thesis by (simp del: set_map)
  qed
  with h show ?thesis by (auto simp: bridge_static_and_plugin_dependencies_def)
qed

section \<open>Dependencies of the model\<close>

text \<open>\<open>create direct dependencies between vpaths from indirect ones\<close>: a path is visited when it is
  taken from the queue.\<close>

definition vpath_visit :: "graph \<Rightarrow> string \<Rightarrow> string list \<times> string list \<Rightarrow> string list \<times> string list" where
  "vpath_visit md d st =
     (if d \<in> set (snd st) then st
      else (List.union (fst st) (successors md d), snd st @ [d]))"

definition vpath_round :: "graph \<Rightarrow> string list \<times> string list \<Rightarrow> string list \<times> string list" where
  "vpath_round md st = fold (vpath_visit md) (fst st) ([], snd st)"

definition vpath_dependencies :: "graph \<Rightarrow> string list \<Rightarrow> string list res" where
  "vpath_dependencies md ds =
     (case level_loop (vpath_round md) (ds, []) of Some (_, visited) \<Rightarrow> Inr visited | None \<Rightarrow> Inl diverges)"

definition direct_vpaths :: "graph \<Rightarrow> graph res" where
  "direct_vpaths md = map_res (\<lambda>(v, ds). rbind (vpath_dependencies md ds) (\<lambda>vs. Inr (v, vs))) md"

definition reversed_vpaths :: "graph \<Rightarrow> string \<Rightarrow> string list" where
  "reversed_vpaths vp d = map fst (filter (\<lambda>(v, ds). d \<in> set ds) vp)"

definition is_package_task :: "task \<Rightarrow> bool" where
  "is_package_task t \<longleftrightarrow> is_config t \<and> ta_call_type t = ''package''"

definition add_model_dependency :: "task \<Rightarrow> task \<Rightarrow> graph \<Rightarrow> graph res" where
  "add_model_dependency t d g =
     (if is_package_task t \<and> is_package_task d then Inr g
      else rbind (can_have_dependency t d) (\<lambda>ok.
        Inr (if ok \<and> ta_key d \<notin> set (successors g (ta_key t)) \<and> ta_key t \<notin> set (successors g (ta_key d))
             then add_dep (ta_key t) (ta_key d) g else g)))"

definition add_model_dependencies :: "task list \<Rightarrow> graph \<Rightarrow> task \<Rightarrow> graph \<Rightarrow> graph res" where
  "add_model_dependencies ts vp t g =
     (let g = (if has_key (ta_key t) g then g else g @ [(ta_key t, [])])
      in rbind (is_deconfigure t) (\<lambda>deconfigure.
           let vpaths = (if deconfigure then reversed_vpaths vp (item_vpath t) else successors vp (item_vpath t))
           in for_res (add_model_dependency t) (concat (map (find_by_vpath ts) vpaths)) g))"

definition create_graph_from_static_sibling_require :: "task list \<Rightarrow> graph \<Rightarrow> graph \<Rightarrow> graph res" where
  "create_graph_from_static_sibling_require ts md g =
     (if ts = [] then Inr g
      else rbind (direct_vpaths md) (\<lambda>vp. for_res (add_model_dependencies ts vp) ts g))"

text \<open>The search over the paths ends with everything that can be reached.\<close>

lemma fold_vpath_visit:
  assumes "fold (vpath_visit md) ds (q, v) = (q', v')"
  shows "set v' = set v \<union> set ds \<and> set q' = set q \<union> (\<Union>d \<in> set ds - set v. set (successors md d))"
  using assms
proof (induction ds arbitrary: q v)
  case (Cons d ds)
  obtain q1 v1 where e: "vpath_visit md d (q, v) = (q1, v1)" by (cases "vpath_visit md d (q, v)")
  with Cons.prems have "fold (vpath_visit md) ds (q1, v1) = (q', v')" by simp
  from Cons.IH [OF this] e show ?case
    by (cases "d \<in> set v") (auto simp: vpath_visit_def)
qed simp

definition vpath_state :: "graph \<Rightarrow> string list \<Rightarrow> string list \<times> string list \<Rightarrow> bool" where
  "vpath_state md ds st \<longleftrightarrow>
     set (fst st) \<union> set (snd st) \<subseteq> (edges md)\<^sup>* `` set ds \<and> set ds \<subseteq> set (fst st) \<union> set (snd st) \<and>
     (\<Union>d \<in> set (snd st). set (successors md d)) \<subseteq> set (fst st) \<union> set (snd st)"

lemma vpath_round_state:
  assumes P: "vpath_state md ds (q, v)" and r: "vpath_round md (q, v) = (q', v')"
  shows "vpath_state md ds (q', v') \<and> set v \<subseteq> set v' \<and> (set v' = set v \<longrightarrow> q' = [])"
proof -
  define W where "W = (\<Union>d \<in> set q - set v. set (successors md d))"
  define V where "V = (\<Union>d \<in> set v. set (successors md d))"
  have upd: "set v' = set v \<union> set q" "set q' = W"
    using fold_vpath_visit [of md q "[]" v q' v'] r by (simp_all add: vpath_round_def W_def)
  from P have inv: "set q \<subseteq> (edges md)\<^sup>* `` set ds" "set v \<subseteq> (edges md)\<^sup>* `` set ds"
    "set ds \<subseteq> set q \<union> set v" "V \<subseteq> set q \<union> set v"
    by (simp_all add: vpath_state_def V_def)
  have W: "W \<subseteq> (edges md)\<^sup>* `` set ds"
  proof
    fix y assume "y \<in> W"
    then obtain d where "d \<in> set q" "(d, y) \<in> edges md" by (auto simp: W_def)
    with inv(1) show "y \<in> (edges md)\<^sup>* `` set ds" by (blast intro: rtrancl_into_rtrancl)
  qed
  have "(\<Union>d \<in> set v'. set (successors md d)) \<subseteq> W \<union> V" unfolding upd W_def V_def by blast
  then have "(\<Union>d \<in> set v'. set (successors md d)) \<subseteq> set q' \<union> set v'"
    unfolding upd using inv(4) by blast
  moreover have "set q' \<union> set v' \<subseteq> (edges md)\<^sup>* `` set ds" unfolding upd using W inv(1,2) by blast
  moreover have "set ds \<subseteq> set q' \<union> set v'" unfolding upd using inv(3) by blast
  ultimately have "vpath_state md ds (q', v')" by (simp add: vpath_state_def)
  moreover have "q' = []" if "set v' = set v"
  proof -
    have "set q \<subseteq> set v" using upd(1) that by (metis sup_ge2)
    then have "W = {}" unfolding W_def by blast
    with upd(2) show ?thesis by simp
  qed
  ultimately show ?thesis using upd(1) by simp
qed

lemma vpath_dependencies_reach:
  "\<exists>vs. vpath_dependencies md ds = Inr vs \<and> set vs = (edges md)\<^sup>* `` set ds"
proof -
  have "(edges md)\<^sup>* `` set ds \<subseteq> set ds \<union> snd ` (edges md)\<^sup>+" by (force simp: rtrancl_eq_or_trancl)
  then have "finite ((edges md)\<^sup>* `` set ds)"
    by (rule finite_subset) (simp add: finite_edges)
  moreover have "vpath_state md ds (ds, [])" by (auto simp: vpath_state_def)
  ultimately have "\<exists>v. level_loop (vpath_round md) (ds, []) = Some ([], v) \<and> vpath_state md ds ([], v)"
  proof (rule level_loop_ends [where seen = set])
    show "set v \<subseteq> (edges md)\<^sup>* `` set ds" if "vpath_state md ds (q, v)" for q v
      using that by (simp add: vpath_state_def)
  qed (rule vpath_round_state)
  then obtain v where l: "level_loop (vpath_round md) (ds, []) = Some ([], v)"
    and v: "set v \<subseteq> (edges md)\<^sup>* `` set ds" "set ds \<subseteq> set v"
      "(\<Union>d \<in> set v. set (successors md d)) \<subseteq> set v"
    by (auto simp: vpath_state_def)
  from v(3) have "edges md `` set v \<subseteq> set v" by (auto intro!: subsetD [OF v(3)])
  then have "(edges md)\<^sup>* `` set v = set v" by (rule Image_closed_trancl)
  with v(1,2) have "set v = (edges md)\<^sup>* `` set ds" by blast
  with l show ?thesis by (simp add: vpath_dependencies_def)
qed

lemma map_res_keys:
  "map_res (\<lambda>(k, v). rbind (f v) (\<lambda>u. Inr (k, u))) d = Inr e \<Longrightarrow> map fst e = map fst d"
  by (induction d arbitrary: e) (auto simp: rbind_Inr_iff)

lemma direct_vpaths_closure:
  "\<exists>vp. direct_vpaths md = Inr vp \<and> (\<forall>v. set (successors vp v) = {d. (v, d) \<in> (edges md)\<^sup>+})"
proof -
  have "\<exists>vp. map_res (\<lambda>(v, ds). rbind (vpath_dependencies md ds) (\<lambda>vs. Inr (v, vs))) xs = Inr vp" for xs
    using vpath_dependencies_reach by (induction xs) (fastforce simp: rbind_Inr_iff)+
  then obtain vp where vp: "direct_vpaths md = Inr vp" unfolding direct_vpaths_def by blast
  have "set (successors vp v) = {d. (v, d) \<in> (edges md)\<^sup>+}" for v
  proof (cases "map_of vp v")
    case None
    then have "v \<notin> set (map fst vp)" by (simp add: map_of_eq_None_iff)
    then have "map_of md v = None"
      using map_res_keys [OF vp [unfolded direct_vpaths_def]] by (metis map_of_eq_None_iff set_map)
    then have "(v, d) \<notin> (edges md)\<^sup>+" for d by (auto simp: successors_def dest: tranclD)
    with None show ?thesis by (simp add: successors_def)
  next
    case (Some vs)
    with map_of_serialized [OF vp [unfolded direct_vpaths_def]] obtain ds where
      ds: "map_of md v = Some ds" "vpath_dependencies md ds = Inr vs" by blast
    with vpath_dependencies_reach [of md ds] have "set vs = (edges md)\<^sup>* `` set (successors md v)"
      by (simp add: successors_def)
    also have "\<dots> = {d. (v, d) \<in> (edges md)\<^sup>+}" by (auto simp: trancl_unfold_left)
    finally show ?thesis using Some by (simp add: successors_def)
  qed
  with vp show ?thesis by blast
qed

lemma reversed_vpaths_successors:
  assumes "distinct (map fst vp)"
  shows "v \<in> set (reversed_vpaths vp d) \<longleftrightarrow> d \<in> set (successors vp v)"
proof -
  have "v \<in> set (reversed_vpaths vp d) \<longleftrightarrow> (\<exists>es. (v, es) \<in> set vp \<and> d \<in> set es)"
    by (force simp: reversed_vpaths_def)
  also have "\<dots> \<longleftrightarrow> (\<exists>es. map_of vp v = Some es \<and> d \<in> set es)"
    using assms by (simp add: map_of_eq_Some_iff)
  also have "\<dots> \<longleftrightarrow> d \<in> set (successors vp v)" by (cases "map_of vp v") (simp_all add: successors_def)
  finally show ?thesis .
qed

text \<open>Why the model makes a task depend on another.\<close>

definition model_edge :: "task list \<Rightarrow> graph \<Rightarrow> string \<Rightarrow> string \<Rightarrow> bool" where
  "model_edge ts md n d \<longleftrightarrow>
     (\<exists>t \<in> set ts. \<exists>u \<in> set ts. n = ta_key t \<and> d = ta_key u \<and> can_have_dependency t u = Inr True \<and>
        \<not> (is_package_task t \<and> is_package_task u) \<and>
        (is_deconfigure t = Inr False \<and> (item_vpath t, item_vpath u) \<in> (edges md)\<^sup>+ \<or>
         is_deconfigure t = Inr True \<and> (item_vpath u, item_vpath t) \<in> (edges md)\<^sup>+))"

definition extends_graph :: "task list \<Rightarrow> graph \<Rightarrow> graph \<Rightarrow> graph \<Rightarrow> bool" where
  "extends_graph ts md g h \<longleftrightarrow>
     edges g \<subseteq> edges h \<and>
     (\<forall>n d. (n, d) \<in> edges h \<longrightarrow> (n, d) \<notin> edges g \<longrightarrow>
        model_edge ts md n d \<and> (n \<noteq> d \<longrightarrow> (d, n) \<notin> edges h))"

lemma successors_new_key [simp]: "successors (g @ [(k, [])]) n = successors g n"
  by (auto simp: successors_def map_add_def split: option.split)

lemma edges_add_dep: "edges (add_dep t d g) = insert (t, d) (edges g)"
  by (auto simp: add_dep_def edges_def split: if_splits)

lemma add_model_dependency_extends:
  assumes "extends_graph ts md g h" and "add_model_dependency t u h = Inr h'"
    and "can_have_dependency t u = Inr True \<Longrightarrow> \<not> (is_package_task t \<and> is_package_task u) \<Longrightarrow>
      model_edge ts md (ta_key t) (ta_key u)"
  shows "extends_graph ts md g h'"
proof (cases "h' = h")
  case False
  with assms(2) have new: "h' = add_dep (ta_key t) (ta_key u) h" "can_have_dependency t u = Inr True"
    "\<not> (is_package_task t \<and> is_package_task u)" "(ta_key u, ta_key t) \<notin> edges h"
    by (auto simp: add_model_dependency_def rbind_Inr_iff split: if_splits)
  then have "model_edge ts md (ta_key t) (ta_key u)" using assms(3) by blast
  have ins: "edges h' = insert (ta_key t, ta_key u) (edges h)" by (simp add: new(1) edges_add_dep)
  have ok: "model_edge ts md n d \<and> (n \<noteq> d \<longrightarrow> (d, n) \<notin> edges h')"
    if "(n, d) \<in> edges h'" "(n, d) \<notin> edges g" for n d
  proof (cases "(n, d) = (ta_key t, ta_key u)")
    case True
    with \<open>model_edge ts md (ta_key t) (ta_key u)\<close> ins new(4) show ?thesis by (simp del: edges_iff)
  next
    case False
    have old: "(n, d) \<in> edges h" using that(1) False unfolding ins by blast
    with assms(1) that(2) have "model_edge ts md n d \<and> (n \<noteq> d \<longrightarrow> (d, n) \<notin> edges h)"
      unfolding extends_graph_def by blast
    with new(4) old show ?thesis unfolding ins by blast
  qed
  have "edges g \<subseteq> edges h'" using assms(1) unfolding extends_graph_def ins by blast
  with ok show ?thesis unfolding extends_graph_def by blast
qed (use assms(1) in simp)

text \<open>The dependencies of the model are added to those of the plugins, only between tasks that may
  depend on each other, and never against an edge in the other direction.\<close>

lemma static_graph_extends:
  assumes "create_graph_from_static_sibling_require ts md g = Inr h" and md: "distinct (map fst md)"
  shows "extends_graph ts md g h"
proof (cases "ts = []")
  case False
  obtain vp where vp: "direct_vpaths md = Inr vp" "\<And>v. set (successors vp v) = {d. (v, d) \<in> (edges md)\<^sup>+}"
    "distinct (map fst vp)"
    using direct_vpaths_closure map_res_keys md unfolding direct_vpaths_def by metis
  with assms False have "for_res (add_model_dependencies ts vp) ts g = Inr h"
    by (simp add: create_graph_from_static_sibling_require_def)
  moreover have "extends_graph ts md g g" by (simp add: extends_graph_def)
  ultimately show ?thesis
  proof (rule for_res_invariant)
    fix t g1 g2 assume t: "t \<in> set ts" "extends_graph ts md g g1" "add_model_dependencies ts vp t g1 = Inr g2"
    define g0 where "g0 = (if has_key (ta_key t) g1 then g1 else g1 @ [(ta_key t, [])])"
    obtain dc where dc: "is_deconfigure t = Inr dc" and
      f: "for_res (add_model_dependency t) (concat (map (find_by_vpath ts)
        (if dc then reversed_vpaths vp (item_vpath t) else successors vp (item_vpath t)))) g0 = Inr g2"
      using t(3) by (auto simp: add_model_dependencies_def g0_def Let_def rbind_Inr_iff)
    have "edges g0 = edges g1" by (auto simp: g0_def edges_def)
    with t(2) have "extends_graph ts md g g0" by (simp add: extends_graph_def)
    with f show "extends_graph ts md g g2"
    proof (rule for_res_invariant)
      fix u h1 h2 assume u: "u \<in> set (concat (map (find_by_vpath ts)
          (if dc then reversed_vpaths vp (item_vpath t) else successors vp (item_vpath t))))"
        and h: "extends_graph ts md g h1" "add_model_dependency t u h1 = Inr h2"
      from u obtain v where v: "u \<in> set ts" "item_vpath u = v"
        "v \<in> set (if dc then reversed_vpaths vp (item_vpath t) else successors vp (item_vpath t))"
        by (auto simp: find_by_vpath_def split: if_split_asm)
      have "(if dc then (v, item_vpath t) else (item_vpath t, v)) \<in> (edges md)\<^sup>+"
      proof (cases dc)
        case True
        with v(3) have "item_vpath t \<in> set (successors vp v)" by (simp add: reversed_vpaths_successors [OF vp(3)])
        with True vp(2) show ?thesis by simp
      next
        case False
        with v(3) vp(2) show ?thesis by simp
      qed
      with v(1,2) t(1) dc have "model_edge ts md (ta_key t) (ta_key u)"
        if "can_have_dependency t u = Inr True" "\<not> (is_package_task t \<and> is_package_task u)"
        using that unfolding model_edge_def by (cases dc) auto
      with h show "extends_graph ts md g h2" by (rule add_model_dependency_extends)
    qed
  qed
qed (use assms in \<open>simp add: create_graph_from_static_sibling_require_def extends_graph_def\<close>)

section \<open>What the graph of the plugins holds\<close>

lemma map_res_apply: "map_res f xs = Inr ys \<Longrightarrow> x \<in> set xs \<Longrightarrow> \<exists>y \<in> set ys. f x = Inr y"
  by (induction xs arbitrary: ys) (auto simp: rbind_Inr_iff)

lemma map_res_fst:
  "map_res f xs = Inr ys \<Longrightarrow> (\<And>x y. f x = Inr y \<Longrightarrow> fst y = k x) \<Longrightarrow> map fst ys = map k xs"
  by (induction xs arbitrary: ys) (auto simp: rbind_Inr_iff)

lemma plugin_requires_keys: "plugin_requires ts = Inr req \<Longrightarrow> map fst req = keys_of ts"
  unfolding plugin_requires_def keys_of_def by (erule map_res_fst) (auto simp: rbind_Inr_iff)

lemma requires_graph_keys: "create_graph_from_task_requires ts = Inr g \<Longrightarrow> map fst g = keys_of ts"
  unfolding create_graph_from_task_requires_def keys_of_def rbind_Inr_iff
  by (elim exE conjE, erule map_res_fst) (auto simp: rbind_Inr_iff)

lemma plugin_requires_not_itself:
  assumes "plugin_requires ts = Inr req"
  shows "k \<notin> set (successors req k)"
proof (cases "map_of req k")
  case (Some ds)
  then have "(k, ds) \<in> set req" by (rule map_of_SomeD)
  then have "k \<notin> set ds"
    using map_res_member [OF assms [unfolded plugin_requires_def]]
    by (fastforce simp: get_plugin_requires_def rbind_Inr_iff)
  with Some show ?thesis by (simp add: successors_def)
qed (simp add: successors_def)

text \<open>The graph made from what the tasks require has an edge from a task to another exactly when
  it requires the other, directly or through other tasks, and may depend on it.\<close>

theorem task_requires_graph:
  assumes "distinct (keys_of ts)" and "create_graph_from_task_requires ts = Inr g" and "t \<in> set ts"
  shows "\<exists>req. plugin_requires ts = Inr req \<and>
    set (successors g (ta_key t)) = {d \<in> reached req (ta_key t). may_depend ts t d = Inr True}"
proof -
  obtain req where req: "plugin_requires ts = Inr req" and
    g: "map_res (\<lambda>t. rbind (task_dependencies req (ta_key t)) (\<lambda>ds.
          rbind (filter_res (may_depend ts t) ds) (\<lambda>ds. Inr (ta_key t, ds)))) ts = Inr g"
    using assms(2) by (auto simp: create_graph_from_task_requires_def rbind_Inr_iff)
  from task_dependencies_reach [OF plugin_requires_not_itself [OF req]] obtain ds where
    ds: "task_dependencies req (ta_key t) = Inr ds" "set ds = reached req (ta_key t)" by blast
  from map_res_apply [OF g assms(3)] ds(1) obtain es where
    es: "filter_res (may_depend ts t) ds = Inr es" "(ta_key t, es) \<in> set g"
    by (auto simp: rbind_Inr_iff)
  moreover have "distinct (map fst g)" using assms(1) requires_graph_keys [OF assms(2)] by simp
  ultimately have "successors g (ta_key t) = es" by (simp add: successors_def)
  with req filter_res_set [OF es(1)] ds(2) show ?thesis by auto
qed

text \<open>A task that requires a second one, which requires a third through its item.\<close>

definition sample_tasks :: "task list" where
  "sample_tasks = [sample_task ''a'' ConfigTaskC [OnTask ''b''], sample_task ''b'' ConfigTaskC [OnQuery ''/n/c''],
     sample_task ''c'' CallbackTaskC []]"

theorem task_requires_graph_witness:
  "\<exists>g req. create_graph_from_task_requires sample_tasks = Inr g \<and> plugin_requires sample_tasks = Inr req \<and>
    set (successors g ''a'') = {d \<in> reached req ''a''. may_depend sample_tasks (hd sample_tasks) d = Inr True} \<and>
    set (successors g ''a'') = {''b'', ''c''}"
proof -
  have g: "create_graph_from_task_requires sample_tasks = Inr [(''a'', [''c'', ''b'']), (''b'', [''c'']), (''c'', [])]"
    by code_simp
  have "distinct (keys_of sample_tasks)" and "hd sample_tasks \<in> set sample_tasks" and "ta_key (hd sample_tasks) = ''a''"
    by code_simp+
  with task_requires_graph [OF _ g, of "hd sample_tasks"] g show ?thesis by (auto simp: successors_def)
qed

end
