(* ===== verification/Plan_Phases.thy ===== *)
theory Plan_Phases
  imports Task_Graph "HOL-Library.Multiset"
begin

text \<open>
  How \<open>litp/core/plan_builder.py\<close> turns the layers of the dependency graph into the phases of a
  plan: it moves tasks to earlier phases where that is possible (\<open>_compact_phases\<close>), gives the
  callback and the configuration tasks of a phase phases of their own
  (\<open>_segregate_callback_tasks\<close>), drops the tasks that have already run
  (\<open>_remove_prev_successful_tasks\<close>) and orders the tasks within the phases
  (\<open>_sort_tasks_within_phases\<close>). A phase is a list of keys of tasks.
\<close>

section \<open>Placing the tasks\<close>

text \<open>What the placement asks of a task: whether it configures the network (\<open>_net_task\<close>), whether
  it is a callback task or a configuration task, and whether its item is a disk.\<close>

record kinds =
  kd_net :: "string \<Rightarrow> bool"
  kd_callback :: "string \<Rightarrow> bool"
  kd_config :: "string \<Rightarrow> bool"
  kd_disk :: "string \<Rightarrow> bool"

type_synonym phases = "string list list"

definition deps_in_phase :: "string list \<Rightarrow> string list \<Rightarrow> string list" where
  "deps_in_phase phase deps = filter (\<lambda>t. t \<in> set deps) phase"

definition add_to_phase :: "nat \<Rightarrow> string \<Rightarrow> phases \<Rightarrow> phases" where
  "add_to_phase i t ps = ps[i := ps ! i @ [t]]"

definition insert_phase :: "nat \<Rightarrow> string list \<Rightarrow> phases \<Rightarrow> phases" where
  "insert_phase i p ps = take i ps @ [p] @ drop i ps"

definition any_net :: "kinds \<Rightarrow> string list \<Rightarrow> bool" where
  "any_net K phase \<longleftrightarrow> list_ex (kd_net K) phase"

text \<open>Two tasks of which one depends on the other and one is a callback task may not share a
  phase.\<close>

definition separated :: "kinds \<Rightarrow> string \<Rightarrow> string list \<Rightarrow> string list \<Rightarrow> bool" where
  "separated K t deps phase \<longleftrightarrow>
     deps_in_phase phase deps \<noteq> [] \<and> (kd_callback K t \<or> list_ex (kd_callback K) (deps_in_phase phase deps))"

definition add_after :: "nat \<Rightarrow> string \<Rightarrow> phases \<Rightarrow> phases" where
  "add_after i t ps = (if Suc i = length ps then ps @ [[t]] else add_to_phase (Suc i) t ps)"

text \<open>The loop of \<open>_place_regular_task\<close> from phase \<open>i\<close> towards the first one.\<close>

fun regular_loop :: "kinds \<Rightarrow> string \<Rightarrow> string list \<Rightarrow> phases \<Rightarrow> nat \<Rightarrow> phases" where
  "regular_loop K t deps ps i =
     (if any_net K (ps ! i) then add_after i t ps
      else if separated K t deps (ps ! i) then add_after i t ps
      else case i of 0 \<Rightarrow> add_to_phase 0 t ps | Suc j \<Rightarrow> regular_loop K t deps ps j)"

definition place_regular_task :: "kinds \<Rightarrow> phases \<Rightarrow> string \<Rightarrow> string list \<Rightarrow> phases" where
  "place_regular_task K ps t deps =
     (if ps = [] then [[t]] else regular_loop K t deps ps (length ps - 1))"

definition needs_later_phase :: "kinds \<Rightarrow> string \<Rightarrow> string list \<Rightarrow> bool" where
  "needs_later_phase K t ds \<longleftrightarrow>
     kd_callback K t \<or> list_ex (\<lambda>d. kd_callback K d \<or> \<not> kd_net K d) ds"

text \<open>The loop of \<open>_place_net_task\<close>; a task none of whose dependencies is in a phase would not be
  placed.\<close>

fun net_loop :: "kinds \<Rightarrow> string \<Rightarrow> string list \<Rightarrow> phases \<Rightarrow> nat \<Rightarrow> phases" where
  "net_loop K t deps ps i =
     (if deps_in_phase (ps ! i) deps \<noteq> [] then
        (if needs_later_phase K t (deps_in_phase (ps ! i) deps) then
           (if Suc i = length ps then ps @ [[t]]
            else if any_net K (ps ! Suc i) then add_to_phase (Suc i) t ps
            else insert_phase (Suc i) [t] ps)
         else add_to_phase 0 t ps)
      else case i of 0 \<Rightarrow> ps | Suc j \<Rightarrow> net_loop K t deps ps j)"

definition net_deps :: "kinds \<Rightarrow> string list \<Rightarrow> string list" where
  "net_deps K deps = filter (\<lambda>d. \<not> kd_disk K d) deps"

definition place_net_task :: "kinds \<Rightarrow> phases \<Rightarrow> string \<Rightarrow> string list \<Rightarrow> phases" where
  "place_net_task K ps t deps =
     (if ps = [] then [[t]]
      else if deps = [] then
        (if list_all (kd_net K) (ps ! 0) then add_to_phase 0 t ps else insert_phase 0 [t] ps)
      else net_loop K t deps ps (length ps - 1))"

text \<open>A task of the network loses its dependencies on disks, in the graph itself.\<close>

definition compact_task :: "kinds \<Rightarrow> string \<Rightarrow> phases \<times> graph \<Rightarrow> phases \<times> graph" where
  "compact_task K t st =
     (case st of (ps, g) \<Rightarrow>
        if kd_net K t then
          (let deps = net_deps K (successors g t)
           in (place_net_task K ps t deps, AList.update t deps g))
        else (place_regular_task K ps t (successors g t), g))"

definition layer_order :: "kinds \<Rightarrow> string list \<Rightarrow> string list" where
  "layer_order K layer =
     filter (kd_net K) layer @ filter (\<lambda>t. \<not> kd_net K t \<and> kd_callback K t) layer @
     filter (\<lambda>t. \<not> kd_net K t \<and> \<not> kd_callback K t) layer"

definition compact_phases :: "kinds \<Rightarrow> phases \<Rightarrow> graph \<Rightarrow> phases \<times> graph" where
  "compact_phases K layers g = fold (compact_task K) (concat (map (layer_order K) layers)) ([], g)"

section \<open>Positions\<close>

definition at_phase :: "phases \<Rightarrow> string \<Rightarrow> nat \<Rightarrow> bool" where
  "at_phase ps t i \<longleftrightarrow> i < length ps \<and> t \<in> set (ps ! i)"

lemma at_add_to_phase:
  "k < length ps \<Longrightarrow> at_phase (add_to_phase k t ps) x i \<longleftrightarrow> at_phase ps x i \<or> x = t \<and> i = k"
  by (auto simp: at_phase_def add_to_phase_def nth_list_update)

lemma at_insert_phase:
  assumes "k \<le> length ps"
  shows "at_phase (insert_phase k [t] ps) x i \<longleftrightarrow>
    i < k \<and> at_phase ps x i \<or> i = k \<and> x = t \<or> i > k \<and> at_phase ps x (i - 1)"
proof -
  consider "i < k" | "i = k" | "i > k" by linarith
  then show ?thesis
    using assms by cases (auto simp: at_phase_def insert_phase_def nth_append min_def nth_Cons')
qed

lemma append_is_insert: "ps @ [[t]] = insert_phase (length ps) [t] ps"
  by (simp add: insert_phase_def)

lemma add_after_cases:
  assumes "i < length ps"
  shows "add_after i t ps = (if Suc i = length ps then insert_phase (Suc i) [t] ps else add_to_phase (Suc i) t ps)"
  by (simp add: add_after_def append_is_insert)

lemma mset_add_to_phase: "i < length ps \<Longrightarrow> mset (concat (add_to_phase i t ps)) = add_mset t (mset (concat ps))"
proof (induction ps arbitrary: i)
  case (Cons p ps)
  then show ?case by (cases i) (simp_all add: add_to_phase_def)
qed simp

lemma mset_insert_phase: "mset (concat (insert_phase i [t] ps)) = add_mset t (mset (concat ps))"
proof -
  have "mset (concat (take i ps)) + mset (concat (drop i ps)) = mset (concat ps)"
    by (metis append_take_drop_id concat_append mset_append)
  then show ?thesis by (simp add: insert_phase_def)
qed

lemma at_concat: "(\<exists>i. at_phase ps t i) \<longleftrightarrow> t \<in> set (concat ps)"
proof -
  have "t \<in> set (concat ps) \<longleftrightarrow> (\<exists>p \<in> set ps. t \<in> set p)" by simp
  then show ?thesis unfolding at_phase_def by (metis in_set_conv_nth)
qed

section \<open>The invariant of the placement\<close>

text \<open>\<open>E n\<close> are the dependencies a task is placed by. In an ordered arrangement every dependency of
  a task is in an earlier phase, or in the phase of the task when both are configuration tasks; the
  tasks of the network have their phases to themselves.\<close>

definition before :: "kinds \<Rightarrow> phases \<Rightarrow> string \<Rightarrow> string \<Rightarrow> nat \<Rightarrow> bool" where
  "before K ps d n i \<longleftrightarrow>
     (\<exists>j. at_phase ps d j \<and> (j < i \<or> j = i \<and> \<not> kd_callback K n \<and> \<not> kd_callback K d))"

definition ordered :: "kinds \<Rightarrow> (string \<Rightarrow> string set) \<Rightarrow> phases \<Rightarrow> bool" where
  "ordered K E ps \<longleftrightarrow> (\<forall>n i. at_phase ps n i \<longrightarrow> (\<forall>d \<in> E n. before K ps d n i))"

definition unmixed_net :: "kinds \<Rightarrow> phases \<Rightarrow> bool" where
  "unmixed_net K ps \<longleftrightarrow> (\<forall>i x y. at_phase ps x i \<longrightarrow> at_phase ps y i \<longrightarrow> kd_net K x = kd_net K y)"

text \<open>Why a configuration task outside the network is not in an earlier phase.\<close>

definition held_back :: "kinds \<Rightarrow> (string \<Rightarrow> string set) \<Rightarrow> phases \<Rightarrow> bool" where
  "held_back K E ps \<longleftrightarrow>
     (\<forall>n i. at_phase ps n (Suc i) \<longrightarrow> \<not> kd_net K n \<longrightarrow> \<not> kd_callback K n \<longrightarrow>
        (\<exists>x. at_phase ps x i \<and> (kd_net K x \<or> kd_callback K x \<and> x \<in> E n)))"

definition net_config :: "kinds \<Rightarrow> string \<Rightarrow> bool" where
  "net_config K n \<longleftrightarrow> kd_net K n \<and> \<not> kd_callback K n"

text \<open>A configuration task of the network that depends on such tasks only.\<close>

definition pure_net :: "kinds \<Rightarrow> (string \<Rightarrow> string set) \<Rightarrow> string \<Rightarrow> bool" where
  "pure_net K E n \<longleftrightarrow> net_config K n \<and> (\<forall>d \<in> E n. net_config K d)"

definition pure_first :: "kinds \<Rightarrow> (string \<Rightarrow> string set) \<Rightarrow> phases \<Rightarrow> bool" where
  "pure_first K E ps \<longleftrightarrow> (\<forall>n i. at_phase ps n i \<longrightarrow> pure_net K E n \<longrightarrow> i = 0)"

definition arranged :: "kinds \<Rightarrow> (string \<Rightarrow> string set) \<Rightarrow> phases \<Rightarrow> bool" where
  "arranged K E ps \<longleftrightarrow>
     ordered K E ps \<and> unmixed_net K ps \<and> held_back K E ps \<and> pure_first K E ps \<and> [] \<notin> set ps"

lemmas arranged_defs = ordered_def before_def unmixed_net_def held_back_def pure_first_def

lemma phase_member: "[] \<notin> set ps \<Longrightarrow> i < length ps \<Longrightarrow> \<exists>x. at_phase ps x i"
  unfolding at_phase_def by (metis ex_in_conv nth_mem set_empty)

lemma any_net_phase:
  assumes "i < length ps" and "unmixed_net K ps" and "at_phase ps x i"
  shows "any_net K (ps ! i) \<longleftrightarrow> kd_net K x"
proof -
  have "kd_net K y = kd_net K x" if "y \<in> set (ps ! i)" for y
  proof -
    have "at_phase ps y i" using that assms(1) by (simp add: at_phase_def)
    with assms(2,3) show ?thesis unfolding unmixed_net_def by blast
  qed
  moreover have "x \<in> set (ps ! i)" using assms(3) by (simp add: at_phase_def)
  ultimately show ?thesis unfolding any_net_def list_ex_iff by blast
qed

lemma at_phase_length: "at_phase ps x i \<Longrightarrow> i < length ps"
  by (simp add: at_phase_def)

text \<open>Adding a task at the end of the arrangement of those it depends on: its dependencies are
  before it, no other task is moved past one it depends on.\<close>

lemma arranged_add:
  assumes A: "arranged K E ps" and k: "k < length ps" and new: "\<And>i. \<not> at_phase ps t i"
    and before: "\<And>d. d \<in> E t \<Longrightarrow> before K ps d t k"
    and net: "\<And>x. at_phase ps x k \<Longrightarrow> kd_net K x = kd_net K t"
    and hold: "\<And>i. k = Suc i \<Longrightarrow> \<not> kd_net K t \<Longrightarrow> \<not> kd_callback K t \<Longrightarrow>
      \<exists>x. at_phase ps x i \<and> (kd_net K x \<or> kd_callback K x \<and> x \<in> E t)"
    and pure: "pure_net K E t \<Longrightarrow> k = 0"
  shows "arranged K E (add_to_phase k t ps)"
proof -
  note at = at_add_to_phase [OF k]
  have "ordered K E (add_to_phase k t ps)" unfolding ordered_def
  proof (intro allI impI ballI)
    fix n i d assume n: "at_phase (add_to_phase k t ps) n i" and d: "d \<in> E n"
    have "before K ps d n i"
    proof (cases "at_phase ps n i")
      case True
      with A d show ?thesis by (simp add: arranged_def ordered_def)
    next
      case False
      with n d before show ?thesis by (simp add: at)
    qed
    then show "before K (add_to_phase k t ps) d n i" unfolding before_def at by blast
  qed
  moreover have "unmixed_net K (add_to_phase k t ps)"
    using A net unfolding arranged_def unmixed_net_def at by metis
  moreover have "held_back K E (add_to_phase k t ps)"
    unfolding held_back_def
  proof (intro allI impI)
    fix n i assume n: "at_phase (add_to_phase k t ps) n (Suc i)" "\<not> kd_net K n" "\<not> kd_callback K n"
    have "\<exists>x. at_phase ps x i \<and> (kd_net K x \<or> kd_callback K x \<and> x \<in> E n)"
    proof (cases "at_phase ps n (Suc i)")
      case True
      with A n show ?thesis by (simp add: arranged_def held_back_def)
    next
      case False
      with n hold [of i] show ?thesis by (auto simp: at)
    qed
    then show "\<exists>x. at_phase (add_to_phase k t ps) x i \<and> (kd_net K x \<or> kd_callback K x \<and> x \<in> E n)"
      unfolding at by blast
  qed
  moreover have "pure_first K E (add_to_phase k t ps)"
    using A pure unfolding arranged_def pure_first_def at by blast
  moreover have "[] \<notin> set (add_to_phase k t ps)"
    using A by (auto simp: arranged_def add_to_phase_def dest!: set_update_subset_insert [THEN subsetD])
  ultimately show ?thesis by (simp add: arranged_def)
qed

text \<open>A phase of its own for a task, after those of its dependencies.\<close>

lemma arranged_insert:
  assumes A: "arranged K E ps" and k: "k \<le> length ps"
    and before: "\<And>d. d \<in> E t \<Longrightarrow> \<exists>j < k. at_phase ps d j"
    and net: "kd_net K t \<or> k = length ps"
    and hold: "\<And>i. k = Suc i \<Longrightarrow> \<not> kd_net K t \<Longrightarrow> \<not> kd_callback K t \<Longrightarrow>
      \<exists>x. at_phase ps x i \<and> (kd_net K x \<or> kd_callback K x \<and> x \<in> E t)"
    and pure: "pure_net K E t \<Longrightarrow> k = 0" and first: "\<And>n i. k = 0 \<Longrightarrow> at_phase ps n i \<Longrightarrow> \<not> pure_net K E n"
  shows "arranged K E (insert_phase k [t] ps)"
proof -
  let ?new = "\<lambda>i. if i < k then i else Suc i"
  note at = at_insert_phase [OF k]
  have moved: "at_phase (insert_phase k [t] ps) x (?new i) \<longleftrightarrow> at_phase ps x i" for x i
    by (simp add: at)
  have old: "n = t \<and> i = k \<or> (\<exists>j. at_phase ps n j \<and> i = ?new j)" if "at_phase (insert_phase k [t] ps) n i" for n i
  proof -
    consider "i < k" | "i = k" | "i > k" by linarith
    then show ?thesis
    proof cases
      case 1
      with that show ?thesis by (auto simp: at intro!: exI [of _ i])
    next
      case 3
      with that show ?thesis by (auto simp: at intro!: exI [of _ "i - 1"])
    qed (use that in \<open>simp add: at\<close>)
  qed
  have "ordered K E (insert_phase k [t] ps)" unfolding ordered_def
  proof (intro allI impI ballI)
    fix n i d assume n: "at_phase (insert_phase k [t] ps) n i" and d: "d \<in> E n"
    from old [OF n] show "before K (insert_phase k [t] ps) d n i"
    proof
      assume "n = t \<and> i = k"
      with before d obtain j where "j < k" "at_phase ps d j" by blast
      with moved [of d j] \<open>n = t \<and> i = k\<close> show ?thesis by (auto simp: before_def)
    next
      assume "\<exists>j. at_phase ps n j \<and> i = ?new j"
      then obtain j where j: "at_phase ps n j" "i = ?new j" by blast
      with A d have "before K ps d n j" by (simp add: arranged_def ordered_def)
      then obtain l where "at_phase ps d l" "l < j \<or> l = j \<and> \<not> kd_callback K n \<and> \<not> kd_callback K d"
        by (auto simp: before_def)
      with moved [of d l] j(2) show ?thesis by (auto simp: before_def split: if_split_asm)
    qed
  qed
  moreover have "unmixed_net K (insert_phase k [t] ps)" unfolding unmixed_net_def
  proof (intro allI impI)
    fix i x y assume "at_phase (insert_phase k [t] ps) x i" "at_phase (insert_phase k [t] ps) y i"
    with A show "kd_net K x = kd_net K y" unfolding at arranged_def unmixed_net_def by (metis less_irrefl less_asym)
  qed
  moreover have "held_back K E (insert_phase k [t] ps)" unfolding held_back_def
  proof (intro allI impI)
    fix n i assume n: "at_phase (insert_phase k [t] ps) n (Suc i)" "\<not> kd_net K n" "\<not> kd_callback K n"
    consider "n = t" "Suc i = k" | j where "at_phase ps n j" "Suc i = ?new j" using old [OF n(1)] by blast
    then show "\<exists>x. at_phase (insert_phase k [t] ps) x i \<and> (kd_net K x \<or> kd_callback K x \<and> x \<in> E n)"
    proof cases
      case 1
      with hold [of i] n(2,3) show ?thesis by (auto simp: at)
    next
      case (2 j)
      show ?thesis
      proof (cases "j = k")
        case True
        with 2 k at_phase_length [OF 2(1)] net have "i = k" "kd_net K t" by auto
        then show ?thesis by (auto simp: at)
      next
        case False
        with 2 have "j \<noteq> 0" by (auto split: if_split_asm)
        then obtain l where l: "j = Suc l" by (cases j) auto
        with A 2(1) n obtain x where x: "at_phase ps x l" "kd_net K x \<or> kd_callback K x \<and> x \<in> E n"
          unfolding arranged_def held_back_def by blast
        have "i = ?new l" using 2(2) False l by (auto split: if_split_asm)
        with moved [of x l] x show ?thesis by blast
      qed
    qed
  qed
  moreover have "pure_first K E (insert_phase k [t] ps)" unfolding pure_first_def
  proof (intro allI impI)
    fix n i assume n: "at_phase (insert_phase k [t] ps) n i" "pure_net K E n"
    from old [OF n(1)] show "i = 0"
    proof
      assume "\<exists>j. at_phase ps n j \<and> i = ?new j"
      then obtain j where j: "at_phase ps n j" "i = ?new j" by blast
      with A n(2) have "j = 0" by (simp add: arranged_def pure_first_def)
      moreover have "k \<noteq> 0" using first j(1) n(2) by blast
      ultimately show ?thesis using j(2) by simp
    qed (use n(2) pure in blast)
  qed
  moreover have "[] \<notin> set (insert_phase k [t] ps)"
    using A by (auto simp: arranged_def insert_phase_def dest: in_set_takeD in_set_dropD)
  ultimately show ?thesis by (simp add: arranged_def)
qed

section \<open>Regular tasks\<close>

declare regular_loop.simps [simp del] net_loop.simps [simp del]

definition stops :: "kinds \<Rightarrow> string \<Rightarrow> string list \<Rightarrow> string list \<Rightarrow> bool" where
  "stops K t deps phase \<longleftrightarrow> any_net K phase \<or> separated K t deps phase"

lemma regular_loop_cases:
  "(\<exists>s \<le> i. stops K t deps (ps ! s) \<and> (\<forall>j. s < j \<and> j \<le> i \<longrightarrow> \<not> stops K t deps (ps ! j)) \<and>
      regular_loop K t deps ps i = add_after s t ps) \<or>
   (\<forall>j \<le> i. \<not> stops K t deps (ps ! j)) \<and> regular_loop K t deps ps i = add_to_phase 0 t ps"
proof (induction i)
  case 0
  then show ?case by (auto simp: regular_loop.simps stops_def)
next
  case (Suc i)
  show ?case
  proof (cases "stops K t deps (ps ! Suc i)")
    case True
    then have "regular_loop K t deps ps (Suc i) = add_after (Suc i) t ps"
      by (subst regular_loop.simps) (auto simp: stops_def)
    with True show ?thesis by auto
  next
    case False
    then have "regular_loop K t deps ps (Suc i) = regular_loop K t deps ps i"
      by (subst regular_loop.simps) (simp add: stops_def)
    with Suc.IH False show ?thesis by (metis le_Suc_eq)
  qed
qed

lemma in_deps_in_phase:
  "i < length ps \<Longrightarrow> d \<in> set (deps_in_phase (ps ! i) deps) \<longleftrightarrow> at_phase ps d i \<and> d \<in> set deps"
  by (auto simp: deps_in_phase_def at_phase_def)

lemma separated_phase:
  assumes "i < length ps"
  shows "separated K t deps (ps ! i) \<longleftrightarrow>
    (\<exists>d \<in> set deps. at_phase ps d i \<and> (kd_callback K t \<or> kd_callback K d))"
proof -
  have "deps_in_phase (ps ! i) deps \<noteq> [] \<longleftrightarrow> (\<exists>d \<in> set deps. at_phase ps d i)"
    using in_deps_in_phase [OF assms] by (metis ex_in_conv set_empty)
  moreover have "list_ex (kd_callback K) (deps_in_phase (ps ! i) deps) \<longleftrightarrow>
      (\<exists>d \<in> set deps. at_phase ps d i \<and> kd_callback K d)"
    using in_deps_in_phase [OF assms] by (auto simp: list_ex_iff)
  ultimately show ?thesis unfolding separated_def by blast
qed

text \<open>Where the loop ends up, the dependencies of the task are before it: a dependency in a later
  phase would be held back by a phase the loop had stopped at.\<close>

lemma regular_before:
  assumes A: "arranged K E ps" and t: "\<not> kd_net K t" "E t = set deps"
    and placed: "\<And>d. d \<in> set deps \<Longrightarrow> \<exists>k. at_phase ps d k"
    and trans: "\<And>c d. d \<in> set deps \<Longrightarrow> \<not> kd_net K d \<Longrightarrow> c \<in> E d \<Longrightarrow> c \<in> set deps"
    and free: "\<And>j. s \<le> j \<Longrightarrow> j < length ps \<Longrightarrow> \<not> stops K t deps (ps ! j)"
    and d: "d \<in> set deps"
  shows "before K ps d t s"
proof -
  obtain k where k: "at_phase ps d k" using placed [OF d] by blast
  show ?thesis
  proof (cases "k < s")
    case True
    with k show ?thesis by (auto simp: before_def)
  next
    case False
    then have "\<not> stops K t deps (ps ! k)" using free at_phase_length [OF k] by simp
    then have nd: "\<not> kd_net K d" "\<not> kd_callback K t" "\<not> kd_callback K d"
      using separated_phase [OF at_phase_length [OF k]] k d A any_net_phase [OF at_phase_length [OF k] _ k]
      by (auto simp: stops_def arranged_def)
    have "k = s"
    proof (rule ccontr)
      assume "k \<noteq> s"
      then obtain l where l: "k = Suc l" "s \<le> l" using False by (cases k) auto
      with A k nd(1,3) obtain x where x: "at_phase ps x l" "kd_net K x \<or> kd_callback K x \<and> x \<in> E d"
        unfolding arranged_def held_back_def by blast
      have "stops K t deps (ps ! l)"
      proof (cases "kd_net K x")
        case True
        with any_net_phase [OF at_phase_length [OF x(1)] _ x(1)] A show ?thesis
          by (simp add: stops_def arranged_def)
      next
        case False
        with x trans [OF d nd(1)] have "x \<in> set deps" "kd_callback K x" by blast+
        with x(1) show ?thesis by (auto simp: stops_def separated_phase [OF at_phase_length [OF x(1)]])
      qed
      with free [OF l(2)] at_phase_length [OF x(1)] show False by blast
    qed
    with k nd show ?thesis by (auto simp: before_def)
  qed
qed

lemma arranged_Nil: "arranged K E []"
  by (simp add: arranged_defs arranged_def at_phase_def)

lemma stop_cause:
  assumes "stops K t deps (ps ! i)" and "i < length ps" and "\<not> kd_callback K t"
  shows "\<exists>x. at_phase ps x i \<and> (kd_net K x \<or> kd_callback K x \<and> x \<in> set deps)"
proof (cases "any_net K (ps ! i)")
  case True
  with assms(2) show ?thesis by (auto simp: any_net_def list_ex_iff at_phase_def)
next
  case False
  with assms show ?thesis by (auto simp: stops_def separated_phase)
qed

lemma free_phase_net:
  assumes "\<not> stops K t deps (ps ! i)" and "at_phase ps x i"
  shows "\<not> kd_net K x"
  using assms by (auto simp: stops_def any_net_def list_ex_iff at_phase_def)

lemma place_regular_arranged:
  assumes A: "arranged K E ps" and t: "\<not> kd_net K t" "E t = set deps"
    and new: "\<And>i. \<not> at_phase ps t i" and placed: "\<And>d. d \<in> set deps \<Longrightarrow> \<exists>k. at_phase ps d k"
    and trans: "\<And>c d. d \<in> set deps \<Longrightarrow> \<not> kd_net K d \<Longrightarrow> c \<in> E d \<Longrightarrow> c \<in> set deps"
  shows "arranged K E (place_regular_task K ps t deps) \<and>
    mset (concat (place_regular_task K ps t deps)) = add_mset t (mset (concat ps))"
proof (cases "ps = []")
  case True
  with placed have "deps = []" by (cases deps) (auto simp: at_phase_def)
  with arranged_insert [OF arranged_Nil, of 0 E t K] t True show ?thesis
    by (simp add: place_regular_task_def insert_phase_def at_phase_def)
next
  case False
  let ?ps = "place_regular_task K ps t deps" and ?l = "length ps - 1"
  have before: "before K ps d t s"
    if "\<And>j. s \<le> j \<Longrightarrow> j < length ps \<Longrightarrow> \<not> stops K t deps (ps ! j)" "d \<in> E t" for s d
    using that t(2) by (intro regular_before [OF A t placed trans]) auto
  have l: "j \<le> ?l \<longleftrightarrow> j < length ps" for j using False by (cases ps) auto
  from regular_loop_cases [of ?l K t deps ps] show ?thesis
  proof
    assume "\<exists>s \<le> ?l. stops K t deps (ps ! s) \<and> (\<forall>j. s < j \<and> j \<le> ?l \<longrightarrow> \<not> stops K t deps (ps ! j)) \<and>
      regular_loop K t deps ps ?l = add_after s t ps"
    then obtain s where s: "s < length ps" "stops K t deps (ps ! s)"
      and free: "\<And>j. Suc s \<le> j \<Longrightarrow> j < length ps \<Longrightarrow> \<not> stops K t deps (ps ! j)"
      and res: "?ps = add_after s t ps" using False l by (auto simp: place_regular_task_def)
    have hold: "\<exists>x. at_phase ps x i \<and> (kd_net K x \<or> kd_callback K x \<and> x \<in> E t)"
      if "Suc s = Suc i" "\<not> kd_callback K t" for i
      using stop_cause [OF s(2,1)] that t(2) by simp
    have b: "before K ps d t (Suc s)" if "d \<in> E t" for d
      by (rule before [OF free that])
    show ?thesis
    proof (cases "Suc s = length ps")
      case True
      have "\<exists>j < Suc s. at_phase ps d j" if "d \<in> E t" for d
        using b [OF that] True at_phase_length by (fastforce simp: before_def)
      then have "arranged K E (insert_phase (Suc s) [t] ps)"
        using A True hold t(1) by (intro arranged_insert) (auto simp: pure_net_def net_config_def)
      with res True s(1) show ?thesis by (simp add: add_after_cases mset_insert_phase)
    next
      case False
      with s(1) have k: "Suc s < length ps" by simp
      have "arranged K E (add_to_phase (Suc s) t ps)"
      proof (rule arranged_add [OF A k new b])
        show "kd_net K x = kd_net K t" if "at_phase ps x (Suc s)" for x
          using free_phase_net [OF free [OF order_refl k] that] t(1) by simp
      qed (use hold t(1) in \<open>auto simp: pure_net_def net_config_def\<close>)
      with res False s(1) k show ?thesis by (simp add: add_after_cases mset_add_to_phase)
    qed
  next
    assume "(\<forall>j \<le> ?l. \<not> stops K t deps (ps ! j)) \<and> regular_loop K t deps ps ?l = add_to_phase 0 t ps"
    then have free: "\<And>j. 0 \<le> j \<Longrightarrow> j < length ps \<Longrightarrow> \<not> stops K t deps (ps ! j)"
      and res: "?ps = add_to_phase 0 t ps" using False l by (auto simp: place_regular_task_def)
    have k: "0 < length ps" using False by simp
    have "arranged K E (add_to_phase 0 t ps)"
    proof (rule arranged_add [OF A k new])
      show "before K ps d t 0" if "d \<in> E t" for d by (rule before [OF free that])
      show "kd_net K x = kd_net K t" if "at_phase ps x 0" for x
        using free_phase_net [OF free [OF order_refl k] that] t(1) by simp
    qed (use t(1) in \<open>auto simp: pure_net_def net_config_def\<close>)
    with res k show ?thesis by (simp add: mset_add_to_phase)
  qed
qed

section \<open>Tasks of the network\<close>

definition net_place :: "kinds \<Rightarrow> string \<Rightarrow> string list \<Rightarrow> phases \<Rightarrow> nat \<Rightarrow> phases" where
  "net_place K t deps ps s =
     (if needs_later_phase K t (deps_in_phase (ps ! s) deps) then
        (if Suc s \<noteq> length ps \<and> any_net K (ps ! Suc s) then add_to_phase (Suc s) t ps
         else insert_phase (Suc s) [t] ps)
      else add_to_phase 0 t ps)"

lemma net_loop_place:
  "net_loop K t deps ps i =
    (if deps_in_phase (ps ! i) deps \<noteq> [] then net_place K t deps ps i
     else case i of 0 \<Rightarrow> ps | Suc j \<Rightarrow> net_loop K t deps ps j)"
  by (subst net_loop.simps) (simp add: net_place_def append_is_insert)

lemma net_loop_cases:
  assumes "j \<le> i" and "deps_in_phase (ps ! j) deps \<noteq> []"
  shows "\<exists>s \<le> i. deps_in_phase (ps ! s) deps \<noteq> [] \<and> (\<forall>j. s < j \<and> j \<le> i \<longrightarrow> deps_in_phase (ps ! j) deps = []) \<and>
    net_loop K t deps ps i = net_place K t deps ps s"
  using assms(1)
proof (induction i)
  case 0
  with assms(2) show ?case by (auto simp: net_loop_place)
next
  case (Suc i)
  show ?case
  proof (cases "deps_in_phase (ps ! Suc i) deps = []")
    case True
    have "j \<le> i" using Suc.prems True assms(2) by (metis le_SucE)
    with Suc.IH obtain s where "s \<le> i" "deps_in_phase (ps ! s) deps \<noteq> []"
      "\<forall>j. s < j \<and> j \<le> i \<longrightarrow> deps_in_phase (ps ! j) deps = []" "net_loop K t deps ps i = net_place K t deps ps s"
      by blast
    with True show ?thesis
      by (intro exI [of _ s]) (auto simp: net_loop_place [of K t deps ps "Suc i"] le_Suc_eq)
  next
    case False
    then show ?thesis by (intro exI [of _ "Suc i"]) (auto simp: net_loop_place)
  qed
qed

text \<open>A configuration task of the network may only depend on such tasks alone, or on none of them:
  otherwise it can be put into the first phase although a dependency is in a later one.\<close>

definition net_uniform :: "kinds \<Rightarrow> (string \<Rightarrow> string set) \<Rightarrow> string \<Rightarrow> bool" where
  "net_uniform K E t \<longleftrightarrow> pure_net K E t \<or> kd_callback K t \<or> (\<forall>d \<in> E t. \<not> net_config K d)"

lemma place_net_arranged:
  assumes A: "arranged K E ps" and t: "kd_net K t" "E t = set deps" "net_uniform K E t"
    and new: "\<And>i. \<not> at_phase ps t i" and placed: "\<And>d. d \<in> set deps \<Longrightarrow> \<exists>k. at_phase ps d k"
    and trans: "\<And>c d. d \<in> set deps \<Longrightarrow> kd_net K d \<Longrightarrow> c \<in> E d \<Longrightarrow> c \<in> set deps"
  shows "arranged K E (place_net_task K ps t deps) \<and>
    mset (concat (place_net_task K ps t deps)) = add_mset t (mset (concat ps))"
proof (cases "deps = []")
  case True
  show ?thesis
  proof (cases "ps \<noteq> [] \<and> list_all (kd_net K) (ps ! 0)")
    case first: True
    then have k: "0 < length ps" by simp
    have "arranged K E (add_to_phase 0 t ps)"
    proof (rule arranged_add [OF A k new])
      show "kd_net K x = kd_net K t" if "at_phase ps x 0" for x
        using that first t(1) by (simp add: at_phase_def list_all_iff)
    qed (use True t in auto)
    with first k True show ?thesis by (simp add: place_net_task_def mset_add_to_phase)
  next
    case False
    have no: "\<not> pure_net K E n" if "at_phase ps n i" for n i
    proof
      assume pure: "pure_net K E n"
      with A that have "at_phase ps n 0" by (auto simp: arranged_def pure_first_def)
      moreover from this obtain x where x: "at_phase ps x 0" "\<not> kd_net K x"
        using False by (auto simp: list_all_iff at_phase_def)
      moreover have "kd_net K n" using pure by (simp add: pure_net_def net_config_def)
      ultimately show False using A unfolding arranged_def unmixed_net_def by blast
    qed
    have "arranged K E (insert_phase 0 [t] ps)"
      by (rule arranged_insert [OF A]) (use True t no in auto)
    moreover have "place_net_task K ps t deps = insert_phase 0 [t] ps"
      using False True by (auto simp: place_net_task_def insert_phase_def)
    ultimately show ?thesis by (simp add: mset_insert_phase)
  qed
next
  case False
  then obtain d0 where "d0 \<in> set deps" by (cases deps) auto
  with placed obtain j0 where j0: "at_phase ps d0 j0" by blast
  then have "ps \<noteq> []" by (auto simp: at_phase_def)
  have "deps_in_phase (ps ! j0) deps \<noteq> []"
    using in_deps_in_phase [OF at_phase_length [OF j0], of d0 deps] j0 \<open>d0 \<in> set deps\<close> by auto
  moreover have "j0 \<le> length ps - 1" using at_phase_length [OF j0] by simp
  ultimately obtain s where s: "s \<le> length ps - 1" "deps_in_phase (ps ! s) deps \<noteq> []"
    "\<forall>j. s < j \<and> j \<le> length ps - 1 \<longrightarrow> deps_in_phase (ps ! j) deps = []"
    and res: "place_net_task K ps t deps = net_place K t deps ps s"
    using net_loop_cases [of j0 "length ps - 1" ps deps K t] False \<open>ps \<noteq> []\<close> by (auto simp: place_net_task_def)
  have l: "s < length ps" using s(1) \<open>ps \<noteq> []\<close> by (cases ps) auto
  from s(2) in_deps_in_phase [OF l] obtain e where e: "at_phase ps e s" "e \<in> set deps"
    by (metis ex_in_conv set_empty)
  have upto: "k \<le> s" if "d \<in> set deps" "at_phase ps d k" for d k
  proof (rule ccontr)
    assume "\<not> k \<le> s"
    with s(3) at_phase_length [OF that(2)] have "deps_in_phase (ps ! k) deps = []" by simp
    with in_deps_in_phase [OF at_phase_length [OF that(2)], of d deps] that show False by simp
  qed
  show ?thesis
  proof (cases "needs_later_phase K t (deps_in_phase (ps ! s) deps)")
    case later: True
    have b: "\<exists>j < Suc s. at_phase ps d j" if "d \<in> E t" for d
      using placed upto that t(2) by (metis le_imp_less_Suc)
    have impure: "\<not> pure_net K E t"
    proof
      assume pure: "pure_net K E t"
      then have "net_config K d" if "d \<in> set (deps_in_phase (ps ! s) deps)" for d
        using that in_deps_in_phase [OF l] t(2) by (auto simp: pure_net_def)
      with later pure show False
        by (auto simp: needs_later_phase_def list_ex_iff pure_net_def net_config_def)
    qed
    show ?thesis
    proof (cases "Suc s \<noteq> length ps \<and> any_net K (ps ! Suc s)")
      case True
      with l have k: "Suc s < length ps" by simp
      have "arranged K E (add_to_phase (Suc s) t ps)"
      proof (rule arranged_add [OF A k new])
        show "before K ps d t (Suc s)" if "d \<in> E t" for d using b [OF that] by (auto simp: before_def)
        show "kd_net K x = kd_net K t" if "at_phase ps x (Suc s)" for x
          using any_net_phase [OF k _ that] A True t(1) by (simp add: arranged_def)
      qed (use t(1) impure in auto)
      with res later True k show ?thesis by (simp add: net_place_def mset_add_to_phase)
    next
      case False
      have first: "\<not> pure_net K E n" if "at_phase ps n i" "Suc s \<le> i" for n i
        using A that unfolding arranged_def pure_first_def by fastforce
      have "arranged K E (insert_phase (Suc s) [t] ps)"
        by (rule arranged_insert [OF A]) (use l t(1) impure first b in auto)
      with res later False show ?thesis by (auto simp: net_place_def mset_insert_phase)
    qed
  next
    case False
    then have nc: "net_config K t" "net_config K e"
      using e in_deps_in_phase [OF l] t(1) by (auto simp: needs_later_phase_def list_ex_iff net_config_def)
    with t e have pure: "pure_net K E t" by (auto simp: net_uniform_def net_config_def)
    have depure: "pure_net K E d" if "d \<in> set deps" for d
      using pure that trans [OF that] t(2) unfolding pure_net_def net_config_def by blast
    have zero: "at_phase ps d 0" if "d \<in> set deps" for d
      using placed [OF that] depure [OF that] A unfolding arranged_def pure_first_def by blast
    have k: "0 < length ps" using \<open>ps \<noteq> []\<close> by simp
    have "arranged K E (add_to_phase 0 t ps)"
    proof (rule arranged_add [OF A k new])
      show "before K ps d t 0" if "d \<in> E t" for d
        using zero pure that t(2) by (auto simp: before_def pure_net_def net_config_def)
      show "kd_net K x = kd_net K t" if "at_phase ps x 0" for x
        using A zero [OF e(2)] that nc unfolding arranged_def unmixed_net_def net_config_def by blast
    qed auto
    with res False k show ?thesis by (simp add: net_place_def mset_add_to_phase)
  qed
qed

section \<open>All the tasks\<close>

text \<open>The dependencies a task is placed by: a task of the network does not wait for disks.\<close>

definition placing :: "kinds \<Rightarrow> graph \<Rightarrow> string \<Rightarrow> string list" where
  "placing K g t = (if kd_net K t then net_deps K (successors g t) else successors g t)"

definition placing_set :: "kinds \<Rightarrow> graph \<Rightarrow> string \<Rightarrow> string set" where
  "placing_set K g t = set (placing K g t)"

definition dependencies_first :: "graph \<Rightarrow> string list \<Rightarrow> bool" where
  "dependencies_first g ts \<longleftrightarrow> (\<forall>xs n ys. ts = xs @ n # ys \<longrightarrow> set (successors g n) \<subseteq> set xs)"

lemma placing_subset: "placing_set K g t \<subseteq> set (successors g t)"
  by (auto simp: placing_set_def placing_def net_deps_def)

lemma edges_transD:
  "trans (edges g) \<Longrightarrow> d \<in> set (successors g t) \<Longrightarrow> c \<in> set (successors g d) \<Longrightarrow> c \<in> set (successors g t)"
  by (metis edges_iff transD)

text \<open>One step: the tasks \<open>ts\<close> have been placed.\<close>

definition compacted :: "kinds \<Rightarrow> graph \<Rightarrow> string list \<Rightarrow> phases \<times> graph \<Rightarrow> bool" where
  "compacted K g ts st \<longleftrightarrow>
     arranged K (placing_set K g) (fst st) \<and> mset (concat (fst st)) = mset ts \<and>
     (\<forall>n. successors (snd st) n = (if n \<in> set ts then placing K g n else successors g n))"

lemma compact_task_compacted:
  assumes g: "trans (edges g)" and c: "compacted K g ts st" and t: "t \<notin> set ts" "set (successors g t) \<subseteq> set ts"
    and u: "kd_net K t \<longrightarrow> net_uniform K (placing_set K g) t"
  shows "compacted K g (ts @ [t]) (compact_task K t st)"
proof -
  obtain ps h where st: "st = (ps, h)" by (cases st)
  let ?E = "placing_set K g"
  from c st have A: "arranged K ?E ps" and m: "mset (concat ps) = mset ts"
    and h: "\<And>n. successors h n = (if n \<in> set ts then placing K g n else successors g n)"
    by (auto simp: compacted_def)
  from m have ms: "set (concat ps) = set ts" by (rule mset_eq_setD)
  have new: "\<not> at_phase ps t i" for i using t(1) ms at_concat [of ps t] by blast
  have placed: "\<exists>k. at_phase ps d k" if "d \<in> set (successors g t)" for d
    using that t(2) ms at_concat [of ps d] by blast
  have ht: "successors h t = successors g t" using h t(1) by simp
  show ?thesis
  proof (cases "kd_net K t")
    case True
    let ?deps = "net_deps K (successors g t)"
    have E: "?E t = set ?deps" using True by (simp add: placing_set_def placing_def)
    have "arranged K ?E (place_net_task K ps t ?deps) \<and>
        mset (concat (place_net_task K ps t ?deps)) = add_mset t (mset (concat ps))"
    proof (rule place_net_arranged [OF A True E _ new])
      show "net_uniform K ?E t" using True u by blast
      show "\<exists>k. at_phase ps d k" if "d \<in> set ?deps" for d
        using that placed unfolding net_deps_def by simp
      fix c d assume cd: "d \<in> set ?deps" "kd_net K d" "c \<in> ?E d"
      then have "c \<in> set (net_deps K (successors g d))" by (simp add: placing_set_def placing_def)
      with cd(1) edges_transD [OF g, of d t c] show "c \<in> set ?deps" by (simp add: net_deps_def)
    qed
    moreover have "compact_task K t st = (place_net_task K ps t ?deps, AList.update t ?deps h)"
      using True by (simp add: compact_task_def st ht Let_def)
    moreover have "successors (AList.update t ?deps h) n = (if n \<in> set (ts @ [t]) then placing K g n else successors g n)" for n
      using h [of n] True by (simp add: placing_def)
    ultimately show ?thesis using m by (simp add: compacted_def)
  next
    case False
    have E: "?E t = set (successors g t)" using False by (simp add: placing_set_def placing_def)
    have "arranged K ?E (place_regular_task K ps t (successors g t)) \<and>
        mset (concat (place_regular_task K ps t (successors g t))) = add_mset t (mset (concat ps))"
    proof (rule place_regular_arranged [OF A False E new placed])
      show "c \<in> set (successors g t)" if "d \<in> set (successors g t)" "c \<in> ?E d" for c d
        using that edges_transD [OF g, of d t c] placing_subset by blast
    qed
    moreover have "compact_task K t st = (place_regular_task K ps t (successors g t), h)"
      using False by (simp add: compact_task_def st ht)
    moreover have "successors h n = (if n \<in> set (ts @ [t]) then placing K g n else successors g n)" for n
      using h [of n] False by (simp add: placing_def)
    ultimately show ?thesis using m by (simp add: compacted_def)
  qed
qed

lemma fold_compacted:
  assumes "trans (edges g)" and "distinct ts" and "dependencies_first g ts"
    and "\<forall>t \<in> set ts. kd_net K t \<longrightarrow> net_uniform K (placing_set K g) t"
  shows "compacted K g ts (fold (compact_task K) ts ([], g))"
  using assms(2-4)
proof (induction ts rule: rev_induct)
  case Nil
  then show ?case by (simp add: compacted_def arranged_Nil)
next
  case (snoc t ts)
  have "dependencies_first g ts" unfolding dependencies_first_def
  proof (intro allI impI)
    fix xs n ys assume "ts = xs @ n # ys"
    then have "ts @ [t] = xs @ n # (ys @ [t])" by simp
    with snoc.prems(2) show "set (successors g n) \<subseteq> set xs" unfolding dependencies_first_def by blast
  qed
  with snoc have "compacted K g ts (fold (compact_task K) ts ([], g))" by simp
  moreover have "set (successors g t) \<subseteq> set ts"
    using snoc.prems(2) unfolding dependencies_first_def by blast
  ultimately show ?case using snoc.prems by (simp add: compact_task_compacted [OF assms(1)])
qed

text \<open>What the generator leaves of the caller's graph: a task does not depend on itself, and every
  node is a key.\<close>

definition topsort_graph :: "graph \<Rightarrow> graph" where
  "topsort_graph g = (if g = [] then g else add_missing_nodes (discard_self g))"

lemma deps_of_successors: 
  assumes "distinct (map fst g)"
  shows "deps_of g n = set (successors g n)"
proof (cases "map_of g n")
  case None
  then have "(n, ds) \<notin> set g" for ds by (force simp: map_of_eq_None_iff)
  with None show ?thesis by (auto simp: deps_of_def successors_def)
next
  case (Some ds)
  with \<open>distinct (map fst g)\<close> show ?thesis
    by (auto simp: deps_of_def successors_def map_of_eq_Some_iff dest: eq_key_imp_eq_value)
qed

lemma layered_before:
  assumes "layered g D ls" and "concat (map f ls) = xs @ n # ys" and "\<And>l. set (f l) = set l"
  shows "deps_of g n \<subseteq> D \<union> set xs"
  using assms(1,2)
proof (induction ls arbitrary: D xs)
  case (Cons l ls)
  show ?case
  proof (cases "length (f l) \<le> length xs")
    case True
    then obtain zs where xs: "xs = f l @ zs" and zs: "concat (map f ls) = zs @ n # ys"
      using Cons.prems(2) by (auto simp: append_eq_append_conv_if dest: sym) (metis append_take_drop_id)
    from Cons.IH [OF _ zs, of "D \<union> set l"] Cons.prems(1) show ?thesis by (auto simp: xs assms(3))
  next
    case False
    have "n \<in> set (f l)"
    proof -
      have "f l ! length xs = (f l @ concat (map f ls)) ! length xs" using False by (simp add: nth_append)
      also have "\<dots> = n" using Cons.prems(2) by simp
      finally show ?thesis using False by (metis not_le_imp_less nth_mem)
    qed
    with Cons.prems(1) show ?thesis by (auto simp: assms(3))
  qed
qed simp

lemma set_layer_order [simp]: "set (layer_order K l) = set l"
  by (auto simp: layer_order_def)

lemma mset_layer_order: "mset (layer_order K l) = mset l"
  by (induction l) (auto simp: layer_order_def)

lemma mset_placing_order: "mset (concat (map (layer_order K) ls)) = mset (concat ls)"
  by (induction ls) (simp_all add: mset_layer_order)

lemma topsort_graph_first:
  assumes "distinct (map fst g)" and "topsort g = (ls, None)"
  shows "dependencies_first (topsort_graph g) (concat (map (layer_order K) ls)) \<and>
    distinct (map fst (topsort_graph g)) \<and> edges (topsort_graph g) = edges g - Id"
proof (cases "g = []")
  case True
  with assms show ?thesis by (auto simp: topsort_def dependencies_first_def topsort_graph_def edges_def successors_def)
next
  case False
  let ?h = "add_missing_nodes (discard_self g)"
  from assms False obtain r where res: "loop_result ?h ls r" by (auto elim: topsort_loop_of)
  have d: "distinct (map fst ?h)" using assms(1) by (auto simp: add_missing_nodes_def nodes_not_in_keys_def o_def)
  have "dependencies_first ?h (concat (map (layer_order K) ls))" unfolding dependencies_first_def
  proof (intro allI impI)
    fix xs n ys assume "concat (map (layer_order K) ls) = xs @ n # ys"
    with layered_before [of ?h "{}" ls "layer_order K" xs n ys] res show "set (successors ?h n) \<subseteq> set xs"
      by (auto simp: loop_result_def deps_of_successors [OF d, symmetric] simp del: deps_of_add_missing)
  qed
  moreover have "edges ?h = edges g - Id"
    using deps_of_successors [OF assms(1)] deps_of_successors [OF d] deps_of_discard_self [of g]
    by (auto simp: edges_def)
  ultimately show ?thesis using d False by (simp add: topsort_graph_def)
qed

lemma topsort_graph_trans:
  assumes "distinct (map fst g)" and "trans (edges g)" and "topsort g = (ls, None)"
  shows "trans (edges (topsort_graph g))"
proof -
  have e: "edges (topsort_graph g) = edges g - Id" using topsort_graph_first assms(1,3) by blast
  have "acyclic (dep_rel g)"
  proof (cases "g = []")
    case True
    then show ?thesis by (simp add: dep_rel_def deps_of_def acyclic_def)
  next
    case False
    obtain r where "loop_result (add_missing_nodes (discard_self g)) ls r" "r = []"
      using topsort_loop_of [OF assms(1,3) False] by (metis option.distinct(1))
    then show ?thesis by (simp add: emptied_acyclic)
  qed
  then have asym: "(b, a) \<notin> edges g" if "(a, b) \<in> edges g" "a \<noteq> b" for a b
    using that deps_of_successors [OF assms(1)]
    by (auto simp: dep_rel_def acyclic_def) (metis (mono_tags, lifting) mem_Collect_eq case_prod_conv trancl.intros)
  show ?thesis
  proof (rule transI)
    fix a b c assume ab: "(a, b) \<in> edges (topsort_graph g)" "(b, c) \<in> edges (topsort_graph g)"
    then have "(a, c) \<in> edges g" using assms(2) unfolding e by (blast dest: transD)
    moreover have "a \<noteq> c" using ab asym unfolding e by blast
    ultimately show "(a, c) \<in> edges (topsort_graph g)" unfolding e by blast
  qed
qed

lemma topsort_distinct:
  assumes "distinct (map fst g)" and "topsort g = (ls, None)"
  shows "distinct (concat ls) \<and> set (concat ls) = nodes_of g"
proof (cases "g = []")
  case True
  with assms show ?thesis by (simp add: topsort_def nodes_of_def)
next
  case False
  obtain r where "loop_result (add_missing_nodes (discard_self g)) ls r" "r = []"
    using topsort_loop_of [OF assms False] by (metis option.distinct(1))
  then show ?thesis by (simp add: loop_result_def keys_add_missing nodes_of_discard_self)
qed

lemma compact_phases_compacted:
  assumes "distinct (map fst g)" and "trans (edges g)" and "topsort g = (ls, None)"
    and "compact_phases K ls (topsort_graph g) = st"
    and "\<forall>t \<in> set (concat ls). kd_net K t \<longrightarrow> net_uniform K (placing_set K (topsort_graph g)) t"
  shows "compacted K (topsort_graph g) (concat (map (layer_order K) ls)) st"
proof -
  let ?g = "topsort_graph g" and ?ts = "concat (map (layer_order K) ls)"
  have m: "mset ?ts = mset (concat ls)" by (rule mset_placing_order)
  have "distinct (concat ls)" using topsort_distinct assms(1,3) by blast
  with m have "distinct ?ts" by (metis mset_eq_imp_distinct_iff)
  moreover have "set ?ts = set (concat ls)" using m by (rule mset_eq_setD)
  ultimately show ?thesis
    using fold_compacted [of ?g ?ts K] topsort_graph_first [OF assms(1,3), of K]
      topsort_graph_trans [OF assms(1-3)] assms(4,5) by (simp add: compact_phases_def)
qed

text \<open>The tasks, and what a compacted arrangement says of their dependencies.\<close>

lemma compacted_before:
  assumes "compacted K g (concat (map (layer_order K) ls)) (ps, h)"
  shows "mset (concat ps) = mset (concat ls)" and "[] \<notin> set ps" and "unmixed_net K ps"
    and "n \<in> set (concat ps) \<Longrightarrow> successors h n = placing K g n"
    and "at_phase ps n i \<Longrightarrow> d \<in> set (successors h n) \<Longrightarrow> before K ps d n i"
proof -
  let ?ts = "concat (map (layer_order K) ls)"
  have m: "mset (concat ps) = mset ?ts" using assms by (simp add: compacted_def)
  then have set: "set (concat ps) = set ?ts" by (rule mset_eq_setD)
  show "mset (concat ps) = mset (concat ls)" using m by (simp only: mset_placing_order)
  show "[] \<notin> set ps" "unmixed_net K ps" using assms by (simp_all add: compacted_def arranged_def)
  show succ: "successors h n = placing K g n" if "n \<in> set (concat ps)" for n
    using assms that unfolding compacted_def set by simp
  assume n: "at_phase ps n i" "d \<in> set (successors h n)"
  then have "n \<in> set (concat ps)" using at_concat [of ps n] by blast
  from succ [OF this] n(2) have "d \<in> placing_set K g n" by (simp add: placing_set_def)
  with assms n(1) show "before K ps d n i" by (auto simp: compacted_def arranged_def ordered_def)
qed

text \<open>When the configuration tasks of the network depend on such tasks only, or on none of
  them, the compacted phases hold every task once, no phase is empty or mixes tasks of the network
  with others, and every task comes after those it depends on, or shares a phase with them when
  both are configuration tasks.\<close>

theorem compact_phases_ordered:
  assumes "distinct (map fst g)" and "trans (edges g)" and "topsort g = (ls, None)"
    and "compact_phases K ls (topsort_graph g) = (ps, h)"
    and "\<forall>t \<in> set (concat ls). kd_net K t \<longrightarrow> net_uniform K (placing_set K (topsort_graph g)) t"
  shows "mset (concat ps) = mset (concat ls) \<and> [] \<notin> set ps \<and> unmixed_net K ps \<and>
    (\<forall>n i d. at_phase ps n i \<longrightarrow> d \<in> set (successors h n) \<longrightarrow> before K ps d n i)"
  using compacted_before [OF compact_phases_compacted [OF assms]] by blast

text \<open>A callback task, and a task of the network that depends on it.\<close>

definition sample_kinds :: kinds where
  "sample_kinds = \<lparr>kd_net = (\<lambda>t. t \<in> {''a'', ''c''}), kd_callback = (\<lambda>t. t = ''b''),
     kd_config = (\<lambda>t. t \<noteq> ''b''), kd_disk = (\<lambda>t. False)\<rparr>"

theorem compact_phases_ordered_witness:
  "\<exists>ps h. compact_phases sample_kinds [[''b''], [''a'']] [(''a'', [''b'']), (''b'', [])] = (ps, h) \<and>
    mset (concat ps) = {#''a'', ''b''#} \<and> [] \<notin> set ps \<and> unmixed_net sample_kinds ps \<and>
    (\<forall>n i d. at_phase ps n i \<longrightarrow> d \<in> set (successors h n) \<longrightarrow> before sample_kinds ps d n i)"
proof -
  let ?g = "[(''a'', [''b'']), (''b'', [])]"
  have g: "topsort_graph ?g = ?g" by code_simp
  have t: "topsort ?g = ([[''b''], [''a'']], None)" by code_simp
  have "edges ?g = {(''a'', ''b'')}" by (auto simp: edges_def successors_def split: if_splits)
  then have tr: "trans (edges ?g)" by (simp add: trans_def)
  have u: "\<forall>t \<in> set (concat [[''b''], [''a'']]). kd_net sample_kinds t \<longrightarrow>
      net_uniform sample_kinds (placing_set sample_kinds (topsort_graph ?g)) t"
    unfolding g by code_simp
  obtain ps h where c: "compact_phases sample_kinds [[''b''], [''a'']] ?g = (ps, h)" by fastforce
  have "compact_phases sample_kinds [[''b''], [''a'']] (topsort_graph ?g) = (ps, h)" by (simp only: g c)
  note r = compact_phases_ordered [OF _ tr t this u]
  have "mset (concat ps) = mset (concat [[''b''], [''a'']])" by (rule r [THEN conjunct1]) simp
  then have "mset (concat ps) = {#''a'', ''b''#}" by simp
  moreover have "[] \<notin> set ps \<and> unmixed_net sample_kinds ps \<and>
    (\<forall>n i d. at_phase ps n i \<longrightarrow> d \<in> set (successors h n) \<longrightarrow> before sample_kinds ps d n i)"
    by (rule r [THEN conjunct2]) simp
  ultimately show ?thesis using c by blast
qed

text \<open>Without the condition on the tasks of the network a task can come before one it depends on:
  \<open>c\<close> depends on \<open>a\<close> and \<open>b\<close>, and \<open>a\<close> on \<open>b\<close>; \<open>b\<close> is an ordinary configuration task. \<open>c\<close> joins
  \<open>b\<close> in the first phase, before \<open>a\<close>, in a phase that mixes the network with other tasks.\<close>

lemma net_task_misplaced:
  "fst (compact_phases (sample_kinds\<lparr>kd_callback := (\<lambda>t. False)\<rparr>) [[''b''], [''a''], [''c'']]
     [(''a'', [''b'']), (''b'', []), (''c'', [''a'', ''b''])]) = [[''b'', ''c''], [''a'']]"
  by code_simp

end
