(* ===== verification/Py_Sort.thy ===== *)
theory Py_Sort
  imports Prelude "HOL-Library.Multiset"
begin

text \<open>
  Python's \<open>list.sort\<close> with a comparison function, for the lists of less than 64 elements it sorts
  without merging: it takes the longest run that is already ascending, or strictly descending and
  then reversed, and puts each other element into it by binary search. A comparison that is not an
  order gives what this procedure gives; one that is gives the sorted list.
\<close>

section \<open>The procedure\<close>

fun take_run :: "('a \<Rightarrow> 'a \<Rightarrow> bool) \<Rightarrow> 'a \<Rightarrow> 'a list \<Rightarrow> 'a list \<times> 'a list" where
  "take_run ok x [] = ([x], [])"
| "take_run ok x (y # ys) =
     (if ok x y then (case take_run ok y ys of (r, s) \<Rightarrow> (x # r, s)) else ([x], y # ys))"

fun first_run :: "('a \<Rightarrow> 'a \<Rightarrow> bool) \<Rightarrow> 'a list \<Rightarrow> 'a list \<times> 'a list" where
  "first_run lt [] = ([], [])"
| "first_run lt [x] = ([x], [])"
| "first_run lt (x # y # ys) =
     (if lt y x then (case take_run (\<lambda>a b. lt b a) x (y # ys) of (r, s) \<Rightarrow> (rev r, s))
      else take_run (\<lambda>a b. \<not> lt b a) x (y # ys))"

function bin_pos :: "('a \<Rightarrow> 'a \<Rightarrow> bool) \<Rightarrow> 'a \<Rightarrow> 'a list \<Rightarrow> nat \<Rightarrow> nat \<Rightarrow> nat" where
  "bin_pos lt x xs l r =
     (if l < r then
        (let p = l + (r - l) div 2 in if lt x (xs ! p) then bin_pos lt x xs l p else bin_pos lt x xs (Suc p) r)
      else l)"
  by pat_completeness auto
termination by (relation "measure (\<lambda>(lt, x, xs, l, r). r - l)") auto

declare bin_pos.simps [simp del]

definition bin_insert :: "('a \<Rightarrow> 'a \<Rightarrow> bool) \<Rightarrow> 'a \<Rightarrow> 'a list \<Rightarrow> 'a list" where
  "bin_insert lt x xs = (let k = bin_pos lt x xs 0 (length xs) in take k xs @ x # drop k xs)"

definition list_sort :: "('a \<Rightarrow> 'a \<Rightarrow> bool) \<Rightarrow> 'a list \<Rightarrow> 'a list" where
  "list_sort lt xs = (case first_run lt xs of (r, s) \<Rightarrow> fold (bin_insert lt) s r)"

section \<open>It permutes the list\<close>

lemma take_run_append: "take_run ok x xs = (r, s) \<Longrightarrow> r @ s = x # xs"
  by (induction ok x xs arbitrary: r s rule: take_run.induct) (auto split: if_splits prod.splits)

lemma mset_take_run: "take_run ok x xs = (r, s) \<Longrightarrow> mset r + mset s = add_mset x (mset xs)"
  by (drule take_run_append) (metis mset.simps(2) mset_append)

lemma mset_first_run: "first_run lt xs = (r, s) \<Longrightarrow> mset r + mset s = mset xs"
  by (cases "(lt, xs)" rule: first_run.cases)
    (auto simp del: take_run.simps dest: mset_take_run split: if_splits prod.splits)

lemma mset_bin_insert [simp]: "mset (bin_insert lt x xs) = add_mset x (mset xs)"
proof -
  have "mset (take k xs) + mset (drop k xs) = mset xs" for k by (metis append_take_drop_id mset_append)
  then show ?thesis by (simp add: bin_insert_def Let_def)
qed

lemma mset_fold_insert: "mset (fold (bin_insert lt) s r) = mset s + mset r"
  by (induction s arbitrary: r) simp_all

lemma mset_list_sort [simp]: "mset (list_sort lt xs) = mset xs"
  by (cases "first_run lt xs") (simp add: list_sort_def mset_fold_insert mset_first_run add.commute)

lemma set_list_sort [simp]: "set (list_sort lt xs) = set xs"
  by (metis mset_list_sort set_mset_mset)

section \<open>It sorts the list by a consistent comparison\<close>

definition compares :: "('a \<Rightarrow> 'a \<Rightarrow> bool) \<Rightarrow> ('a \<Rightarrow> 'b::linorder) \<Rightarrow> 'a set \<Rightarrow> bool" where
  "compares lt f A \<longleftrightarrow> (\<forall>x \<in> A. \<forall>y \<in> A. lt x y \<longleftrightarrow> f x < f y)"

lemma comparesD: "compares lt f A \<Longrightarrow> x \<in> A \<Longrightarrow> y \<in> A \<Longrightarrow> lt x y \<longleftrightarrow> f x < f y"
  by (simp add: compares_def)

lemma take_run_sorted:
  assumes "transp R"
  shows "take_run ok x xs = (r, s) \<Longrightarrow> (\<And>a b. a \<in> set (x # xs) \<Longrightarrow> b \<in> set (x # xs) \<Longrightarrow> ok a b \<Longrightarrow> R a b) \<Longrightarrow>
    sorted_wrt R r \<and> r \<noteq> [] \<and> hd r = x"
proof (induction ok x xs arbitrary: r s rule: take_run.induct)
  case (2 ok x y ys)
  show ?case
  proof (cases "ok x y")
    case True
    then obtain r' where r: "take_run ok y ys = (r', s)" "r = x # r'"
      using "2.prems"(1) by (auto split: prod.splits)
    with 2 True have IH: "sorted_wrt R r' \<and> r' \<noteq> [] \<and> hd r' = y" by simp
    moreover have "R x y" using "2.prems"(2) [of x y] True by simp
    ultimately show ?thesis using \<open>transp R\<close> by (cases r') (auto simp: r(2) dest: transpD)
  qed (use 2 in auto)
qed auto

lemma first_run_sorted:
  assumes "compares lt f (set xs)" and "first_run lt xs = (r, s)"
  shows "sorted (map f r)"
proof (cases "(lt, xs)" rule: first_run.cases)
  case (3 lt' x y ys)
  show ?thesis
  proof (cases "lt y x")
    case True
    then obtain r' where r: "take_run (\<lambda>a b. lt b a) x (y # ys) = (r', s)" "r = rev r'"
      using 3 assms(2) by (auto simp del: take_run.simps split: prod.splits)
    have "sorted_wrt (\<lambda>a b. f b \<le> f a) r' \<and> r' \<noteq> [] \<and> hd r' = x"
      by (rule take_run_sorted [OF _ r(1)]) (use 3 assms(1) in \<open>auto simp: transp_def compares_def\<close>)
    then show ?thesis by (simp add: r(2) sorted_map sorted_wrt_rev)
  next
    case False
    then have r: "take_run (\<lambda>a b. \<not> lt b a) x (y # ys) = (r, s)" using 3 assms(2) by (simp del: take_run.simps)
    have "sorted_wrt (\<lambda>a b. f a \<le> f b) r \<and> r \<noteq> [] \<and> hd r = x"
      by (rule take_run_sorted [OF _ r]) (use 3 assms(1) in \<open>auto simp: transp_def compares_def\<close>)
    then show ?thesis by (simp add: sorted_map)
  qed
qed (use assms(2) in auto)

lemma bin_pos_between:
  assumes "compares lt f (insert x (set xs))" and "sorted (map f xs)"
  shows "l \<le> r \<Longrightarrow> r \<le> length xs \<Longrightarrow> \<forall>i < l. f (xs ! i) \<le> f x \<Longrightarrow>
    \<forall>i. r \<le> i \<and> i < length xs \<longrightarrow> f x < f (xs ! i) \<Longrightarrow>
    \<exists>k \<le> length xs. bin_pos lt x xs l r = k \<and> (\<forall>i < k. f (xs ! i) \<le> f x) \<and>
      (\<forall>i. k \<le> i \<and> i < length xs \<longrightarrow> f x < f (xs ! i))"
  using assms
proof (induction lt x xs l r rule: bin_pos.induct)
  case (1 lt x xs l r)
  have mono: "f (xs ! i) \<le> f (xs ! j)" if "i \<le> j" "j < length xs" for i j
    using sorted_nth_mono [OF "1.prems"(6)] that by fastforce
  show ?case
  proof (cases "l < r")
    case True
    let ?p = "l + (r - l) div 2"
    have p: "l \<le> ?p" "?p < r" using True by auto
    have lt: "lt x (xs ! ?p) \<longleftrightarrow> f x < f (xs ! ?p)"
      using "1.prems"(2,5) p(2) by (intro comparesD [of lt f "insert x (set xs)"]) auto
    show ?thesis
    proof (cases "lt x (xs ! ?p)")
      case less: True
      then have "\<forall>i. ?p \<le> i \<and> i < length xs \<longrightarrow> f x < f (xs ! i)" using lt mono by (meson less_le_trans)
      with "1.IH"(1) [OF True refl less] "1.prems" p have "\<exists>k \<le> length xs. bin_pos lt x xs l ?p = k \<and>
        (\<forall>i < k. f (xs ! i) \<le> f x) \<and> (\<forall>i. k \<le> i \<and> i < length xs \<longrightarrow> f x < f (xs ! i))" by simp
      with True less show ?thesis by (simp add: bin_pos.simps [of lt x xs l r] Let_def)
    next
      case more: False
      then have "f (xs ! ?p) \<le> f x" using lt by simp
      then have "\<forall>i < Suc ?p. f (xs ! i) \<le> f x"
        using mono "1.prems"(2) p(2) by (meson less_Suc_eq_le less_le_trans order.trans)
      with "1.IH"(2) [OF True refl more] "1.prems" p have "\<exists>k \<le> length xs. bin_pos lt x xs (Suc ?p) r = k \<and>
        (\<forall>i < k. f (xs ! i) \<le> f x) \<and> (\<forall>i. k \<le> i \<and> i < length xs \<longrightarrow> f x < f (xs ! i))" by simp
      with True more show ?thesis by (simp add: bin_pos.simps [of lt x xs l r] Let_def)
    qed
  next
    case False
    then have "bin_pos lt x xs l r = l" by (subst bin_pos.simps) simp
    moreover have "l = r" using False "1.prems" by simp
    ultimately show ?thesis using "1.prems" by (intro exI [of _ r]) simp
  qed
qed

lemma bin_insert_sorted:
  assumes "compares lt f (insert x (set xs))" and "sorted (map f xs)"
  shows "sorted (map f (bin_insert lt x xs))"
proof -
  have "\<exists>k \<le> length xs. bin_pos lt x xs 0 (length xs) = k \<and> (\<forall>i < k. f (xs ! i) \<le> f x) \<and>
      (\<forall>i. k \<le> i \<and> i < length xs \<longrightarrow> f x < f (xs ! i))"
    by (rule bin_pos_between [OF assms]) auto
  then obtain k where k: "k \<le> length xs" "bin_pos lt x xs 0 (length xs) = k" "\<forall>i < k. f (xs ! i) \<le> f x"
    "\<forall>i. k \<le> i \<and> i < length xs \<longrightarrow> f x < f (xs ! i)" by blast
  have low: "f a \<le> f x" if "a \<in> set (take k xs)" for a
    using that k(1,3) by (auto simp: in_set_conv_nth)
  have high: "f x \<le> f b" if "b \<in> set (drop k xs)" for b
    using that k(1,4) by (auto simp: in_set_conv_nth intro!: less_imp_le)
  have "sorted (map f (take k xs))" "sorted (map f (drop k xs))"
    using assms(2) by (simp_all add: sorted_wrt_take sorted_wrt_drop flip: take_map drop_map)
  with low high k(2) show ?thesis
    by (auto simp: bin_insert_def sorted_append intro: order.trans)
qed

text \<open>The list is sorted by any key the comparison compares by.\<close>

lemma list_sort_sorted:
  assumes "compares lt f (set xs)"
  shows "sorted (map f (list_sort lt xs))"
proof -
  obtain r s where rs: "first_run lt xs = (r, s)" by fastforce
  have set: "set r \<union> set s = set xs" using mset_first_run [OF rs] by (metis set_mset_mset set_mset_union)
  have "sorted (map f (fold (bin_insert lt) s r))"
    if "set r \<union> set s \<subseteq> set xs" "sorted (map f r)" for r s
    using that
  proof (induction s arbitrary: r)
    case (Cons x s)
    have "compares lt f (insert x (set r))" using assms Cons.prems(1) by (auto simp: compares_def)
    then have "sorted (map f (bin_insert lt x r))" using Cons.prems(2) by (rule bin_insert_sorted)
    moreover have "set (bin_insert lt x r) = insert x (set r)" by (metis mset_bin_insert set_mset_mset set_mset_add_mset_insert)
    ultimately show ?case using Cons by simp
  qed simp
  from this [of r s] set first_run_sorted [OF assms rs] rs show ?thesis by (simp add: list_sort_def)
qed

end
