(* ===== verification/Plan_Sorting.thy ===== *)
theory Plan_Sorting
  imports Plan_Phases Py_Sort
begin

text \<open>
  The rest of \<open>_sort_tasks\<close> of \<open>litp/core/plan_builder.py\<close>, which makes the phases of one group of
  tasks: the callback and the configuration tasks of a phase get phases of their own, the tasks that
  have already run are dropped, the tasks of each phase are sorted, and the steps are composed from
  the dependency graph on.
\<close>

section \<open>Callback and configuration tasks\<close>

definition get_phase_dependencies :: "graph \<Rightarrow> string list \<Rightarrow> string list" where
  "get_phase_dependencies g phase = concat (map (successors g) phase)"

definition common_tasks :: "string list \<Rightarrow> string list \<Rightarrow> string list" where
  "common_tasks xs ys = filter (\<lambda>x. x \<in> set ys) xs"

definition is_all_config_tasks :: "kinds \<Rightarrow> string list \<Rightarrow> bool" where
  "is_all_config_tasks K phase \<longleftrightarrow> list_all (kd_config K) phase"

definition is_mixed_phase :: "kinds \<Rightarrow> string list \<Rightarrow> bool" where
  "is_mixed_phase K phase \<longleftrightarrow> list_ex (kd_config K) phase \<and> list_ex (kd_callback K) phase"

text \<open>The configuration tasks taken out of a phase join the next one, or get a phase before it; the
  argument holds the phases after the one they come from.\<close>

fun update_phases_with_segregated_config_tasks :: "kinds \<Rightarrow> graph \<Rightarrow> string list \<Rightarrow> phases \<Rightarrow> phases" where
  "update_phases_with_segregated_config_tasks K g cfg [] = [cfg]"
| "update_phases_with_segregated_config_tasks K g cfg (q # rest) =
     (if is_all_config_tasks K q \<and> common_tasks (get_phase_dependencies g q) cfg = [] \<and>
         any_net K cfg = any_net K q
      then (q @ cfg) # rest else cfg # q # rest)"

definition phase_weight :: "kinds \<Rightarrow> string list \<Rightarrow> nat" where
  "phase_weight K p = (if is_mixed_phase K p then 2 else 1)"

definition config_part :: "kinds \<Rightarrow> string list \<Rightarrow> string list" where
  "config_part K p = filter (\<lambda>t. \<not> kd_callback K t) p"

lemma config_part_unmixed: "\<not> is_mixed_phase K (config_part K p)"
  by (auto simp: is_mixed_phase_def config_part_def list_ex_iff)

lemma joined_unmixed:
  assumes "is_all_config_tasks K q" and "\<And>t. kd_config K t \<Longrightarrow> \<not> kd_callback K t"
  shows "\<not> is_mixed_phase K (q @ config_part K p)"
  using assms by (auto simp: is_mixed_phase_def config_part_def list_ex_iff is_all_config_tasks_def list_all_iff)

text \<open>The loop over the phases, which may get one more phase after the current one. A task is not
  both a configuration and a callback task; \<open>segregate\<close> is given as many rounds as it needs.\<close>

fun segregate :: "nat \<Rightarrow> kinds \<Rightarrow> graph \<Rightarrow> phases \<Rightarrow> phases" where
  "segregate n K g [] = []"
| "segregate 0 K g (p # rest) = p # rest"
| "segregate (Suc n) K g (p # rest) =
     (if is_mixed_phase K p
      then filter (kd_callback K) p #
        segregate n K g (update_phases_with_segregated_config_tasks K g (config_part K p) rest)
      else p # segregate n K g rest)"

definition total_weight :: "kinds \<Rightarrow> phases \<Rightarrow> nat" where
  "total_weight K ps = sum_list (map (phase_weight K) ps)"

definition segregate_callback_tasks :: "kinds \<Rightarrow> graph \<Rightarrow> phases \<Rightarrow> phases" where
  "segregate_callback_tasks K g ps = segregate (total_weight K ps) K g ps"

definition kinds_apart :: "kinds \<Rightarrow> bool" where
  "kinds_apart K \<longleftrightarrow> (\<forall>t. \<not> (kd_config K t \<and> kd_callback K t))"

lemma update_weight:
  assumes "kinds_apart K"
  shows "total_weight K (update_phases_with_segregated_config_tasks K g (config_part K p) rest) \<le> Suc (total_weight K rest)"
proof (cases rest)
  case Nil
  then show ?thesis by (simp add: total_weight_def phase_weight_def config_part_unmixed)
next
  case (Cons q rest')
  have "phase_weight K (q @ config_part K p) = 1" if "is_all_config_tasks K q"
    using joined_unmixed [OF that, of p] assms by (auto simp: phase_weight_def kinds_apart_def)
  moreover have "1 \<le> phase_weight K q" by (simp add: phase_weight_def)
  ultimately show ?thesis
    using Cons by (auto simp: total_weight_def phase_weight_def config_part_unmixed)
qed

text \<open>Enough rounds: every phase is looked at, so that no phase is mixed.\<close>

lemma segregate_unmixed:
  "kinds_apart K \<Longrightarrow> total_weight K ps \<le> n \<Longrightarrow> p \<in> set (segregate n K g ps) \<Longrightarrow> \<not> is_mixed_phase K p"
proof (induction n K g ps rule: segregate.induct)
  case (2 K g q rest)
  then show ?case by (simp add: total_weight_def phase_weight_def split: if_splits)
next
  case (3 n K g q rest)
  show ?case
  proof (cases "is_mixed_phase K q")
    case True
    let ?up = "update_phases_with_segregated_config_tasks K g (config_part K q) rest"
    have "total_weight K ?up \<le> n"
      using update_weight [OF "3.prems"(1), of g q rest] "3.prems"(2) True by (simp add: total_weight_def phase_weight_def)
    moreover have "\<not> is_mixed_phase K (filter (kd_callback K) q)"
      using "3.prems"(1) by (auto simp: is_mixed_phase_def list_ex_iff kinds_apart_def)
    ultimately show ?thesis using "3.IH"(1) [OF True] "3.prems" True by auto
  next
    case False
    then show ?thesis using "3.IH"(2) [OF False] "3.prems" by (auto simp: total_weight_def phase_weight_def)
  qed
qed simp

lemma mset_update:
  "mset (concat (update_phases_with_segregated_config_tasks K g cfg ps)) = mset cfg + mset (concat ps)"
  by (cases ps) auto

lemma mset_segregate: "mset (concat (segregate n K g ps)) = mset (concat ps)"
proof (induction n K g ps rule: segregate.induct)
  case (3 n K g p rest)
  have "mset (filter (kd_callback K) p) + mset (config_part K p) = mset p"
    by (induction p) (auto simp: config_part_def)
  with 3 show ?case by (auto simp: mset_update simp flip: add.assoc)
qed simp_all

text \<open>No phase is left empty, and no task comes to stand before one it depends on: \<open>D n\<close> are the
  tasks \<open>n\<close> depends on.\<close>

definition phase_ok :: "kinds \<Rightarrow> (string \<Rightarrow> string set) \<Rightarrow> string set \<Rightarrow> string set \<Rightarrow> bool" where
  "phase_ok K D p later \<longleftrightarrow>
     (\<forall>n \<in> p. \<forall>d \<in> D n. d \<notin> later \<and> (d \<in> p \<longrightarrow> \<not> kd_callback K n \<and> \<not> kd_callback K d))"

fun in_order :: "kinds \<Rightarrow> (string \<Rightarrow> string set) \<Rightarrow> phases \<Rightarrow> bool" where
  "in_order K D [] \<longleftrightarrow> True"
| "in_order K D (p # ps) \<longleftrightarrow> phase_ok K D (set p) (set (concat ps)) \<and> in_order K D ps"

lemma phase_okD:
  assumes "phase_ok K D p later" and "n \<in> p" and "d \<in> D n"
  shows "d \<notin> later" and "d \<in> p \<Longrightarrow> \<not> kd_callback K n \<and> \<not> kd_callback K d"
  using assms by (simp_all add: phase_ok_def)

lemma phase_okI:
  "(\<And>n d. n \<in> p \<Longrightarrow> d \<in> D n \<Longrightarrow> d \<notin> later \<and> (d \<in> p \<longrightarrow> \<not> kd_callback K n \<and> \<not> kd_callback K d)) \<Longrightarrow>
    phase_ok K D p later"
  by (simp add: phase_ok_def)

lemma in_order_update:
  assumes "in_order K D ps" and cfg: "\<And>n. n \<in> set cfg \<Longrightarrow> \<not> kd_callback K n"
    and "\<And>n d. n \<in> set cfg \<Longrightarrow> d \<in> D n \<Longrightarrow> d \<notin> set (concat ps)" and D: "\<And>n. D n = set (successors g n)"
  shows "in_order K D (update_phases_with_segregated_config_tasks K g cfg ps)"
proof (cases ps)
  case Nil
  with cfg show ?thesis by (simp add: phase_ok_def)
next
  case (Cons q rest)
  from assms(1) Cons have q: "phase_ok K D (set q) (set (concat rest))" and rest: "in_order K D rest" by simp_all
  have new: "d \<notin> set q" "d \<notin> set (concat rest)" if "n \<in> set cfg" "d \<in> D n" for n d
    using assms(3) [OF that] by (simp_all add: Cons)
  have "phase_ok K D (set (q @ cfg)) (set (concat rest))" if "common_tasks (get_phase_dependencies g q) cfg = []"
  proof (rule phase_okI)
    fix n d assume nd: "n \<in> set (q @ cfg)" "d \<in> D n"
    show "d \<notin> set (concat rest) \<and> (d \<in> set (q @ cfg) \<longrightarrow> \<not> kd_callback K n \<and> \<not> kd_callback K d)"
    proof (cases "n \<in> set q")
      case True
      with that nd(2) D have "d \<notin> set cfg"
        by (auto simp: common_tasks_def get_phase_dependencies_def filter_empty_conv)
      with phase_okD [OF q True nd(2)] show ?thesis by simp
    next
      case False
      with nd(1) have n: "n \<in> set cfg" by simp
      with new [OF n nd(2)] cfg show ?thesis by simp
    qed
  qed
  moreover have "phase_ok K D (set cfg) (set (concat (q # rest)))"
    by (rule phase_okI) (use new cfg in auto)
  ultimately show ?thesis using q rest Cons by simp
qed

lemma set_update [simp]:
  "set (concat (update_phases_with_segregated_config_tasks K g cfg ps)) = set cfg \<union> set (concat ps)"
  by (metis mset_update set_mset_mset set_mset_union)

lemma in_order_segregate:
  "(\<And>n. D n = set (successors g n)) \<Longrightarrow> in_order K D ps \<Longrightarrow> in_order K D (segregate n K g ps)"
proof (induction n K g ps rule: segregate.induct)
  case (3 n K g p rest)
  from "3.prems"(2) have p: "phase_ok K D (set p) (set (concat rest))" and rest: "in_order K D rest" by simp_all
  show ?case
  proof (cases "is_mixed_phase K p")
    case True
    let ?up = "update_phases_with_segregated_config_tasks K g (config_part K p) rest"
    have up: "in_order K D ?up"
      by (rule in_order_update [OF rest _ _ "3.prems"(1)]) (use phase_okD(1) [OF p] in \<open>auto simp: config_part_def\<close>)
    have s: "set (concat (segregate n K g ?up)) = set (config_part K p) \<union> set (concat rest)"
      by (metis mset_segregate set_mset_mset set_update)
    have "phase_ok K D (set (filter (kd_callback K) p)) (set (concat (segregate n K g ?up)))"
      unfolding s by (rule phase_okI) (use phase_okD [OF p] in \<open>auto simp: config_part_def\<close>)
    with "3.IH"(1) [OF True "3.prems"(1) up] True show ?thesis by (simp del: set_concat)
  next
    case False
    have "set (concat (segregate n K g rest)) = set (concat rest)" by (metis mset_segregate set_mset_mset)
    with "3.IH"(2) [OF False "3.prems"(1) rest] p False show ?thesis by (simp del: set_concat)
  qed
qed simp_all

lemma update_nonempty:
  "cfg \<noteq> [] \<Longrightarrow> [] \<notin> set ps \<Longrightarrow> [] \<notin> set (update_phases_with_segregated_config_tasks K g cfg ps)"
  by (cases ps) auto

lemma segregate_nonempty:
  "kinds_apart K \<Longrightarrow> [] \<notin> set ps \<Longrightarrow> [] \<notin> set (segregate n K g ps)"
proof (induction n K g ps rule: segregate.induct)
  case (3 n K g p rest)
  show ?case
  proof (cases "is_mixed_phase K p")
    case True
    then have "config_part K p \<noteq> []" "filter (kd_callback K) p \<noteq> []"
      using "3.prems"(1) by (auto simp: is_mixed_phase_def list_ex_iff config_part_def filter_empty_conv kinds_apart_def)
    with "3.IH"(1) [OF True "3.prems"(1)] "3.prems" True show ?thesis by (simp add: update_nonempty)
  qed (use 3 in simp)
qed simp_all

text \<open>The order of the phases, by the positions of the tasks.\<close>

lemma at_phase_0: "at_phase (p # ps) x 0 \<longleftrightarrow> x \<in> set p"
  by (simp add: at_phase_def)

lemma at_phase_Suc: "at_phase (p # ps) x (Suc i) \<longleftrightarrow> at_phase ps x i"
  by (simp add: at_phase_def)

lemma in_order_at_phase:
  "in_order K D ps \<longleftrightarrow>
    (\<forall>n i d j. at_phase ps n i \<longrightarrow> d \<in> D n \<longrightarrow> at_phase ps d j \<longrightarrow>
      j < i \<or> j = i \<and> \<not> kd_callback K n \<and> \<not> kd_callback K d)"
    (is "?L ps \<longleftrightarrow> (\<forall>n i d j. ?R ps n i d j)")
proof (induction ps)
  case Nil
  then show ?case by (simp add: at_phase_def)
next
  case (Cons p ps)
  have tail: "(\<exists>j. at_phase ps d j) \<longleftrightarrow> d \<in> set (concat ps)" for d by (rule at_concat)
  show ?case
  proof
    assume L: "?L (p # ps)"
    show "\<forall>n i d j. ?R (p # ps) n i d j"
    proof (intro allI)
      fix n i d j
      show "?R (p # ps) n i d j"
      proof (cases i)
        case 0
        then show ?thesis
          using L tail [of d] phase_okD [of K D "set p" "set (concat ps)" n d]
          by (cases j) (auto simp: at_phase_0 at_phase_Suc simp del: set_concat)
      next
        case (Suc i')
        with L Cons.IH have "?R ps n i' d (j - 1)" by simp
        with Suc show ?thesis by (cases j) (auto simp: at_phase_Suc)
      qed
    qed
  next
    assume R: "\<forall>n i d j. ?R (p # ps) n i d j"
    have "?R ps n i d j" for n i d j
      using R [rule_format, of n "Suc i" d "Suc j"] by (simp add: at_phase_Suc)
    with Cons.IH have "in_order K D ps" by blast
    moreover have "phase_ok K D (set p) (set (concat ps))"
    proof (rule phase_okI)
      fix n d assume nd: "n \<in> set p" "d \<in> D n"
      have "\<not> at_phase ps d j" for j
        using R [rule_format, of n 0 d "Suc j"] nd by (auto simp: at_phase_0 at_phase_Suc)
      with tail have "d \<notin> set (concat ps)" by blast
      moreover have "d \<in> set p \<longrightarrow> \<not> kd_callback K n \<and> \<not> kd_callback K d"
        using R [rule_format, of n 0 d 0] nd by (auto simp: at_phase_0)
      ultimately show "d \<notin> set (concat ps) \<and> (d \<in> set p \<longrightarrow> \<not> kd_callback K n \<and> \<not> kd_callback K d)"
        by blast
    qed
    ultimately show "?L (p # ps)" by simp
  qed
qed

lemma one_phase:
  "distinct (concat ps) \<Longrightarrow> at_phase ps t i \<Longrightarrow> at_phase ps t j \<Longrightarrow> i = j"
proof (induction ps arbitrary: i j)
  case (Cons p ps)
  have "at_phase ps t k \<Longrightarrow> t \<in> set (concat ps)" for k using at_concat [of ps t] by blast
  with Cons show ?case
    by (cases i; cases j) (auto simp: at_phase_0 at_phase_Suc simp del: set_concat)
qed (simp add: at_phase_def)

lemma before_in_order:
  assumes "distinct (concat ps)" and "\<And>n i d. at_phase ps n i \<Longrightarrow> d \<in> D n \<Longrightarrow> before K ps d n i"
  shows "in_order K D ps"
  unfolding in_order_at_phase
proof (intro allI impI)
  fix n i d j assume n: "at_phase ps n i" "d \<in> D n" and d: "at_phase ps d j"
  from assms(2) [OF n] obtain k where "at_phase ps d k" "k < i \<or> k = i \<and> \<not> kd_callback K n \<and> \<not> kd_callback K d"
    unfolding before_def by blast
  with one_phase [OF assms(1) d, of k] show "j < i \<or> j = i \<and> \<not> kd_callback K n \<and> \<not> kd_callback K d" by simp
qed

text \<open>Dropping tasks and phases without tasks, and reordering a phase, keep the order.\<close>

lemma in_order_smaller:
  "list_all2 (\<lambda>q p. set q \<subseteq> set p) qs ps \<Longrightarrow> in_order K D ps \<Longrightarrow>
    in_order K D qs \<and> set (concat qs) \<subseteq> set (concat ps)"
proof (induction rule: list_all2_induct)
  case (Cons q qs p ps)
  from Cons have IH: "in_order K D qs" "set (concat qs) \<subseteq> set (concat ps)" "set q \<subseteq> set p"
    and p: "phase_ok K D (set p) (set (concat ps))" by simp_all
  have "phase_ok K D (set q) (set (concat qs))"
    by (rule phase_okI) (use IH(2,3) phase_okD [OF p] in blast)
  with IH show ?case by auto
qed simp

lemma concat_nonempty: "concat (filter (\<lambda>p. p \<noteq> []) ps) = concat ps"
  by (induction ps) simp_all

lemma in_order_nonempty: "in_order K D ps \<Longrightarrow> in_order K D (filter (\<lambda>p. p \<noteq> []) ps)"
  by (induction ps) (simp_all add: concat_nonempty del: set_concat)

text \<open>Every phase is looked at.\<close>

lemma segregate_callback_tasks_result:
  assumes "kinds_apart K" and "[] \<notin> set ps" and "in_order K (\<lambda>n. set (successors g n)) ps"
  shows "in_order K (\<lambda>n. set (successors g n)) (segregate_callback_tasks K g ps) \<and>
    [] \<notin> set (segregate_callback_tasks K g ps) \<and>
    mset (concat (segregate_callback_tasks K g ps)) = mset (concat ps) \<and>
    (\<forall>p \<in> set (segregate_callback_tasks K g ps). \<not> is_mixed_phase K p)"
  unfolding segregate_callback_tasks_def
  using in_order_segregate [of "\<lambda>n. set (successors g n)" g K ps] assms
    segregate_nonempty mset_segregate segregate_unmixed [OF assms(1) order_refl] by blast

section \<open>Tasks that have already run\<close>

text \<open>\<open>task in tasks\<close>: the task itself or one equal to it.\<close>

definition task_in :: "task \<Rightarrow> task list \<Rightarrow> bool" where
  "task_in t ts \<longleftrightarrow> list_ex (\<lambda>u. ta_key u = ta_key t \<or> task_eq u t) ts"

definition associated_items_determinable :: "task list \<Rightarrow> bool res" where
  "associated_items_determinable ts = rbind (map_res all_model_items_determinable ts) (\<lambda>bs. Inr (list_all (\<lambda>b. b) bs))"

text \<open>Whether the plan keeps a task, given the tasks that have been successful before.\<close>

definition keep_task :: "task list \<Rightarrow> task \<Rightarrow> bool res" where
  "keep_task prev t =
     rbind (associated_items_determinable [t]) (\<lambda>determinable.
       Inr (if determinable
            then ta_state t = TaskInitial \<and>
              \<not> (is_config t \<and> task_in t (filter (\<lambda>u. ta_call_type u = ta_call_type t) prev))
            else \<not> (task_in t prev \<and> ta_state t = TaskSuccess)))"

definition keep_key :: "task list \<Rightarrow> task list \<Rightarrow> string \<Rightarrow> bool res" where
  "keep_key prev ts k = (case task_at ts k of Some t \<Rightarrow> keep_task prev t | None \<Rightarrow> Inl (KeyError k))"

definition remove_prev_successful_tasks :: "task list \<Rightarrow> task list \<Rightarrow> phases \<Rightarrow> phases res" where
  "remove_prev_successful_tasks prev ts ps =
     rbind (map_res (filter_res (keep_key prev ts)) ps) (\<lambda>qs. Inr (filter (\<lambda>p. p \<noteq> []) qs))"

section \<open>The order within a phase\<close>

definition py_cmp :: "string \<Rightarrow> string \<Rightarrow> int" where
  "py_cmp a b = (if a < b then -1 else if a = b then 0 else 1)"

definition task_by :: "task list \<Rightarrow> string \<Rightarrow> task" where
  "task_by ts k = (case task_at ts k of Some t \<Rightarrow> t | None \<Rightarrow> hd ts)"

definition dependency_compare :: "task list \<Rightarrow> graph \<Rightarrow> string \<Rightarrow> string \<Rightarrow> int" where
  "dependency_compare ts g x y =
     (let tx = task_by ts x; ty = task_by ts y
      in if is_callback tx then
           (if is_callback ty then int (ta_index tx) - int (ta_index ty) else -1)
         else if is_callback ty then 1
         else if y \<in> set (successors g x) then 1
         else if x \<in> set (successors g y) then -1
         else py_cmp (item_vpath tx) (item_vpath ty))"

definition sort_tasks_within_phases :: "task list \<Rightarrow> graph \<Rightarrow> phases \<Rightarrow> phases" where
  "sort_tasks_within_phases ts g ps = map (list_sort (\<lambda>x y. dependency_compare ts g x y < 0)) ps"

section \<open>The dependency graph of a group of tasks\<close>

text \<open>Configuration tasks of the items under a \<open>configs\<close> collection are sorted as if they were about
  a collection of their node; the items they had are kept to be put back. \<open>child_of\<close> gives the
  child of an item of the model, by the item's path and the name of the child.\<close>

definition update_config_task_model_item ::
  "(string \<Rightarrow> string \<Rightarrow> qitem res) \<Rightarrow> string list \<Rightarrow> string \<Rightarrow> task \<times> item_at option \<Rightarrow> (task \<times> item_at option) res" where
  "update_config_task_model_item child_of cfgs name st =
     (case st of (t, special) \<Rightarrow>
        if is_config t \<and> list_ex (\<lambda>v. prefix v (item_vpath t)) cfgs
        then rbind (live name (ta_node t)) (\<lambda>n. rbind (child_of (qi_vpath n) name) (\<lambda>q.
          Inr (t\<lparr>ta_item := Live q\<rparr>, Some (ta_item t))))
        else Inr (t, special))"

text \<open>The paths of the special and of the other configuration items of the clusters and of the
  management servers; those of the latter that are not special are not used.\<close>

record configs_vpaths =
  cv_fw :: "string list"
  cv_norm :: "string list"
  cv_ms_fw :: "string list"
  cv_ms_norm :: "string list"

definition preprocess_tasks_in_task_group ::
  "(string \<Rightarrow> string \<Rightarrow> qitem res) \<Rightarrow> configs_vpaths \<Rightarrow> task list \<Rightarrow> (task \<times> item_at option) list res" where
  "preprocess_tasks_in_task_group child_of cv ts =
     for_res (\<lambda>(cfgs, name). map_res (update_config_task_model_item child_of cfgs name))
       [(cv_fw cv, ''routes''), (cv_norm cv, ''configs''), (cv_ms_fw cv, ''routes''), (cv_ms_fw cv, ''configs'')]
       (map (\<lambda>t. (t, None)) ts)"

definition revert_special_model_item :: "task \<times> item_at option \<Rightarrow> task" where
  "revert_special_model_item st =
     (case st of (t, Some i) \<Rightarrow> t\<lparr>ta_item := i\<rparr> | (t, None) \<Rightarrow> t)"

definition copy_cfg_tasks_depinfo_for_puppet_use :: "graph \<Rightarrow> task list \<Rightarrow> task list" where
  "copy_cfg_tasks_depinfo_for_puppet_use g ts =
     map (\<lambda>t. if is_config t \<and> has_key (ta_key t) g
              then t\<lparr>ta_dep_ids := remdups (map (\<lambda>k. ta_unique_id (task_by ts k))
                (filter (\<lambda>k. is_config (task_by ts k)) (successors g (ta_key t))))\<rparr>
              else t) ts"

text \<open>\<open>get_dependencies\<close> is the question the builder asks the model manager: the dependencies
  between the paths it is given.\<close>

definition get_dependency_graph ::
  "(string list \<Rightarrow> graph res) \<Rightarrow> (string \<Rightarrow> string \<Rightarrow> qitem res) \<Rightarrow> configs_vpaths \<Rightarrow> task list \<Rightarrow> (graph \<times> task list) res" where
  "get_dependency_graph get_dependencies child_of cv ts =
     rbind (create_graph_from_task_requires ts) (\<lambda>requires.
     rbind (preprocess_tasks_in_task_group child_of cv ts) (\<lambda>sts.
     rbind (get_dependencies (remdups (map item_vpath (map fst sts)))) (\<lambda>md.
     rbind (create_graph_from_static_sibling_require (map fst sts) md requires) (\<lambda>combined.
     rbind (bridge_static_and_plugin_dependencies combined) (\<lambda>g.
       Inr (g, copy_cfg_tasks_depinfo_for_puppet_use g (map revert_special_model_item sts)))))))"

definition is_disk :: "task \<Rightarrow> bool" where
  "is_disk t = (case ta_item t of Live q \<Rightarrow> is_instance q ''disk-base'' | Gone v \<Rightarrow> False)"

definition kinds_of :: "task list \<Rightarrow> kinds" where
  "kinds_of ts =
     \<lparr>kd_net = (\<lambda>k. ta_net_task (task_by ts k)), kd_callback = (\<lambda>k. is_callback (task_by ts k)),
      kd_config = (\<lambda>k. is_config (task_by ts k)), kd_disk = (\<lambda>k. is_disk (task_by ts k))\<rparr>"

definition sort_tasks ::
  "(string list \<Rightarrow> graph res) \<Rightarrow> (string \<Rightarrow> string \<Rightarrow> qitem res) \<Rightarrow> configs_vpaths \<Rightarrow> task list \<Rightarrow> task list \<Rightarrow>
    (phases \<times> task list) res" where
  "sort_tasks get_dependencies child_of cv prev ts =
     rbind (get_dependency_graph get_dependencies child_of cv ts) (\<lambda>(g, ts).
       case topsort g of
         (layers, Some e) \<Rightarrow> Inl e
       | (layers, None) \<Rightarrow>
           (let K = kinds_of ts; (ps, h) = compact_phases K layers (topsort_graph g);
                ps = segregate_callback_tasks K h ps
            in rbind (remove_prev_successful_tasks prev ts ps) (\<lambda>ps.
                 Inr (sort_tasks_within_phases ts h ps, ts))))"

section \<open>The keys of the graph\<close>

lemma keys_add_dep: "t \<in> set (map fst g) \<Longrightarrow> map fst (add_dep t d g) = map fst g"
  by (simp add: add_dep_def update_keys del: set_map)

lemma static_graph_keys:
  assumes "create_graph_from_static_sibling_require ts md g = Inr h" and "set (keys_of ts) \<subseteq> set (map fst g)"
  shows "map fst h = map fst g"
proof (cases "ts = []")
  case False
  with assms(1) obtain vp where "for_res (add_model_dependencies ts vp) ts g = Inr h"
    by (auto simp: create_graph_from_static_sibling_require_def rbind_Inr_iff)
  then show ?thesis
  proof (rule for_res_invariant [where P = "\<lambda>u. map fst u = map fst g"])
    fix t g1 g2 assume t: "t \<in> set ts" "map fst g1 = map fst g" "add_model_dependencies ts vp t g1 = Inr g2"
    have key: "ta_key t \<in> set (map fst g)" using t(1) assms(2) by (auto simp: keys_of_def)
    moreover have "set (map fst g1) = set (map fst g)" using t(2) by simp
    ultimately have "has_key (ta_key t) g1" by (simp add: has_key_iff)
    with t(3) obtain us where "for_res (add_model_dependency t) us g1 = Inr g2"
      by (auto simp: add_model_dependencies_def rbind_Inr_iff)
    then show "map fst g2 = map fst g"
    proof (rule for_res_invariant [where P = "\<lambda>u. map fst u = map fst g"])
      fix d h1 h2 assume h: "map fst h1 = map fst g" "add_model_dependency t d h1 = Inr h2"
      then have "ta_key t \<in> set (map fst h1)" using key by simp
      with h keys_add_dep [of "ta_key t" h1 "ta_key d"] show "map fst h2 = map fst g"
        by (auto simp: add_model_dependency_def rbind_Inr_iff split: if_splits)
    qed (rule t(2))
  qed simp
qed (use assms(1) in \<open>simp add: create_graph_from_static_sibling_require_def\<close>)

definition state_keys :: "(task \<times> item_at option) list \<Rightarrow> string list" where
  "state_keys sts = map (ta_key \<circ> fst) sts"

lemma update_model_item_key:
  "update_config_task_model_item child_of cfgs name st = Inr st' \<Longrightarrow> ta_key (fst st') = ta_key (fst st)"
  by (auto simp: update_config_task_model_item_def rbind_Inr_iff split: if_splits prod.splits)

lemma map_res_map: "map_res f xs = Inr ys \<Longrightarrow> (\<And>x y. f x = Inr y \<Longrightarrow> k y = l x) \<Longrightarrow> map k ys = map l xs"
  by (induction xs arbitrary: ys) (auto simp: rbind_Inr_iff)

lemma preprocess_keys:
  assumes "preprocess_tasks_in_task_group child_of cv ts = Inr sts"
  shows "state_keys sts = keys_of ts"
  using assms unfolding preprocess_tasks_in_task_group_def
proof (rule for_res_invariant [where P = "\<lambda>sts. state_keys sts = keys_of ts"])
  show "state_keys (map (\<lambda>t. (t, None)) ts) = keys_of ts" by (simp add: state_keys_def keys_of_def o_def)
  fix cn sts sts' assume "state_keys sts = keys_of ts"
    "(case cn of (cfgs, name) \<Rightarrow> map_res (update_config_task_model_item child_of cfgs name)) sts = Inr sts'"
  then show "state_keys sts' = keys_of ts"
    by (cases cn) (auto simp: state_keys_def dest!: map_res_map [where k = "ta_key \<circ> fst" and l = "ta_key \<circ> fst"]
        update_model_item_key)
qed

lemma copy_keys: "keys_of (copy_cfg_tasks_depinfo_for_puppet_use g ts) = keys_of ts"
  by (simp add: copy_cfg_tasks_depinfo_for_puppet_use_def keys_of_def o_def if_distrib)

lemma revert_key: "ta_key (revert_special_model_item st) = ta_key (fst st)"
  by (simp add: revert_special_model_item_def split: prod.split option.split)

lemma get_dependency_graph_keys:
  assumes "get_dependency_graph get_dependencies child_of cv ts = Inr (g, us)"
  shows "map fst g = keys_of ts \<and> keys_of us = keys_of ts \<and> trans (edges g)"
proof -
  from assms obtain requires sts md combined where
    r: "create_graph_from_task_requires ts = Inr requires"
      "preprocess_tasks_in_task_group child_of cv ts = Inr sts"
      "create_graph_from_static_sibling_require (map fst sts) md requires = Inr combined"
      "bridge_static_and_plugin_dependencies combined = Inr g"
      "us = copy_cfg_tasks_depinfo_for_puppet_use g (map revert_special_model_item sts)"
    by (auto simp: get_dependency_graph_def rbind_Inr_iff)
  have keys: "state_keys sts = keys_of ts" by (rule preprocess_keys [OF r(2)])
  have k: "map fst requires = keys_of ts" by (rule requires_graph_keys [OF r(1)])
  have "keys_of (map fst sts) = keys_of ts" using keys by (simp add: state_keys_def keys_of_def)
  with k have "map fst combined = keys_of ts" using static_graph_keys [OF r(3)] by simp
  moreover have "keys_of us = keys_of ts"
    using keys by (simp add: r(5) copy_keys) (simp add: state_keys_def keys_of_def o_def revert_key)
  ultimately show ?thesis using bridge_closes [of combined] r(4) by auto
qed

section \<open>What the phases of a group hold\<close>

lemma filter_res_filter:
  "filter_res f xs = Inr ys \<Longrightarrow> ys = filter (\<lambda>x. f x = Inr True) xs \<and> (\<forall>x \<in> set xs. \<exists>b. f x = Inr b)"
  by (induction xs arbitrary: ys) (auto simp: rbind_Inr_iff)

lemma map_res_filter:
  "map_res (filter_res f) ps = Inr qs \<Longrightarrow>
    qs = map (filter (\<lambda>x. f x = Inr True)) ps \<and> (\<forall>x \<in> set (concat ps). \<exists>b. f x = Inr b)"
  by (induction ps arbitrary: qs) (auto simp: rbind_Inr_iff dest!: filter_res_filter)

lemma concat_map_filter: "concat (map (filter P) ps) = filter P (concat ps)"
  by (induction ps) simp_all

lemma remove_prev_result:
  assumes "remove_prev_successful_tasks prev ts ps = Inr qs"
  shows "concat qs = filter (\<lambda>k. keep_key prev ts k = Inr True) (concat ps)"
    and "qs = filter (\<lambda>p. p \<noteq> []) (map (filter (\<lambda>k. keep_key prev ts k = Inr True)) ps)"
    and "set (concat ps) \<subseteq> set (keys_of ts)"
proof -
  from assms obtain rs where rs: "map_res (filter_res (keep_key prev ts)) ps = Inr rs"
    "qs = filter (\<lambda>p. p \<noteq> []) rs" by (auto simp: remove_prev_successful_tasks_def rbind_Inr_iff)
  note r = map_res_filter [OF rs(1)]
  with rs(2) show "qs = filter (\<lambda>p. p \<noteq> []) (map (filter (\<lambda>k. keep_key prev ts k = Inr True)) ps)" by simp
  with r show "concat qs = filter (\<lambda>k. keep_key prev ts k = Inr True) (concat ps)"
    by (simp add: concat_nonempty concat_map_filter)
  show "set (concat ps) \<subseteq> set (keys_of ts)"
  proof
    fix k assume "k \<in> set (concat ps)"
    with r obtain b where "keep_key prev ts k = Inr b" by blast
    then obtain t where "task_at ts k = Some t" by (auto simp: keep_key_def split: option.splits)
    then show "k \<in> set (keys_of ts)" by (auto simp: task_at_def keys_of_def find_Some_iff)
  qed
qed

lemma kinds_of_apart: "kinds_apart (kinds_of ts)"
  by (simp add: kinds_apart_def kinds_of_def is_config_def is_callback_def)

lemma unmixed_subset: "\<not> is_mixed_phase K p \<Longrightarrow> set q \<subseteq> set p \<Longrightarrow> \<not> is_mixed_phase K q"
  by (auto simp: is_mixed_phase_def list_ex_iff)

lemma sort_within_concat: "mset (concat (sort_tasks_within_phases ts g ps)) = mset (concat ps)"
  by (induction ps) (simp_all add: sort_tasks_within_phases_def)

lemma sort_within_sets: "list_all2 (\<lambda>q p. set q = set p) (sort_tasks_within_phases ts g ps) ps"
  by (simp add: sort_tasks_within_phases_def list_all2_map1 list_all2_refl)

text \<open>Dropping and sorting after the segregation.\<close>

lemma drop_and_sort:
  assumes "remove_prev_successful_tasks prev ts ps = Inr qs" and "in_order K D ps" and "distinct (concat ps)"
    and "\<forall>p \<in> set ps. \<not> is_mixed_phase K p" and rs_def: "rs = sort_tasks_within_phases ts g qs"
  shows "in_order K D rs \<and> distinct (concat rs) \<and> [] \<notin> set rs \<and> (\<forall>p \<in> set rs. \<not> is_mixed_phase K p) \<and>
    set (concat rs) = {k \<in> set (concat ps). keep_key prev ts k = Inr True}"
proof -
  let ?keep = "\<lambda>k. keep_key prev ts k = Inr True"
  note qs = remove_prev_result [OF assms(1)]
  have "in_order K D (map (filter ?keep) ps)"
    by (rule in_order_smaller [THEN conjunct1, OF _ assms(2)]) (simp add: list_all2_map1 list_all2_same)
  then have "in_order K D qs" unfolding qs(2) by (rule in_order_nonempty)
  moreover have "list_all2 (\<lambda>q p. set q \<subseteq> set p) rs qs"
    unfolding rs_def by (rule list_all2_mono [OF sort_within_sets]) simp
  ultimately have "in_order K D rs" by (simp add: in_order_smaller)
  moreover have m: "mset (concat rs) = mset (concat qs)" unfolding rs_def by (rule sort_within_concat)
  moreover have "distinct (concat qs)" using assms(3) by (simp add: qs(1))
  moreover have "set (concat qs) = {k \<in> set (concat ps). ?keep k}" by (auto simp: qs(1))
  moreover have "q \<noteq> [] \<and> \<not> is_mixed_phase K q" if q: "q \<in> set rs" for q
  proof -
    from q obtain p where p: "p \<in> set qs" "set q = set p"
      unfolding rs_def sort_tasks_within_phases_def by auto
    then obtain p' where "p' \<in> set ps" "p = filter ?keep p'" "p \<noteq> []" unfolding qs(2) by auto
    with p(2) assms(4) unmixed_subset [of K p' q] show ?thesis by auto
  qed
  ultimately show ?thesis by (metis mset_eq_imp_distinct_iff mset_eq_setD)
qed


definition no_configs :: configs_vpaths where
  "no_configs = \<lparr>cv_fw = [], cv_norm = [], cv_ms_fw = [], cv_ms_norm = []\<rparr>"

definition no_child :: "string \<Rightarrow> string \<Rightarrow> qitem res" where
  "no_child v name = Inl (AttributeError name)"


text \<open>The comparison within a phase is not an order. Of three configuration tasks \<open>a\<close>, \<open>b\<close> and
  \<open>c\<close>, whose paths are in that order, \<open>a\<close> requires \<open>c\<close>; the sorted phase still has \<open>a\<close> first.\<close>

definition unsorted_tasks :: "task list" where
  "unsorted_tasks = [sample_task ''a'' ConfigTaskC [OnTask ''c''], sample_task ''b'' ConfigTaskC [], sample_task ''c'' ConfigTaskC []]"

lemma required_task_sorted_later:
  "sort_tasks_within_phases unsorted_tasks [(''a'', [''c'']), (''b'', []), (''c'', [])] [[''a'', ''b'', ''c'']] =
    [[''a'', ''b'', ''c'']]"
  by code_simp

text \<open>A phase of callback tasks is sorted by their positions in the list of tasks.\<close>

lemma callback_phase_sorted:
  assumes "\<forall>k \<in> set p. is_callback (task_by ts k)"
  shows "sorted (map (\<lambda>k. ta_index (task_by ts k)) (list_sort (\<lambda>x y. dependency_compare ts g x y < 0) p))"
  by (rule list_sort_sorted) (use assms in \<open>auto simp: compares_def dependency_compare_def\<close>)

end
