(* ===== verification/Task_Groups.thy ===== *)
theory Task_Groups
  imports Plan_Sorting
begin

text \<open>
  The groups of tasks and their order: the rules of \<open>litp/plan_types\<close>, which say for each group
  the tasks that belong to it and the groups it requires; the assignment of groups of the execution
  manager (\<open>_setup_task_group\<close> of \<open>litp/core/execution_manager.py\<close>), the order of the groups of
  a deployment plan, and the builder of the snapshot plans in \<open>litp/core/plan_builder.py\<close>.
\<close>

section \<open>The rules\<close>

text \<open>The value of an attribute of a task, as a rule compares it.\<close>

datatype attribute = NoAttr | TextAttr string | BoolAttr bool

type_synonym criteria_dict = "(string \<times> attribute) list"

datatype rule = Rule (ru_group: string) (ru_criteria: "criteria_dict list") (ru_requires: "string list") (ru_unmatched: bool)

definition deployment_plan_ruleset :: "rule list" where
  "deployment_plan_ruleset =
    [Rule ''DEPLOYMENT_PRE_CLUSTER_GROUP''
       [[(''tag_name'', TextAttr ''DEPLOYMENT_PRE_CLUSTER_TAG'')]]
       [''DEPLOYMENT_BOOT_GROUP''] False,
     Rule ''DEPLOYMENT_MS_GROUP''
       [[(''tag_name'', TextAttr ''DEPLOYMENT_MS_TAG'')],
        [(''task_type'', TextAttr ''RemoteExecutionTask''), (''model_item.get_ms.is_ms'', BoolAttr True), (''tag_name'', NoAttr)],
        [(''task_type'', TextAttr ''ConfigTask''), (''node.is_ms'', BoolAttr True), (''tag_name'', NoAttr)],
        [(''task_type'', TextAttr ''CallbackTask''), (''model_item.get_ms.is_ms'', BoolAttr True), (''tag_name'', NoAttr)]]
       [] True,
     Rule ''DEPLOYMENT_UPGRADE_BOOT_GROUP''
       [[(''tag_name'', TextAttr ''DEPLOYMENT_UPGRADE_BOOT_TAG'')]]
       [''DEPLOYMENT_PRE_NODE_CLUSTER_GROUP''] False,
     Rule ''DEPLOYMENT_VXVM_UPGRADE_GROUP''
       [[(''tag_name'', TextAttr ''DEPLOYMENT_VXVM_UPGRADE_TAG'')]]
       [''DEPLOYMENT_UPGRADE_BOOT_GROUP''] False,
     Rule ''DEPLOYMENT_NODE_GROUP''
       [[(''tag_name'', TextAttr ''DEPLOYMENT_NODE_TAG'')],
        [(''task_type'', TextAttr ''RemoteExecutionTask''), (''model_item.get_node.is_node'', BoolAttr True), (''tag_name'', NoAttr)],
        [(''task_type'', TextAttr ''ConfigTask''), (''node.is_ms'', BoolAttr False), (''tag_name'', NoAttr)],
        [(''task_type'', TextAttr ''CallbackTask''), (''model_item.get_node.is_node'', BoolAttr True), (''tag_name'', NoAttr)]]
       [''DEPLOYMENT_VXVM_UPGRADE_GROUP''] False,
     Rule ''DEPLOYMENT_CLUSTER_GROUP''
       [[(''tag_name'', TextAttr ''DEPLOYMENT_CLUSTER_TAG'')],
        [(''task_type'', TextAttr ''CallbackTask''), (''model_item.get_cluster.is_cluster'', BoolAttr True), (''tag_name'', NoAttr)]]
       [''DEPLOYMENT_NODE_GROUP''] False,
     Rule ''DEPLOYMENT_BOOT_GROUP''
       [[(''tag_name'', TextAttr ''DEPLOYMENT_BOOT_TAG'')]]
       [''DEPLOYMENT_MS_GROUP''] False,
     Rule ''DEPLOYMENT_PRE_NODE_CLUSTER_GROUP''
       [[(''tag_name'', TextAttr ''DEPLOYMENT_PRE_NODE_CLUSTER_TAG'')]]
       [''DEPLOYMENT_PRE_CLUSTER_GROUP''] False,
     Rule ''DEPLOYMENT_POST_CLUSTER_GROUP''
       [[(''tag_name'', TextAttr ''DEPLOYMENT_POST_CLUSTER_TAG'')]]
       [''DEPLOYMENT_CLUSTER_GROUP''] False]"

definition deployment_plan_tags :: "string list" where
  "deployment_plan_tags =
    [''DEPLOYMENT_MS_TAG'',
     ''DEPLOYMENT_BOOT_TAG'',
     ''DEPLOYMENT_UPGRADE_BOOT_TAG'',
     ''DEPLOYMENT_VXVM_UPGRADE_TAG'',
     ''DEPLOYMENT_NODE_TAG'',
     ''DEPLOYMENT_CLUSTER_TAG'',
     ''DEPLOYMENT_PRE_NODE_CLUSTER_TAG'',
     ''DEPLOYMENT_PRE_CLUSTER_TAG'',
     ''DEPLOYMENT_POST_CLUSTER_TAG'']"

definition create_snapshot_ruleset :: "rule list" where
  "create_snapshot_ruleset =
    [Rule ''CREATE_SNAPSHOT_VALIDATION_GROUP''
       [[(''task_type'', TextAttr ''CallbackTask''), (''tag_name'', TextAttr ''CREATE_SNAPSHOT_VALIDATION_TAG'')]]
       [] False,
     Rule ''CREATE_SNAPSHOT_PRE_OPERATION_GROUP''
       [[(''task_type'', TextAttr ''CallbackTask''), (''tag_name'', TextAttr ''CREATE_SNAPSHOT_PRE_OPERATION_TAG'')]]
       [''CREATE_SNAPSHOT_VALIDATION_GROUP''] False,
     Rule ''CREATE_SNAPSHOT_LMS_LVM_VOLUME_GROUP''
       [[(''task_type'', TextAttr ''CallbackTask''), (''tag_name'', TextAttr ''CREATE_SNAPSHOT_LMS_LVM_VOLUME_TAG'')]]
       [''CREATE_SNAPSHOT_PRE_OPERATION_GROUP''] False,
     Rule ''CREATE_SNAPSHOT_PEER_NODE_LVM_VOLUME_GROUP''
       [[(''task_type'', TextAttr ''CallbackTask''), (''tag_name'', TextAttr ''CREATE_SNAPSHOT_PEER_NODE_LVM_VOLUME_TAG'')]]
       [''CREATE_SNAPSHOT_LMS_LVM_VOLUME_GROUP''] False,
     Rule ''CREATE_SNAPSHOT_PEER_NODE_VXVM_VOLUME_GROUP''
       [[(''task_type'', TextAttr ''CallbackTask''), (''tag_name'', TextAttr ''CREATE_SNAPSHOT_PEER_NODE_VXVM_VOLUME_TAG'')]]
       [''CREATE_SNAPSHOT_PEER_NODE_LVM_VOLUME_GROUP''] False,
     Rule ''CREATE_SNAPSHOT_NAS_FILESYSTEM_GROUP''
       [[(''task_type'', TextAttr ''CallbackTask''), (''tag_name'', TextAttr ''CREATE_SNAPSHOT_NAS_FILESYSTEM_TAG'')]]
       [''CREATE_SNAPSHOT_PEER_NODE_VXVM_VOLUME_GROUP''] False,
     Rule ''CREATE_SNAPSHOT_SAN_LUN_GROUP''
       [[(''task_type'', TextAttr ''CallbackTask''), (''tag_name'', TextAttr ''CREATE_SNAPSHOT_SAN_LUN_TAG'')]]
       [''CREATE_SNAPSHOT_NAS_FILESYSTEM_GROUP''] False,
     Rule ''CREATE_SNAPSHOT_DEFAULT_GROUP''
       [[]]
       [''CREATE_SNAPSHOT_SAN_LUN_GROUP''] True,
     Rule ''CREATE_SNAPSHOT_POST_OPERATION_GROUP''
       [[(''task_type'', TextAttr ''CallbackTask''), (''tag_name'', TextAttr ''CREATE_SNAPSHOT_POST_OPERATION_TAG'')]]
       [''CREATE_SNAPSHOT_DEFAULT_GROUP''] False]"

definition create_snapshot_tags :: "string list" where
  "create_snapshot_tags =
    [''CREATE_SNAPSHOT_VALIDATION_TAG'',
     ''CREATE_SNAPSHOT_PRE_OPERATION_TAG'',
     ''CREATE_SNAPSHOT_LMS_LVM_VOLUME_TAG'',
     ''CREATE_SNAPSHOT_PEER_NODE_LVM_VOLUME_TAG'',
     ''CREATE_SNAPSHOT_PEER_NODE_VXVM_VOLUME_TAG'',
     ''CREATE_SNAPSHOT_NAS_FILESYSTEM_TAG'',
     ''CREATE_SNAPSHOT_SAN_LUN_TAG'',
     ''CREATE_SNAPSHOT_POST_OPERATION_TAG'']"

definition remove_snapshot_ruleset :: "rule list" where
  "remove_snapshot_ruleset =
    [Rule ''REMOVE_SNAPSHOT_VALIDATION_GROUP''
       [[(''task_type'', TextAttr ''CallbackTask''), (''tag_name'', TextAttr ''REMOVE_SNAPSHOT_VALIDATION_TAG'')]]
       [] False,
     Rule ''REMOVE_SNAPSHOT_PRE_OPERATION_GROUP''
       [[(''task_type'', TextAttr ''CallbackTask''), (''tag_name'', TextAttr ''REMOVE_SNAPSHOT_PRE_OPERATION_TAG'')]]
       [''REMOVE_SNAPSHOT_VALIDATION_GROUP''] False,
     Rule ''REMOVE_SNAPSHOT_LMS_LVM_VOLUME_GROUP''
       [[(''task_type'', TextAttr ''CallbackTask''), (''tag_name'', TextAttr ''REMOVE_SNAPSHOT_LMS_LVM_VOLUME_TAG'')]]
       [''REMOVE_SNAPSHOT_PRE_OPERATION_GROUP''] False,
     Rule ''REMOVE_SNAPSHOT_PEER_NODE_LVM_VOLUME_GROUP''
       [[(''task_type'', TextAttr ''CallbackTask''), (''tag_name'', TextAttr ''REMOVE_SNAPSHOT_PEER_NODE_LVM_VOLUME_TAG'')]]
       [''REMOVE_SNAPSHOT_LMS_LVM_VOLUME_GROUP''] False,
     Rule ''REMOVE_SNAPSHOT_PEER_NODE_VXVM_VOLUME_GROUP''
       [[(''task_type'', TextAttr ''CallbackTask''), (''tag_name'', TextAttr ''REMOVE_SNAPSHOT_PEER_NODE_VXVM_VOLUME_TAG'')]]
       [''REMOVE_SNAPSHOT_PEER_NODE_LVM_VOLUME_GROUP''] False,
     Rule ''REMOVE_SNAPSHOT_NAS_FILESYSTEM_GROUP''
       [[(''task_type'', TextAttr ''CallbackTask''), (''tag_name'', TextAttr ''REMOVE_SNAPSHOT_NAS_FILESYSTEM_TAG'')]]
       [''REMOVE_SNAPSHOT_PEER_NODE_VXVM_VOLUME_GROUP''] False,
     Rule ''REMOVE_SNAPSHOT_SAN_LUN_GROUP''
       [[(''task_type'', TextAttr ''CallbackTask''), (''tag_name'', TextAttr ''REMOVE_SNAPSHOT_SAN_LUN_TAG'')]]
       [''REMOVE_SNAPSHOT_NAS_FILESYSTEM_GROUP''] False,
     Rule ''REMOVE_SNAPSHOT_DEFAULT_GROUP''
       [[]]
       [''REMOVE_SNAPSHOT_SAN_LUN_GROUP''] True,
     Rule ''REMOVE_SNAPSHOT_POST_OPERATION_GROUP''
       [[(''task_type'', TextAttr ''CallbackTask''), (''tag_name'', TextAttr ''REMOVE_SNAPSHOT_POST_OPERATION_TAG'')]]
       [''REMOVE_SNAPSHOT_DEFAULT_GROUP''] False,
     Rule ''REMOVE_SNAPSHOT_FINAL_GROUP''
       [[(''task_type'', TextAttr ''CleanupTask'')]]
       [''REMOVE_SNAPSHOT_POST_OPERATION_GROUP''] False]"

definition remove_snapshot_tags :: "string list" where
  "remove_snapshot_tags =
    [''REMOVE_SNAPSHOT_VALIDATION_TAG'',
     ''REMOVE_SNAPSHOT_PRE_OPERATION_TAG'',
     ''REMOVE_SNAPSHOT_LMS_LVM_VOLUME_TAG'',
     ''REMOVE_SNAPSHOT_PEER_NODE_LVM_VOLUME_TAG'',
     ''REMOVE_SNAPSHOT_PEER_NODE_VXVM_VOLUME_TAG'',
     ''REMOVE_SNAPSHOT_NAS_FILESYSTEM_TAG'',
     ''REMOVE_SNAPSHOT_SAN_LUN_TAG'',
     ''REMOVE_SNAPSHOT_POST_OPERATION_TAG'']"

definition restore_snapshot_ruleset :: "rule list" where
  "restore_snapshot_ruleset =
    [Rule ''RESTORE_SNAPSHOT_VALIDATION_GROUP''
       [[(''task_type'', TextAttr ''CallbackTask''), (''tag_name'', TextAttr ''RESTORE_SNAPSHOT_VALIDATION_TAG'')]]
       [] False,
     Rule ''RESTORE_SNAPSHOT_PREPARE_PUPPET_GROUP''
       [[(''task_type'', TextAttr ''CallbackTask''), (''tag_name'', TextAttr ''RESTORE_SNAPSHOT_PREPARE_PUPPET_TAG'')]]
       [''RESTORE_SNAPSHOT_VALIDATION_GROUP''] False,
     Rule ''RESTORE_SNAPSHOT_PREPARE_VCS_GROUP''
       [[(''task_type'', TextAttr ''CallbackTask''), (''tag_name'', TextAttr ''RESTORE_SNAPSHOT_PREPARE_VCS_TAG'')]]
       [''RESTORE_SNAPSHOT_PREPARE_PUPPET_GROUP''] False,
     Rule ''RESTORE_SNAPSHOT_PRE_OPERATION_GROUP''
       [[(''task_type'', TextAttr ''CallbackTask''), (''tag_name'', TextAttr ''RESTORE_SNAPSHOT_PRE_OPERATION_TAG'')]]
       [''RESTORE_SNAPSHOT_PREPARE_VCS_GROUP''] False,
     Rule ''RESTORE_SNAPSHOT_NAS_FILESYSTEM_GROUP''
       [[(''task_type'', TextAttr ''CallbackTask''), (''tag_name'', TextAttr ''RESTORE_SNAPSHOT_NAS_FILESYSTEM_TAG'')]]
       [''RESTORE_SNAPSHOT_PRE_OPERATION_GROUP''] False,
     Rule ''RESTORE_SNAPSHOT_PEER_NODE_LVM_VOLUME_GROUP''
       [[(''task_type'', TextAttr ''CallbackTask''), (''tag_name'', TextAttr ''RESTORE_SNAPSHOT_PEER_NODE_LVM_VOLUME_TAG'')]]
       [''RESTORE_SNAPSHOT_NAS_FILESYSTEM_GROUP''] False,
     Rule ''RESTORE_SNAPSHOT_PEER_NODE_VXVM_VOLUME_GROUP''
       [[(''task_type'', TextAttr ''CallbackTask''), (''tag_name'', TextAttr ''RESTORE_SNAPSHOT_PEER_NODE_VXVM_VOLUME_TAG'')]]
       [''RESTORE_SNAPSHOT_PEER_NODE_LVM_VOLUME_GROUP''] False,
     Rule ''RESTORE_SNAPSHOT_PEER_NODE_REBOOT_GROUP''
       [[(''task_type'', TextAttr ''CallbackTask''), (''tag_name'', TextAttr ''RESTORE_SNAPSHOT_PEER_NODE_REBOOT_TAG'')]]
       [''RESTORE_SNAPSHOT_PEER_NODE_VXVM_VOLUME_GROUP''] False,
     Rule ''RESTORE_SNAPSHOT_PEER_NODE_POWER_OFF_GROUP''
       [[(''task_type'', TextAttr ''CallbackTask''), (''tag_name'', TextAttr ''RESTORE_SNAPSHOT_PEER_NODE_POWER_OFF_TAG'')]]
       [''RESTORE_SNAPSHOT_PEER_NODE_REBOOT_GROUP''] False,
     Rule ''RESTORE_SNAPSHOT_SAN_LUN_GROUP''
       [[(''task_type'', TextAttr ''CallbackTask''), (''tag_name'', TextAttr ''RESTORE_SNAPSHOT_SAN_LUN_TAG'')]]
       [''RESTORE_SNAPSHOT_PEER_NODE_POWER_OFF_GROUP''] False,
     Rule ''RESTORE_SNAPSHOT_SANITISATION_GROUP''
       [[(''task_type'', TextAttr ''CallbackTask''), (''tag_name'', TextAttr ''RESTORE_SNAPSHOT_SANITISATION_TAG'')]]
       [''RESTORE_SNAPSHOT_SAN_LUN_GROUP''] False,
     Rule ''RESTORE_SNAPSHOT_PEER_NODE_POWER_ON_GROUP''
       [[(''task_type'', TextAttr ''CallbackTask''), (''tag_name'', TextAttr ''RESTORE_SNAPSHOT_PEER_NODE_POWER_ON_TAG'')]]
       [''RESTORE_SNAPSHOT_SANITISATION_GROUP''] False,
     Rule ''RESTORE_SNAPSHOT_PEER_NODE_POST_POWER_ON_GROUP''
       [[(''task_type'', TextAttr ''CallbackTask''), (''tag_name'', TextAttr ''RESTORE_SNAPSHOT_PEER_NODE_POST_POWER_ON_TAG'')]]
       [''RESTORE_SNAPSHOT_PEER_NODE_POWER_ON_GROUP''] False,
     Rule ''RESTORE_SNAPSHOT_LMS_LVM_VOLUME_GROUP''
       [[(''task_type'', TextAttr ''CallbackTask''), (''tag_name'', TextAttr ''RESTORE_SNAPSHOT_LMS_LVM_VOLUME_TAG'')]]
       [''RESTORE_SNAPSHOT_PEER_NODE_POST_POWER_ON_GROUP''] False,
     Rule ''RESTORE_SNAPSHOT_DEFAULT_GROUP''
       [[]]
       [''RESTORE_SNAPSHOT_LMS_LVM_VOLUME_GROUP''] True,
     Rule ''RESTORE_SNAPSHOT_LMS_REBOOT_GROUP''
       [[(''task_type'', TextAttr ''CallbackTask''), (''tag_name'', TextAttr ''RESTORE_SNAPSHOT_LMS_REBOOT_TAG'')]]
       [''RESTORE_SNAPSHOT_DEFAULT_GROUP''] False]"

definition restore_snapshot_tags :: "string list" where
  "restore_snapshot_tags =
    [''RESTORE_SNAPSHOT_VALIDATION_TAG'',
     ''RESTORE_SNAPSHOT_PREPARE_PUPPET_TAG'',
     ''RESTORE_SNAPSHOT_PREPARE_VCS_TAG'',
     ''RESTORE_SNAPSHOT_PRE_OPERATION_TAG'',
     ''RESTORE_SNAPSHOT_NAS_FILESYSTEM_TAG'',
     ''RESTORE_SNAPSHOT_PEER_NODE_LVM_VOLUME_TAG'',
     ''RESTORE_SNAPSHOT_PEER_NODE_VXVM_VOLUME_TAG'',
     ''RESTORE_SNAPSHOT_PEER_NODE_REBOOT_TAG'',
     ''RESTORE_SNAPSHOT_PEER_NODE_POWER_OFF_TAG'',
     ''RESTORE_SNAPSHOT_SAN_LUN_TAG'',
     ''RESTORE_SNAPSHOT_SANITISATION_TAG'',
     ''RESTORE_SNAPSHOT_PEER_NODE_POWER_ON_TAG'',
     ''RESTORE_SNAPSHOT_PEER_NODE_POST_POWER_ON_TAG'',
     ''RESTORE_SNAPSHOT_LMS_LVM_VOLUME_TAG'',
     ''RESTORE_SNAPSHOT_LMS_REBOOT_TAG'']"


definition groups_cluster_sorted :: "(string \<times> bool) list" where
  "groups_cluster_sorted =
    [(''DEPLOYMENT_MS_GROUP'', False), (''DEPLOYMENT_BOOT_GROUP'', False), (''DEPLOYMENT_UPGRADE_BOOT_GROUP'', True),
     (''DEPLOYMENT_VXVM_UPGRADE_GROUP'', True), (''DEPLOYMENT_NODE_GROUP'', True), (''DEPLOYMENT_CLUSTER_GROUP'', True),
     (''DEPLOYMENT_PRE_NODE_CLUSTER_GROUP'', True), (''DEPLOYMENT_PRE_CLUSTER_GROUP'', False),
     (''DEPLOYMENT_POST_CLUSTER_GROUP'', False)]"

definition groups_locking :: "(string \<times> bool) list" where
  "groups_locking =
    [(''DEPLOYMENT_MS_GROUP'', False), (''DEPLOYMENT_BOOT_GROUP'', False), (''DEPLOYMENT_UPGRADE_BOOT_GROUP'', True),
     (''DEPLOYMENT_VXVM_UPGRADE_GROUP'', True), (''DEPLOYMENT_NODE_GROUP'', True), (''DEPLOYMENT_CLUSTER_GROUP'', False),
     (''DEPLOYMENT_PRE_NODE_CLUSTER_GROUP'', False), (''DEPLOYMENT_PRE_CLUSTER_GROUP'', False),
     (''DEPLOYMENT_POST_CLUSTER_GROUP'', False)]"

definition unknown_group :: "string \<Rightarrow> exn" where
  "unknown_group g = ValueError (''Unkown group: \"'' @ g @ ''\"'')"

definition group_requires_cluster_sorting :: "string \<Rightarrow> bool res" where
  "group_requires_cluster_sorting g =
     (case map_of groups_cluster_sorted g of Some b \<Rightarrow> Inr b | None \<Rightarrow> Inl (unknown_group g))"

definition is_node_group :: "string \<Rightarrow> bool res" where
  "is_node_group g = (case map_of groups_locking g of Some b \<Rightarrow> Inr b | None \<Rightarrow> Inl (unknown_group g))"

section \<open>The group of a task of a deployment\<close>

fun class_name :: "task_class \<Rightarrow> string" where
  "class_name ConfigTaskC = ''ConfigTask''"
| "class_name CallbackTaskC = ''CallbackTask''"
| "class_name RemoteExecutionTaskC = ''RemoteExecutionTask''"
| "class_name CleanupTaskC = ''CleanupTask''"

text \<open>An item is the management server when that is what \<open>get_ms\<close> finds from it.\<close>

definition item_is_ms :: "qitem \<Rightarrow> bool" where
  "item_is_ms q = (case qi_ms q of Some m \<Rightarrow> nd_vpath m = qi_vpath q | None \<Rightarrow> False)"

definition tag_attribute :: "task \<Rightarrow> attribute" where
  "tag_attribute t = (case ta_tag_name t of Some n \<Rightarrow> TextAttr n | None \<Rightarrow> NoAttr)"

text \<open>The attributes the rules ask for, \<open>None\<close> where a step of the chain has none: an item that has
  left the model is a path.\<close>

definition task_attribute :: "task \<Rightarrow> string \<Rightarrow> attribute" where
  "task_attribute t key =
     (if key = ''task_type'' then TextAttr (class_name (ta_class t))
      else if key = ''tag_name'' then tag_attribute t
      else if key = ''node.is_ms'' \<and> is_config t then
        (case ta_node t of Live q \<Rightarrow> BoolAttr (item_is_ms q) | Gone v \<Rightarrow> NoAttr)
      else (case ta_item t of
        Gone v \<Rightarrow> NoAttr
      | Live q \<Rightarrow>
          (if key = ''model_item.get_ms.is_ms'' then (case qi_ms q of Some m \<Rightarrow> BoolAttr (nd_is_ms m) | None \<Rightarrow> NoAttr)
           else if key = ''model_item.get_node.is_node'' then (case qi_node q of Some n \<Rightarrow> BoolAttr True | None \<Rightarrow> NoAttr)
           else if key = ''model_item.get_cluster.is_cluster'' then (case qi_cluster q of Some c \<Rightarrow> BoolAttr True | None \<Rightarrow> NoAttr)
           else NoAttr)))"

text \<open>The criteria are tried in turn; criteria without any condition end the search.\<close>

fun task_matches_criteria :: "task \<Rightarrow> criteria_dict list \<Rightarrow> bool" where
  "task_matches_criteria t [] = False"
| "task_matches_criteria t (c # cs) =
     (if c = [] then False
      else if list_all (\<lambda>(key, expected). task_attribute t key = expected) c then True
      else task_matches_criteria t cs)"

definition unmatched_group_name :: "rule list \<Rightarrow> string option" where
  "unmatched_group_name rs = map_option ru_group (List.find ru_unmatched rs)"

definition matching_rule :: "task \<Rightarrow> rule option" where
  "matching_rule t = List.find (\<lambda>r. task_matches_criteria t (ru_criteria r)) deployment_plan_ruleset"

text \<open>A task whose tag is not one of the tags of a deployment gets the group of unmatched tasks,
  another the group of the first rule it matches; a task without match keeps a group it has.\<close>

definition setup_task_group :: "task \<Rightarrow> task" where
  "setup_task_group t =
     (if ta_tag_name t \<notin> insert None (Some ` set deployment_plan_tags)
      then t\<lparr>ta_group := unmatched_group_name deployment_plan_ruleset\<rparr>
      else (case matching_rule t of
        Some r \<Rightarrow> t\<lparr>ta_group := Some (ru_group r)\<rparr>
      | None \<Rightarrow> (if ta_group t = None then t\<lparr>ta_group := unmatched_group_name deployment_plan_ruleset\<rparr> else t)))"

definition setup_tasks_groups :: "task list \<Rightarrow> task list" where
  "setup_tasks_groups ts = map setup_task_group ts"

section \<open>The order of the groups\<close>

definition groups_graph :: "rule list \<Rightarrow> graph" where
  "groups_graph rs = map (\<lambda>r. (ru_group r, ru_requires r)) rs"

definition topsort_deployment_plan_groups :: "string list list" where
  "topsort_deployment_plan_groups = fst (topsort (groups_graph deployment_plan_ruleset))"

text \<open>\<open>GROUP_PRIORITY_INDEX\<close>: the layer of each group.\<close>

definition index_groups_by_priority :: "(string \<times> nat) list" where
  "index_groups_by_priority =
     concat (map (\<lambda>(i, gs). map (\<lambda>g. (g, i)) gs) (zip [0..<length topsort_deployment_plan_groups] topsort_deployment_plan_groups))"

definition all_groups_sequence :: "string list" where
  "all_groups_sequence = concat topsort_deployment_plan_groups"

definition CLUSTER_GROUP_SEQUENCE :: "string list" where
  "CLUSTER_GROUP_SEQUENCE = filter (\<lambda>g. group_requires_cluster_sorting g = Inr True) all_groups_sequence"

definition PER_CLUSTER_GROUPS :: string where
  "PER_CLUSTER_GROUPS = ''cluster_phases''"

text \<open>The groups of the clusters are replaced by one entry for all of them.\<close>

definition PLAN_GROUP_SEQUENCE :: "string list" where
  "PLAN_GROUP_SEQUENCE =
     (case CLUSTER_GROUP_SEQUENCE of
        [] \<Rightarrow> all_groups_sequence
      | c # _ \<Rightarrow>
          (let first = length (takeWhile (\<lambda>g. g \<noteq> c) all_groups_sequence)
           in take first all_groups_sequence @ [PER_CLUSTER_GROUPS] @
              drop (first + length CLUSTER_GROUP_SEQUENCE) all_groups_sequence))"

lemma deployment_layers:
  "topsort_deployment_plan_groups =
     [[''DEPLOYMENT_MS_GROUP''], [''DEPLOYMENT_BOOT_GROUP''], [''DEPLOYMENT_PRE_CLUSTER_GROUP''],
      [''DEPLOYMENT_PRE_NODE_CLUSTER_GROUP''], [''DEPLOYMENT_UPGRADE_BOOT_GROUP''], [''DEPLOYMENT_VXVM_UPGRADE_GROUP''],
      [''DEPLOYMENT_NODE_GROUP''], [''DEPLOYMENT_CLUSTER_GROUP''], [''DEPLOYMENT_POST_CLUSTER_GROUP'']]"
  by code_simp

lemma deployment_sequences [code]:
  "PLAN_GROUP_SEQUENCE =
     [''DEPLOYMENT_MS_GROUP'', ''DEPLOYMENT_BOOT_GROUP'', ''DEPLOYMENT_PRE_CLUSTER_GROUP'', ''cluster_phases'',
      ''DEPLOYMENT_POST_CLUSTER_GROUP'']"
  "CLUSTER_GROUP_SEQUENCE =
     [''DEPLOYMENT_PRE_NODE_CLUSTER_GROUP'', ''DEPLOYMENT_UPGRADE_BOOT_GROUP'', ''DEPLOYMENT_VXVM_UPGRADE_GROUP'',
      ''DEPLOYMENT_NODE_GROUP'', ''DEPLOYMENT_CLUSTER_GROUP'']"
  by (simp_all add: PLAN_GROUP_SEQUENCE_def CLUSTER_GROUP_SEQUENCE_def all_groups_sequence_def deployment_layers
      group_requires_cluster_sorting_def groups_cluster_sorted_def PER_CLUSTER_GROUPS_def)

section \<open>Snapshot plans\<close>

definition lower_char :: "char \<Rightarrow> char" where
  "lower_char c = (let n = of_char c :: nat in if 65 \<le> n \<and> n \<le> 90 then char_of (n + 32) else c)"

definition lower :: "string \<Rightarrow> string" where
  "lower s = map lower_char s"

definition snapshot_ruleset :: "string \<Rightarrow> rule list option" where
  "snapshot_ruleset plan_type =
     map_of [(''create_snapshot'', create_snapshot_ruleset), (''remove_snapshot'', remove_snapshot_ruleset),
       (''restore_snapshot'', restore_snapshot_ruleset)] (lower plan_type)"

definition snapshot_valid_tags :: "string \<Rightarrow> string list" where
  "snapshot_valid_tags plan_type =
     (case map_of [(''create_snapshot'', create_snapshot_tags), (''remove_snapshot'', remove_snapshot_tags),
       (''restore_snapshot'', restore_snapshot_tags)] (lower plan_type) of Some ts \<Rightarrow> ts | None \<Rightarrow> [])"

fun snapshot_attribute :: "task \<Rightarrow> string \<Rightarrow> attribute" where
  "snapshot_attribute t key =
     (if key = ''task_type'' then TextAttr (class_name (ta_class t))
      else if key = ''tag_name'' then tag_attribute t else NoAttr)"

text \<open>A task with a tag of another kind of plan matches nothing, and nothing matches no criteria.\<close>

definition snapshot_matches :: "string list \<Rightarrow> task \<Rightarrow> rule \<Rightarrow> bool" where
  "snapshot_matches tags t r =
     (if ta_tag_name t \<noteq> None \<and> ta_tag_name t \<notin> Some ` set tags then False
      else concat (ru_criteria r) \<noteq> [] \<and>
        list_all (\<lambda>(key, expected). snapshot_attribute t key = expected) (concat (ru_criteria r)))"

definition extract_ruleset_group :: "string list \<Rightarrow> rule list \<Rightarrow> task \<Rightarrow> string option" where
  "extract_ruleset_group tags rs t =
     (case List.find (snapshot_matches tags t) rs of
        Some r \<Rightarrow> Some (ru_group r) | None \<Rightarrow> unmatched_group_name rs)"

definition add_to_group :: "(task \<Rightarrow> string option) \<Rightarrow> task \<Rightarrow> (string \<times> task list) list \<Rightarrow> (string \<times> task list) list res" where
  "add_to_group group_of t groups =
     (case group_of t of
        None \<Rightarrow> Inl (KeyError ''None'')
      | Some g \<Rightarrow>
          (case map_of groups g of
             None \<Rightarrow> Inl (KeyError g)
           | Some ts \<Rightarrow> Inr (AList.update g (ts @ [t]) groups)))"

definition topsort_groups :: "rule list \<Rightarrow> string list res" where
  "topsort_groups rs = (case topsort (groups_graph rs) of (ls, None) \<Rightarrow> Inr (concat ls) | (ls, Some e) \<Rightarrow> Inl e)"

definition group_tasks :: "string list \<Rightarrow> rule list \<Rightarrow> task list \<Rightarrow> (string \<times> task list) list res" where
  "group_tasks tags rs ts =
     rbind (topsort_groups rs) (\<lambda>groups.
     rbind (for_res (add_to_group (extract_ruleset_group tags rs)) ts (map (\<lambda>g. (g, [])) groups)) (\<lambda>d.
       Inr (map (\<lambda>g. (g, the (map_of d g))) groups)))"

definition snapshot_build :: "string \<Rightarrow> task list \<Rightarrow> task list list res" where
  "snapshot_build plan_type ts =
     (case snapshot_ruleset plan_type of
        None \<Rightarrow> Inl (TypeError ''NoneType object is not iterable'')
      | Some rs \<Rightarrow>
          rbind (group_tasks (snapshot_valid_tags plan_type) rs ts) (\<lambda>gs.
            Inr (filter (\<lambda>p. p \<noteq> []) (map snd gs))))"

section \<open>What a snapshot plan holds\<close>

lemma for_add_to_group:
  assumes "distinct gl" and "\<forall>t \<in> set ts. \<exists>g \<in> set gl. group_of t = Some g"
  shows "for_res (add_to_group group_of) ts (map (\<lambda>g. (g, f g)) gl) =
    Inr (map (\<lambda>g. (g, f g @ filter (\<lambda>t. group_of t = Some g) ts)) gl)"
  using assms(2)
proof (induction ts arbitrary: f)
  case (Cons t ts)
  then obtain g where g: "g \<in> set gl" "group_of t = Some g" by auto
  have "map_of (map (\<lambda>g. (g, f g)) gl) g = Some (f g)" using g(1) by (simp add: map_of_map_restrict)
  moreover have "AList.update g v (map (\<lambda>g. (g, f g)) gl) = map (\<lambda>h. (h, if h = g then v else f h)) gl" for v
    using assms(1) g(1) by (induction gl) auto
  ultimately have "add_to_group group_of t (map (\<lambda>g. (g, f g)) gl) =
      Inr (map (\<lambda>h. (h, if h = g then f g @ [t] else f h)) gl)"
    by (simp add: add_to_group_def g(2))
  with Cons.IH [of "\<lambda>h. if h = g then f g @ [t] else f h"] Cons.prems g(2) show ?case by auto
qed simp

definition position :: "string list \<Rightarrow> string \<Rightarrow> nat" where
  "position gl g = length (takeWhile (\<lambda>h. h \<noteq> g) gl)"

lemma position_sorted: "distinct gl \<Longrightarrow> sorted_wrt (\<lambda>g h. position gl g < position gl h) gl"
  unfolding sorted_wrt_iff_nth_less position_def by (simp add: index_nth)

text \<open>The groups a rule requires.\<close>

definition requires_group :: "rule list \<Rightarrow> (string \<times> string) set" where
  "requires_group rs = {(ru_group r, g) | r g. r \<in> set rs \<and> g \<in> set (ru_requires r)}"

text \<open>A set of rules is sound when its groups can be ordered, there is a group for the tasks that
  match nothing, and every group comes after those it requires.\<close>

definition ruleset_ok :: "rule list \<Rightarrow> string list \<Rightarrow> bool" where
  "ruleset_ok rs gl \<longleftrightarrow>
     topsort_groups rs = Inr gl \<and> distinct gl \<and> list_all (\<lambda>r. ru_group r \<in> set gl) rs \<and> list_ex ru_unmatched rs \<and>
     list_all (\<lambda>r. list_all (\<lambda>g. position gl g < position gl (ru_group r)) (ru_requires r)) rs"

lemma extract_in_groups:
  assumes "ruleset_ok rs gl"
  shows "\<exists>g \<in> set gl. extract_ruleset_group tags rs t = Some g"
proof (cases "List.find (snapshot_matches tags t) rs")
  case None
  obtain r where "List.find ru_unmatched rs = Some r"
    using assms by (cases "List.find ru_unmatched rs") (auto simp: ruleset_ok_def find_None_iff list_ex_iff)
  moreover from this have "r \<in> set rs" by (auto simp: find_Some_iff)
  ultimately show ?thesis
    using None assms by (auto simp: extract_ruleset_group_def unmatched_group_name_def ruleset_ok_def list_all_iff)
next
  case (Some r)
  then have "r \<in> set rs" by (auto simp: find_Some_iff)
  with Some assms show ?thesis by (auto simp: extract_ruleset_group_def ruleset_ok_def list_all_iff)
qed

lemma group_tasks_result:
  assumes "ruleset_ok rs gl"
  shows "group_tasks tags rs ts = Inr (map (\<lambda>g. (g, filter (\<lambda>t. extract_ruleset_group tags rs t = Some g) ts)) gl)"
proof -
  let ?G = "extract_ruleset_group tags rs"
  have "for_res (add_to_group ?G) ts (map (\<lambda>g. (g, [])) gl) = Inr (map (\<lambda>g. (g, filter (\<lambda>t. ?G t = Some g) ts)) gl)"
    using for_add_to_group [of gl ts ?G "\<lambda>g. []"] extract_in_groups [OF assms] assms by (simp add: ruleset_ok_def)
  moreover have "the (map_of (map (\<lambda>g. (g, f g)) gl) g) = f g" if "g \<in> set gl" for f :: "string \<Rightarrow> task list" and g
    using that by (simp add: map_of_map_restrict)
  ultimately show ?thesis using assms by (simp add: group_tasks_def ruleset_ok_def)
qed

lemma mset_groups:
  "distinct gl \<Longrightarrow> mset (concat (map (\<lambda>g. filter (\<lambda>t. G t = Some g) ts) gl)) =
    filter_mset (\<lambda>t. \<exists>g \<in> set gl. G t = Some g) (mset ts)"
proof (induction gl)
  case (Cons g gl)
  then have "g \<notin> set gl" by simp
  then have "mset (filter (\<lambda>t. G t = Some g) ts) + filter_mset (\<lambda>t. \<exists>h \<in> set gl. G t = Some h) (mset ts) =
      filter_mset (\<lambda>t. \<exists>h \<in> set (g # gl). G t = Some h) (mset ts)"
    by (induction ts) auto
  with Cons show ?case by simp
qed simp

lemma position_requires:
  assumes "ruleset_ok rs gl"
  shows "(g, h) \<in> (requires_group rs)\<^sup>+ \<Longrightarrow> position gl h < position gl g"
proof (induction rule: trancl_induct)
  case (base h)
  with assms show ?case by (auto simp: requires_group_def ruleset_ok_def list_all_iff)
next
  case (step h k)
  then have "position gl k < position gl h" using assms by (auto simp: requires_group_def ruleset_ok_def list_all_iff)
  with step.IH show ?case by simp
qed

text \<open>The phases of a sound set of rules.\<close>

lemma grouped_phases:
  assumes ok: "ruleset_ok rs gl" and "group_tasks tags rs ts = Inr gs"
  defines "ps \<equiv> filter (\<lambda>p. p \<noteq> []) (map snd gs)" and "G \<equiv> extract_ruleset_group tags rs"
  shows "mset (concat ps) = mset ts \<and> [] \<notin> set ps \<and>
    (\<forall>i j t u g h. i < length ps \<longrightarrow> j < length ps \<longrightarrow> t \<in> set (ps ! i) \<longrightarrow> u \<in> set (ps ! j) \<longrightarrow> G t = Some g \<longrightarrow> G u = Some h \<longrightarrow>
      (g = h \<longrightarrow> i = j) \<and> ((g, h) \<in> (requires_group rs)\<^sup>+ \<longrightarrow> j < i))"
proof -
  let ?f = "\<lambda>g. filter (\<lambda>t. G t = Some g) ts" and ?pos = "\<lambda>t. position gl (the (G t))"
  have "gs = map (\<lambda>g. (g, ?f g)) gl"
    using assms(2) group_tasks_result [OF ok, of tags ts] by (simp add: G_def)
  then have ps: "ps = filter (\<lambda>p. p \<noteq> []) (map ?f gl)" by (simp add: ps_def o_def)
  have d: "distinct gl" using ok by (simp add: ruleset_ok_def)
  have "concat ps = concat (map ?f gl)" by (simp add: ps concat_nonempty)
  then have "mset (concat ps) = filter_mset (\<lambda>t. \<exists>g \<in> set gl. G t = Some g) (mset ts)"
    using mset_groups [OF d, of G ts] by simp
  moreover have "\<forall>t \<in># mset ts. \<exists>g \<in> set gl. G t = Some g" using extract_in_groups [OF ok] by (simp add: G_def)
  ultimately have m: "mset (concat ps) = mset ts" by (simp add: filter_mset_eq_conv)
  have "sorted_wrt (\<lambda>p q. \<forall>t \<in> set p. \<forall>u \<in> set q. ?pos t < ?pos u) (map ?f gl)"
    unfolding sorted_wrt_map by (rule sorted_wrt_mono_rel [OF _ position_sorted [OF d]]) simp
  then have s: "sorted_wrt (\<lambda>p q. \<forall>t \<in> set p. \<forall>u \<in> set q. ?pos t < ?pos u) ps"
    unfolding ps by (rule sorted_wrt_filter)
  have order: "?pos t < ?pos u" if "i < j" "j < length ps" "t \<in> set (ps ! i)" "u \<in> set (ps ! j)" for i j t u
    using sorted_wrt_nth_less [OF s that(1,2)] that(3,4) by blast
  have same: "G t = G u" if "i < length ps" "t \<in> set (ps ! i)" "u \<in> set (ps ! i)" for i t u
  proof -
    have "ps ! i \<in> set ps" using that(1) by simp
    then obtain g where "ps ! i = ?f g" unfolding ps by auto
    with that show ?thesis by auto
  qed
  have "(g = h \<longrightarrow> i = j) \<and> ((g, h) \<in> (requires_group rs)\<^sup>+ \<longrightarrow> j < i)"
    if i: "i < length ps" "j < length ps" "t \<in> set (ps ! i)" "u \<in> set (ps ! j)" "G t = Some g" "G u = Some h" for i j t u g h
  proof -
    consider "i < j" | "i = j" | "j < i" by linarith
    then show ?thesis
    proof cases
      case 1
      with order [of i j t u] i position_requires [OF ok, of g h] show ?thesis by auto
    next
      case 2
      with same [of i t u] i position_requires [OF ok, of g h] show ?thesis by auto
    next
      case 3
      with order [of j i u t] i show ?thesis by auto
    qed
  qed
  with m show ?thesis by (auto simp: ps)
qed

text \<open>In the snapshot rules every group requires the one before it.\<close>

fun chain_from :: "string \<Rightarrow> string list \<Rightarrow> graph" where
  "chain_from p [] = []"
| "chain_from p (g # gs) = (g, [p]) # chain_from g gs"

fun chain :: "string list \<Rightarrow> graph" where
  "chain [] = []"
| "chain (g # gs) = (g, []) # chain_from g gs"

lemma chain_from_keys: "(n, ds) \<in> set (chain_from p gs) \<Longrightarrow> n \<in> set gs \<and> ds \<noteq> [] \<and> set ds \<subseteq> insert p (set gs)"
  by (induction gs arbitrary: p) auto

lemma drop_from:
  "L \<inter> set gs = {} \<Longrightarrow>
    map (\<lambda>(n, dep). (n, filter (\<lambda>d. d \<notin> L) dep)) (filter (\<lambda>(n, dep). n \<notin> L) (chain_from p gs)) =
      (if p \<in> L then chain gs else chain_from p gs)"
  by (induction gs arbitrary: p) auto

lemma topsort_loop_chain: "distinct gs \<Longrightarrow> topsort_loop (chain gs) = (map (\<lambda>g. [g]) gs, [])"
proof (induction gs)
  case Nil
  then show ?case by (simp add: topsort_loop.simps leaf_nodes_def)
next
  case (Cons g gs)
  have none: "filter (\<lambda>(n, dep). dep = []) (chain_from g gs) = []"
    by (auto simp: filter_empty_conv dest: chain_from_keys)
  then have leaf: "leaf_nodes (chain (g # gs)) = [g]" by (simp add: leaf_nodes_def)
  have "drop_leaves (chain (g # gs)) = chain gs"
    unfolding drop_leaves_def leaf using drop_from [of "{g}" gs g] Cons.prems by simp
  with leaf have "topsort_loop (chain (g # gs)) = (case topsort_loop (chain gs) of (ls, r) \<Rightarrow> ([g] # ls, r))"
    by (subst topsort_loop.simps) (simp del: chain.simps)
  with Cons show ?case by simp
qed

lemma topsort_chain:
  assumes "distinct gs"
  shows "topsort (chain gs) = (map (\<lambda>g. [g]) gs, None)"
proof (cases gs)
  case (Cons g hs)
  have self: "discard_self (chain_from p ks) = chain_from p ks" if "p \<notin> set ks" "distinct ks" for p ks
    using that by (induction ks arbitrary: p) (auto simp: discard_self_def)
  have keys: "map fst (chain_from p ks) = ks" for p ks by (induction ks arbitrary: p) simp_all
  have vals: "set (concat (map snd (chain_from p ks))) \<subseteq> insert p (set ks)" for p ks by (induction ks arbitrary: p) auto
  have "discard_self (chain gs) = chain gs" using assms Cons self [of g hs] by (simp add: discard_self_def)
  moreover have "nodes_not_in_keys (chain gs) = []"
    using vals [of g hs] Cons by (auto simp: nodes_not_in_keys_def filter_empty_conv keys simp del: set_concat set_map)
  ultimately show ?thesis
    using Cons topsort_loop_chain [OF assms] by (simp add: topsort_def add_missing_nodes_def)
qed (simp add: topsort_def)

lemma chain_rules_ok:
  assumes "groups_graph rs = chain (map ru_group rs)" and "distinct (map ru_group rs)" and "list_ex ru_unmatched rs"
    and "list_all (\<lambda>r. list_all (\<lambda>g. position (map ru_group rs) g < position (map ru_group rs) (ru_group r)) (ru_requires r)) rs"
  shows "ruleset_ok rs (map ru_group rs)"
  using assms topsort_chain [OF assms(2)]
  by (simp add: ruleset_ok_def topsort_groups_def o_def list_all_iff)

lemma create_snapshot_rules: "ruleset_ok create_snapshot_ruleset (map ru_group create_snapshot_ruleset)"
  by (rule chain_rules_ok) (simp_all add: create_snapshot_ruleset_def groups_graph_def position_def)

lemma remove_snapshot_rules: "ruleset_ok remove_snapshot_ruleset (map ru_group remove_snapshot_ruleset)"
  by (rule chain_rules_ok) (simp_all add: remove_snapshot_ruleset_def groups_graph_def position_def)

lemma restore_snapshot_rules: "ruleset_ok restore_snapshot_ruleset (map ru_group restore_snapshot_ruleset)"
  by (rule chain_rules_ok) (simp_all add: restore_snapshot_ruleset_def groups_graph_def position_def)

lemma snapshot_rulesets_ok:
  assumes "snapshot_ruleset plan_type = Some rs"
  shows "\<exists>gl. ruleset_ok rs gl"
  using assms create_snapshot_rules remove_snapshot_rules restore_snapshot_rules
  by (auto simp: snapshot_ruleset_def split: if_splits)

text \<open>C40: a snapshot plan of a known kind can always be built from any tasks; it has every task
  exactly once, no empty phase, the tasks of a group in one phase, and every group in a later phase
  than the groups it requires, directly or through groups without tasks.\<close>

theorem snapshot_plan_grouped:
  assumes "snapshot_ruleset plan_type = Some rs"
  shows "\<exists>ps. snapshot_build plan_type ts = Inr ps \<and> mset (concat ps) = mset ts \<and> [] \<notin> set ps \<and>
    (\<forall>i j t u g h. i < length ps \<longrightarrow> j < length ps \<longrightarrow> t \<in> set (ps ! i) \<longrightarrow> u \<in> set (ps ! j) \<longrightarrow>
      extract_ruleset_group (snapshot_valid_tags plan_type) rs t = Some g \<longrightarrow>
      extract_ruleset_group (snapshot_valid_tags plan_type) rs u = Some h \<longrightarrow>
      (g = h \<longrightarrow> i = j) \<and> ((g, h) \<in> (requires_group rs)\<^sup>+ \<longrightarrow> j < i))"
proof -
  obtain gl where ok: "ruleset_ok rs gl" using snapshot_rulesets_ok [OF assms] by blast
  obtain gs where gs: "group_tasks (snapshot_valid_tags plan_type) rs ts = Inr gs"
    using group_tasks_result [OF ok] by blast
  with grouped_phases [OF ok gs] assms show ?thesis by (simp add: snapshot_build_def)
qed

definition snapshot_tasks :: "task list" where
  "snapshot_tasks =
     [sample_task ''a'' CallbackTaskC [],
      (sample_task ''b'' CallbackTaskC [])\<lparr>ta_tag_name := Some ''CREATE_SNAPSHOT_VALIDATION_TAG''\<rparr>]"

theorem snapshot_plan_grouped_witness:
  "\<exists>ps. snapshot_build ''Create_Snapshot'' snapshot_tasks = Inr ps \<and> mset (concat ps) = mset snapshot_tasks \<and>
    map (map ta_key) ps = [[''b''], [''a'']]"
proof -
  have rs: "snapshot_ruleset ''Create_Snapshot'' = Some create_snapshot_ruleset" by code_simp
  have "map (map ta_key) (filter (\<lambda>p. p \<noteq> []) (map (\<lambda>g. filter (\<lambda>t.
      extract_ruleset_group (snapshot_valid_tags ''Create_Snapshot'') create_snapshot_ruleset t = Some g) snapshot_tasks)
      (map ru_group create_snapshot_ruleset))) = [[''b''], [''a'']]" by code_simp
  then have "\<exists>ps. snapshot_build ''Create_Snapshot'' snapshot_tasks = Inr ps \<and> map (map ta_key) ps = [[''b''], [''a'']]"
    by (simp add: snapshot_build_def rs group_tasks_result [OF create_snapshot_rules] o_def)
  with snapshot_plan_grouped [OF rs, of snapshot_tasks] show ?thesis by auto
qed

text \<open>The group of a tagged task of a deployment is that of its tag, whatever the task is.\<close>

definition group_of_tag :: "string \<Rightarrow> string option" where
  "group_of_tag tag = map_of (zip deployment_plan_tags
     [''DEPLOYMENT_MS_GROUP'', ''DEPLOYMENT_BOOT_GROUP'', ''DEPLOYMENT_UPGRADE_BOOT_GROUP'', ''DEPLOYMENT_VXVM_UPGRADE_GROUP'',
      ''DEPLOYMENT_NODE_GROUP'', ''DEPLOYMENT_CLUSTER_GROUP'', ''DEPLOYMENT_PRE_NODE_CLUSTER_GROUP'',
      ''DEPLOYMENT_PRE_CLUSTER_GROUP'', ''DEPLOYMENT_POST_CLUSTER_GROUP'']) tag"

text \<open>The group of an untagged task follows from where it runs: that of the management server, of a
  node, or, for a callback task, of a cluster.\<close>

fun place_group :: "task_class \<Rightarrow> task \<Rightarrow> string option" where
  "place_group ConfigTaskC t =
     (case ta_node t of
        Live q \<Rightarrow> Some (if item_is_ms q then ''DEPLOYMENT_MS_GROUP'' else ''DEPLOYMENT_NODE_GROUP'')
      | Gone v \<Rightarrow> None)"
| "place_group CleanupTaskC t = None"
| "place_group c t =
     (case ta_item t of
        Live q \<Rightarrow>
          (if qi_ms q \<noteq> None then Some ''DEPLOYMENT_MS_GROUP''
           else if qi_node q \<noteq> None then Some ''DEPLOYMENT_NODE_GROUP''
           else if c = CallbackTaskC \<and> qi_cluster q \<noteq> None then Some ''DEPLOYMENT_CLUSTER_GROUP''
           else None)
      | Gone v \<Rightarrow> None)"

definition ms_answers :: "task \<Rightarrow> bool" where
  "ms_answers t \<longleftrightarrow> (case ta_item t of Live q \<Rightarrow> (case qi_ms q of Some m \<Rightarrow> nd_is_ms m | None \<Rightarrow> True) | Gone v \<Rightarrow> True)"

lemma tagged_rule:
  "ta_tag_name t = Some n \<Longrightarrow> n \<in> set deployment_plan_tags \<Longrightarrow> map_option ru_group (matching_rule t) = group_of_tag n"
  by (auto simp: deployment_plan_tags_def matching_rule_def deployment_plan_ruleset_def task_attribute_def tag_attribute_def
      group_of_tag_def)

lemma untagged_rule:
  "ta_tag_name t = None \<Longrightarrow> ms_answers t \<Longrightarrow> map_option ru_group (matching_rule t) = place_group (ta_class t) t"
  by (cases "ta_class t"; cases "ta_item t"; cases "ta_node t")
    (auto simp: matching_rule_def deployment_plan_ruleset_def task_attribute_def tag_attribute_def is_config_def ms_answers_def
      split: option.splits)

lemma query_item_ms_answers:
  assumes "query_item types st i = Inr q" and "ta_item t = Live q"
  shows "ms_answers t"
proof -
  have "nd_is_ms m" if "qi_ms q = Some m" for m
  proof -
    from assms(1) obtain n' m' where "get_ms types st i = Inr m'" "opt_res (node_ref_of types st) m' = Inr (qi_ms q)"
      by (auto simp: query_item_def rbind_Inr_iff)
    with that show ?thesis
      by (cases m') (auto simp: get_ms_def rbind_Inr_iff node_ref_of_def find_Some_iff)
  qed
  then show ?thesis using assms(2) by (simp add: ms_answers_def split: option.split)
qed

text \<open>A task of a deployment is put into the group of its tag; without tag, into the group of
  where it runs, and only when there is none it keeps the group it had; a tag of another kind of plan
  and a task nothing is known of lead to the group of the management server. Nothing else of the task
  changes.\<close>

theorem deployment_group_assigned:
  assumes "ms_answers t"
  shows "setup_task_group t = t\<lparr>ta_group :=
    (case ta_tag_name t of
       Some n \<Rightarrow> if n \<in> set deployment_plan_tags then group_of_tag n else Some ''DEPLOYMENT_MS_GROUP''
     | None \<Rightarrow> (case place_group (ta_class t) t of
         Some g \<Rightarrow> Some g
       | None \<Rightarrow> (case ta_group t of Some g \<Rightarrow> Some g | None \<Rightarrow> Some ''DEPLOYMENT_MS_GROUP'')))\<rparr>"
proof -
  have u: "unmatched_group_name deployment_plan_ruleset = Some ''DEPLOYMENT_MS_GROUP''" by code_simp
  have tags: "group_of_tag n \<noteq> None" if "n \<in> set deployment_plan_tags" for n
    using that by (auto simp: deployment_plan_tags_def group_of_tag_def)
  show ?thesis
  proof (cases "ta_tag_name t")
    case None
    note r = untagged_rule [OF None assms, symmetric]
    show ?thesis
      by (cases "matching_rule t"; cases "ta_group t") (simp_all add: setup_task_group_def None r u)
  next
    case (Some n)
    show ?thesis
    proof (cases "n \<in> set deployment_plan_tags")
      case True
      note r = tagged_rule [OF Some True, symmetric]
      show ?thesis
        using tags [OF True] by (cases "matching_rule t") (simp_all add: setup_task_group_def Some True r)
    next
      case False
      then show ?thesis by (simp add: setup_task_group_def Some u image_iff)
    qed
  qed
qed

theorem deployment_group_assigned_witness:
  "ta_group (setup_task_group (sample_task ''a'' ConfigTaskC [])) = Some ''DEPLOYMENT_NODE_GROUP''"
proof -
  have m: "ms_answers (sample_task ''a'' ConfigTaskC [])" by code_simp
  show ?thesis
    unfolding deployment_group_assigned [OF m] by (simp add: sample_task_def sample_item_def item_is_ms_def)
qed

end
