(* ===== verification/Plan_Builder.thy ===== *)
theory Plan_Builder
  imports Task_Groups
begin

text \<open>
  The plan builder of \<open>litp/core/plan_builder.py\<close> around the sorting of a group: how the tasks of an
  interrupted plan and the new ones are merged, the marks put on them, the order of the nodes of a
  cluster, the phases of a cluster with the lock and unlock tasks around the tasks of a node, and the
  composition of the groups to the phases of a plan.
\<close>

section \<open>Configuration items\<close>

text \<open>Of a configuration item the type id and the path; \<open>None\<close> stands for a cluster or a node
  without \<open>configs\<close>, at which the code stops looking.\<close>

type_synonym config_item = "string \<times> string"

definition special_config_item_ids :: "string list" where
  "special_config_item_ids = [''firewall-cluster-config'', ''firewall-node-config'']"

definition add_config :: "config_item \<Rightarrow> string list \<times> string list \<Rightarrow> string list \<times> string list" where
  "add_config c st =
     (case st of (fw, norm) \<Rightarrow>
        if fst c \<in> set special_config_item_ids then (fw @ [snd c], norm) else (fw, norm @ [snd c]))"

fun add_until_missing :: "config_item list option list \<Rightarrow> string list \<times> string list \<Rightarrow> string list \<times> string list" where
  "add_until_missing [] st = st"
| "add_until_missing (None # ns) st = st"
| "add_until_missing (Some cs # ns) st = add_until_missing ns (fold add_config cs st)"

definition get_cluster_configs_vpaths ::
  "(config_item list option \<times> config_item list option list) list \<Rightarrow> string list \<times> string list" where
  "get_cluster_configs_vpaths clusters =
     fold (\<lambda>(own, nodes) st. add_until_missing nodes (add_until_missing [own] st)) clusters ([], [])"

definition get_ms_configs_vpaths :: "config_item list option list \<Rightarrow> string list \<times> string list" where
  "get_ms_configs_vpaths mss = add_until_missing mss ([], [])"

section \<open>Merging with an interrupted plan\<close>

text \<open>The index of the last current task with each unique id; a current task that has been replaced
  by the earlier one leaves a gap.\<close>

definition current_uids :: "task list \<Rightarrow> (string \<times> nat) list" where
  "current_uids ts = fold (\<lambda>(t, i) d. AList.update (ta_unique_id t) i d) (zip ts [0..<length ts]) []"

definition merge_task ::
  "(string \<times> nat) list \<Rightarrow> task \<Rightarrow> task list \<times> task option list \<Rightarrow> (task list \<times> task option list) res" where
  "merge_task uids p st =
     (case st of (tasks, current) \<Rightarrow>
        case map_of uids (ta_unique_id p) of
          None \<Rightarrow> Inr (tasks @ [p], current)
        | Some i \<Rightarrow>
            (case current ! i of
               None \<Rightarrow> Inr (tasks, current)
             | Some c \<Rightarrow>
                 (if task_eq p c \<and> ta_group p = ta_group c then
                    rbind (associated_items_determinable [p]) (\<lambda>det.
                      Inr (tasks @ [if det then p else p\<lparr>ta_state := TaskInitial\<rparr>], current[i := None]))
                  else Inr (tasks, current))))"

definition somes :: "'a option list \<Rightarrow> 'a list" where
  "somes xs = concat (map (\<lambda>x. case x of Some a \<Rightarrow> [a] | None \<Rightarrow> []) xs)"

definition merge_prev_successful_and_current_tasks :: "task list \<Rightarrow> task list \<Rightarrow> task list res" where
  "merge_prev_successful_and_current_tasks previous current =
     (if previous = [] then Inr current
      else rbind (for_res (merge_task (current_uids current)) previous ([], map Some current)) (\<lambda>(tasks, cur).
        Inr (tasks @ somes cur)))"

section \<open>Marks on the tasks\<close>

definition net_task_item_types :: "string list" where
  "net_task_item_types = [''network-interface'', ''firewall-node-config'', ''firewall-cluster-config'', ''firewall-rule'']"

text \<open>The tasks of a package wait for the repositories of its node; \<open>repositories\<close> gives the paths of
  those of a node that are not on their way out.\<close>

definition update_package_task :: "(string \<Rightarrow> string list) \<Rightarrow> task \<Rightarrow> task res" where
  "update_package_task repositories t =
     rbind (live ''_model_item'' (ta_item t)) (\<lambda>q.
       if is_instance q ''package'' then
         (case node_or_ms q of
            None \<Rightarrow> Inr t
          | Some n \<Rightarrow>
              rbind (is_deconfigure t) (\<lambda>dc.
                Inr (if dc then t
                     else t\<lparr>ta_requires := ta_requires t @
                       filter (\<lambda>d. d \<notin> set (ta_requires t)) (map OnQuery (repositories (nd_vpath n)))\<rparr>)))
       else Inr t)"

definition mark_net_task :: "task \<Rightarrow> task res" where
  "mark_net_task t =
     rbind (live ''_model_item'' (ta_item t)) (\<lambda>q.
       if list_ex (is_instance q) net_task_item_types
       then rbind (is_deconfigure t) (\<lambda>dc. Inr (t\<lparr>ta_net_task := \<not> dc\<rparr>))
       else Inr (t\<lparr>ta_net_task := False\<rparr>))"

text \<open>Updates of the address of a bond go into the group of the VxVM upgrade of their node.\<close>

definition vxvm_nodes :: "task list \<Rightarrow> string list res" where
  "vxvm_nodes ts =
     map_res (\<lambda>t. rbind (live ''get_node'' (ta_item t)) (\<lambda>q.
       case qi_node q of Some n \<Rightarrow> Inr (nd_hostname n) | None \<Rightarrow> Inl (AttributeError ''hostname'')))
       (filter (\<lambda>t. ta_tag_name t = Some ''DEPLOYMENT_VXVM_UPGRADE_TAG'') ts)"

definition place_bond_task :: "string list \<Rightarrow> task \<Rightarrow> task res" where
  "place_bond_task nodes t =
     (if ta_pre_vxvm_bond t = Some True \<and> nodes \<noteq> [] then
        rbind (live ''hostname'' (ta_node t)) (\<lambda>q.
          Inr (t\<lparr>ta_pre_vxvm_bond := None,
            ta_group := (if node_hostname (ta_node t) \<in> set nodes then Some ''DEPLOYMENT_VXVM_UPGRADE_GROUP'' else ta_group t)\<rparr>))
      else Inr (t\<lparr>ta_pre_vxvm_bond := None\<rparr>))"

definition update_tasks :: "(string \<Rightarrow> string list) \<Rightarrow> task list \<Rightarrow> task list res" where
  "update_tasks repositories ts =
     rbind (map_res (\<lambda>t. rbind (update_package_task repositories t) mark_net_task) ts) (\<lambda>ts.
     rbind (vxvm_nodes ts) (\<lambda>nodes. map_res (place_bond_task nodes) ts))"

section \<open>The order of the nodes\<close>

text \<open>Of a cluster: its path, the ids and paths of its nodes, and the value of its view
  \<open>node_upgrade_ordering\<close>, if it has one.\<close>

record cluster_info =
  ci_vpath :: string
  ci_item_id :: string
  ci_nodes :: "(string \<times> string) list"
  ci_ordering :: "pyval option"

definition type_text :: "string \<Rightarrow> string" where
  "type_text n = ''<type '' @ [CHR 0x27] @ n @ [CHR 0x27] @ ''>''"

fun type_name :: "pyval \<Rightarrow> string" where
  "type_name PNone = ''NoneType''"
| "type_name (PBool b) = ''bool''"
| "type_name (PInt i) = ''int''"
| "type_name (PFloat s) = ''float''"
| "type_name (PStr s) = ''str''"
| "type_name (PList xs) = ''list''"
| "type_name (PTuple xs) = ''tuple''"
| "type_name (PSet xs) = ''set''"
| "type_name (PDict d) = ''dict''"
| "type_name (PFuture i p) = ''litp.core.future_property_value.FuturePropertyValue''"

fun is_text :: "pyval \<Rightarrow> bool" where
  "is_text (PStr s) = True"
| "is_text v = False"

fun text_of :: "pyval \<Rightarrow> string" where
  "text_of (PStr s) = s"
| "text_of v = []"

definition ordering_error :: "string \<Rightarrow> unit res" where
  "ordering_error msg = Inl (ViewError ([CHR 0x22] @ ''node_upgrade_ordering'' @ [CHR 0x22] @ msg))"

text \<open>The value must be a list of texts that names each node of the cluster once. The order in which
  a message lists several ids is that of a set.\<close>

definition validate_node_upgrade_ordering :: "pyval \<Rightarrow> string list \<Rightarrow> unit res" where
  "validate_node_upgrade_ordering v ids =
     (case v of
        PList xs \<Rightarrow>
          (case List.find (\<lambda>x. \<not> is_text x) xs of
             Some x \<Rightarrow> ordering_error ('' must be a list of '' @ [CHR 0x22] @ ''basestring'' @ [CHR 0x22] @ ''. '' @
               type_text (type_name x) @ '' found in the list'')
           | None \<Rightarrow>
               (let values = map text_of xs
                in case List.find (\<lambda>n. n \<notin> set ids) values of
                     Some n \<Rightarrow> ordering_error ('' contains a node id that is not present in the cluster: '' @ n)
                   | None \<Rightarrow>
                       (if \<not> distinct values then
                          ordering_error ('' contains duplicated node ids: '' @
                            join_with '' '' (remdups (filter (\<lambda>n. 1 < count_list values n) values)))
                        else if \<not> set ids \<subseteq> set values then
                          ordering_error ('' does not contain all the nodes within the cluster. Missing node ids: '' @
                            join_with '' '' (remdups (filter (\<lambda>n. n \<notin> set values) ids)))
                        else Inr ())))
      | _ \<Rightarrow> ordering_error ('' must return a list. '' @ type_text (type_name v) @ '' returned''))"

text \<open>A value that is false is ignored, as is a view that raises \<open>AttributeError\<close>.\<close>

fun py_true :: "pyval \<Rightarrow> bool" where
  "py_true PNone = False"
| "py_true (PBool b) = b"
| "py_true (PInt i) = (i \<noteq> 0)"
| "py_true (PFloat s) = (s \<noteq> ''0.0'')"
| "py_true (PStr s) = (s \<noteq> [])"
| "py_true (PList xs) = (xs \<noteq> [])"
| "py_true (PTuple xs) = (xs \<noteq> [])"
| "py_true (PSet xs) = (xs \<noteq> [])"
| "py_true (PDict d) = (d \<noteq> [])"
| "py_true (PFuture i p) = True"

definition get_node_ids :: "cluster_info \<Rightarrow> string list res" where
  "get_node_ids c =
     (let ids = map fst (ci_nodes c)
      in case ci_ordering c of
           None \<Rightarrow> Inr ids
         | Some v \<Rightarrow>
             (if py_true v then
                rbind (validate_node_upgrade_ordering v ids) (\<lambda>_.
                  Inr (case v of PList xs \<Rightarrow> map text_of xs | _ \<Rightarrow> ids))
              else Inr ids))"

text \<open>The paths of the nodes, in order; the first node with the id counts.\<close>

definition get_nodes :: "cluster_info \<Rightarrow> string list res" where
  "get_nodes c =
     rbind (get_node_ids c) (map_res (\<lambda>n.
       case map_of (ci_nodes c) n of Some v \<Rightarrow> Inr v | None \<Rightarrow> Inl IndexError))"

text \<open>Deployments are taken in the order of their ids, each with its own order of clusters.\<close>

definition get_ordered_clusters :: "(string \<times> cluster_info list) list \<Rightarrow> cluster_info list" where
  "get_ordered_clusters deployments = concat (map snd (sort_key fst deployments))"

section \<open>The tasks of a group\<close>

text \<open>What the builder asks of the model, besides the tasks: the node that was left locked with its
  cluster, which nodes exist, and the answers the sorting of a group needs.\<close>

record builder_env =
  be_dependencies :: "string list \<Rightarrow> graph res"
  be_child :: "string \<Rightarrow> string \<Rightarrow> qitem res"
  be_configs :: configs_vpaths
  be_repositories :: "string \<Rightarrow> string list"
  be_clusters :: "cluster_info list"
  be_left_locked :: "(string \<times> string option) option"
  be_exists :: "string \<Rightarrow> bool"

definition task_node_path :: "task \<Rightarrow> string res" where
  "task_node_path t =
     rbind (get_task_node t) (\<lambda>n. case n of Some v \<Rightarrow> Inr v | None \<Rightarrow> Inl (AttributeError ''vpath''))"

definition in_group :: "string \<Rightarrow> task \<Rightarrow> bool" where
  "in_group g t \<longleftrightarrow> ta_group t = Some g"

definition get_task_collection_for_group :: "string \<Rightarrow> string list option \<Rightarrow> task list \<Rightarrow> task list res" where
  "get_task_collection_for_group g nodes ts =
     (case nodes of
        None \<Rightarrow> Inr (filter (in_group g) ts)
      | Some vs \<Rightarrow>
          rbind (map_res (\<lambda>v. filter_res (\<lambda>t. if in_group g t then rbind (task_node_path t) (\<lambda>n. Inr (n = v)) else Inr False) ts) vs)
            (\<lambda>tss. Inr (concat tss)))"

definition get_task_collection_for_cluster :: "string \<Rightarrow> string \<Rightarrow> task list \<Rightarrow> task list res" where
  "get_task_collection_for_cluster g cluster ts =
     filter_res (\<lambda>t. if in_group g t then
         rbind (live ''get_cluster'' (ta_item t)) (\<lambda>q.
           Inr (case qi_cluster q of Some c \<Rightarrow> cl_vpath c = cluster | None \<Rightarrow> False))
       else Inr False) ts"

section \<open>The phases of a cluster\<close>

text \<open>Computations that raise or return a value with the next state, one for each element.\<close>

fun map_state :: "('a \<Rightarrow> 's \<Rightarrow> ('b \<times> 's) res) \<Rightarrow> 'a list \<Rightarrow> 's \<Rightarrow> ('b list \<times> 's) res" where
  "map_state f [] s = Inr ([], s)"
| "map_state f (x # xs) s =
     rbind (f x s) (\<lambda>(y, s). rbind (map_state f xs s) (\<lambda>(ys, s). Inr (y # ys, s)))"

text \<open>The tasks of a collection are sorted, and the tasks of the builder get the changes made to
  them.\<close>

definition replace_tasks :: "task list \<Rightarrow> task list \<Rightarrow> task list" where
  "replace_tasks us ts = map (\<lambda>t. case task_at us (ta_key t) of Some u \<Rightarrow> u | None \<Rightarrow> t) ts"

definition sort_collection :: "builder_env \<Rightarrow> task list \<Rightarrow> task list \<Rightarrow> task list \<Rightarrow> (phases \<times> task list) res" where
  "sort_collection env prev coll ts =
     rbind (sort_tasks (be_dependencies env) (be_child env) (be_configs env) prev coll) (\<lambda>(ps, us).
       Inr (ps, replace_tasks us ts))"

definition node_group_phases :: "builder_env \<Rightarrow> task list \<Rightarrow> string list \<Rightarrow> string \<Rightarrow> task list \<Rightarrow> (phases \<times> task list) res" where
  "node_group_phases env prev node_sequence v ts =
     rbind (map_state (\<lambda>g ts. rbind (get_task_collection_for_group g (Some [v]) ts) (\<lambda>coll. sort_collection env prev coll ts))
       node_sequence ts) (\<lambda>(pss, ts). Inr (concat pss, ts))"

text \<open>The lock and the unlock task of each node that has them.\<close>

type_synonym lock_tasks = "(string \<times> string \<times> string) list"

definition apply_lock_tasks :: "lock_tasks \<Rightarrow> string \<Rightarrow> phases \<Rightarrow> phases" where
  "apply_lock_tasks locks v ps =
     (case map_of locks v of Some (lock, unlock) \<Rightarrow> [[lock]] @ ps @ [[unlock]] | None \<Rightarrow> ps)"

definition lock_tasks_required :: "lock_tasks \<Rightarrow> string \<Rightarrow> phases \<Rightarrow> bool" where
  "lock_tasks_required locks v ps \<longleftrightarrow> has_key v locks \<and> ps \<noteq> []"

text \<open>The nodes that are locked come first, each with its tasks between its lock and its unlock
  task.\<close>

definition bracketed :: "lock_tasks \<Rightarrow> (string \<times> phases) list \<Rightarrow> phases" where
  "bracketed locks nps =
     concat (map (\<lambda>(v, ps). if lock_tasks_required locks v ps then apply_lock_tasks locks v ps else []) nps) @
     concat (map (\<lambda>(v, ps). if lock_tasks_required locks v ps then [] else ps) nps)"

definition locked_node_phases ::
  "builder_env \<Rightarrow> task list \<Rightarrow> lock_tasks \<Rightarrow> string list \<Rightarrow> string list \<Rightarrow> task list \<Rightarrow> (phases \<times> task list) res" where
  "locked_node_phases env prev locks node_sequence vs ts =
     rbind (map_state (node_group_phases env prev node_sequence) vs ts) (\<lambda>(pss, ts).
       Inr (bracketed locks (zip vs pss), ts))"

definition cluster_has_lock_tasks :: "builder_env \<Rightarrow> lock_tasks \<Rightarrow> cluster_info \<Rightarrow> bool" where
  "cluster_has_lock_tasks env locks c \<longleftrightarrow> list_ex (\<lambda>(v, _). prefix (ci_vpath c) v \<and> be_exists env v) locks"

definition LOCKED_NODE_PHASES :: string where
  "LOCKED_NODE_PHASES = ''node_lock_phases''"

definition node_sequence :: "string list" where
  "node_sequence = filter (\<lambda>g. is_node_group g = Inr True) CLUSTER_GROUP_SEQUENCE"

definition locked_sequence :: "string list" where
  "locked_sequence =
     (let first = length (takeWhile (\<lambda>g. g \<noteq> hd node_sequence) CLUSTER_GROUP_SEQUENCE)
      in take first CLUSTER_GROUP_SEQUENCE @ [LOCKED_NODE_PHASES] @
         drop (first + length node_sequence) CLUSTER_GROUP_SEQUENCE)"

definition cluster_group_phases ::
  "builder_env \<Rightarrow> task list \<Rightarrow> lock_tasks \<Rightarrow> cluster_info \<Rightarrow> string \<Rightarrow> task list \<Rightarrow> (phases \<times> task list) res" where
  "cluster_group_phases env prev locks c g ts =
     (if g = LOCKED_NODE_PHASES then
        rbind (get_nodes c) (\<lambda>vs. locked_node_phases env prev locks node_sequence vs ts)
      else rbind (is_node_group g) (\<lambda>node.
        rbind (if node then get_task_collection_for_group g (Some (map snd (ci_nodes c))) ts
               else get_task_collection_for_cluster g (ci_vpath c) ts) (\<lambda>coll. sort_collection env prev coll ts)))"

text \<open>The unlock task of a node that was left locked joins the first group of its cluster.\<close>

definition left_locked_unlock :: "builder_env \<Rightarrow> lock_tasks \<Rightarrow> cluster_info \<Rightarrow> phases res" where
  "left_locked_unlock env locks c =
     (case be_left_locked env of
        None \<Rightarrow> Inr []
      | Some (v, None) \<Rightarrow> Inl (AttributeError ''vpath'')
      | Some (v, Some cluster) \<Rightarrow>
          (if ci_vpath c = cluster \<and> locks \<noteq> [] then
             (case map_of locks v of Some (lock, unlock) \<Rightarrow> Inr [[unlock]] | None \<Rightarrow> Inl (KeyError v))
           else Inr []))"

definition get_cluster_phases ::
  "builder_env \<Rightarrow> task list \<Rightarrow> lock_tasks \<Rightarrow> cluster_info \<Rightarrow> task list \<Rightarrow> (phases \<times> task list) res" where
  "get_cluster_phases env prev locks c ts =
     (let sequence = (if cluster_has_lock_tasks env locks c then locked_sequence else CLUSTER_GROUP_SEQUENCE)
      in rbind (map_state (cluster_group_phases env prev locks c) sequence ts) (\<lambda>(pss, ts).
         rbind (left_locked_unlock env locks c) (\<lambda>unlock.
           Inr (concat (map (\<lambda>(g, ps). if g = ''DEPLOYMENT_PRE_NODE_CLUSTER_GROUP'' then ps @ unlock else ps)
             (zip sequence pss)), ts))))"

section \<open>The phases of a plan\<close>

definition plan_group_phases ::
  "builder_env \<Rightarrow> task list \<Rightarrow> lock_tasks \<Rightarrow> string \<Rightarrow> task list \<Rightarrow> (phases \<times> task list) res" where
  "plan_group_phases env prev locks g ts =
     (if g = PER_CLUSTER_GROUPS then
        rbind (map_state (get_cluster_phases env prev locks) (be_clusters env) ts) (\<lambda>(pss, ts). Inr (concat pss, ts))
      else rbind (get_task_collection_for_group g None ts) (\<lambda>coll. sort_collection env prev coll ts))"

text \<open>Whether a set of tasks holds a task, or one that is equal to it and has its hash.\<close>

definition in_task_set :: "task \<Rightarrow> task list \<Rightarrow> bool" where
  "in_task_set t ts \<longleftrightarrow> list_ex (\<lambda>u. ta_key u = ta_key t \<or> task_hash u = task_hash t \<and> task_eq u t) ts"

definition number_tasks :: "task list \<Rightarrow> task list" where
  "number_tasks ts = map (\<lambda>(i, t). t\<lparr>ta_index := i\<rparr>) (zip [0..<length ts] ts)"

definition marked_tasks :: "builder_env \<Rightarrow> task list \<Rightarrow> task list \<Rightarrow> (task list \<times> task list) res" where
  "marked_tasks env prev tasks =
     rbind (update_tasks (be_repositories env) (prev @ tasks)) (\<lambda>ts.
       Inr (take (length prev) ts, drop (length prev) ts))"

text \<open>\<open>self.sortable_tasks\<close>: the tasks of both plans, marked and merged.\<close>

definition sortable_tasks :: "builder_env \<Rightarrow> task list \<Rightarrow> task list \<Rightarrow> task list res" where
  "sortable_tasks env prev tasks =
     rbind (marked_tasks env prev tasks) (\<lambda>(ps, cs). merge_prev_successful_and_current_tasks ps cs)"

text \<open>When all the tasks have run in the plan before, nothing is to be done. Otherwise the tasks are
  numbered, and the groups are sorted one after the other.\<close>

definition build :: "builder_env \<Rightarrow> lock_tasks \<Rightarrow> task list \<Rightarrow> task list \<Rightarrow> (phases \<times> task list) res" where
  "build env locks prev tasks =
     rbind (if list_ex (\<lambda>t. \<not> in_task_set t prev) tasks then Inr False
            else associated_items_determinable tasks) (\<lambda>nothing.
       if nothing \<and> be_left_locked env = None then Inr ([], tasks)
       else rbind (marked_tasks env prev tasks) (\<lambda>(prev, current).
            rbind (merge_prev_successful_and_current_tasks prev current) (\<lambda>sortable.
            rbind (map_state (plan_group_phases env prev locks)
              (if sortable = [] then [] else PLAN_GROUP_SEQUENCE) (number_tasks sortable)) (\<lambda>(pss, ts).
              Inr (concat pss, ts)))))"

section \<open>What the merged tasks are\<close>

text \<open>An earlier task is used again for a current one with its unique id, equal to it and in the same
  group; it is then run again when what it depends on is not certain.\<close>

definition reused_for :: "task \<Rightarrow> task \<Rightarrow> bool" where
  "reused_for p c \<longleftrightarrow> ta_unique_id p = ta_unique_id c \<and> task_eq p c \<and> ta_group p = ta_group c"

definition taken_over :: "task list \<Rightarrow> task \<Rightarrow> bool" where
  "taken_over current p \<longleftrightarrow> ta_unique_id p \<notin> ta_unique_id ` set current \<or> (\<exists>c \<in> set current. reused_for p c)"

definition as_taken :: "task list \<Rightarrow> task \<Rightarrow> task" where
  "as_taken current p =
     (if ta_unique_id p \<in> ta_unique_id ` set current \<and> associated_items_determinable [p] \<noteq> Inr True
      then p\<lparr>ta_state := TaskInitial\<rparr> else p)"

definition merge_marks :: "task list \<Rightarrow> task list \<Rightarrow> task option list" where
  "merge_marks current ps = map (\<lambda>c. if \<exists>p \<in> set ps. reused_for p c then None else Some c) current"

definition merge_kept :: "task list \<Rightarrow> task list \<Rightarrow> task list" where
  "merge_kept current ps = map (as_taken current) (filter (taken_over current) ps)"

lemma as_taken_uid [simp]: "ta_unique_id (as_taken current p) = ta_unique_id p"
  by (simp add: as_taken_def)

lemma current_uids_map:
  assumes "distinct (map ta_unique_id ts)"
  shows "map_of (current_uids ts) u = Some i \<longleftrightarrow> i < length ts \<and> ta_unique_id (ts ! i) = u"
proof -
  have "map_of (fold (\<lambda>(t, i) d. AList.update (ta_unique_id t) i d) xs d) u =
      (case map_of (rev (map (\<lambda>(t, i). (ta_unique_id t, i)) xs)) u of Some i \<Rightarrow> Some i | None \<Rightarrow> map_of d u)"
    for xs :: "(task \<times> nat) list" and d :: "(string \<times> nat) list"
    by (induction xs arbitrary: d) (auto simp: map_add_def split: option.splits)
  then have "map_of (current_uids ts) u = map_of (rev (map (\<lambda>(t, i). (ta_unique_id t, i)) (zip ts [0..<length ts]))) u"
    by (simp add: current_uids_def option.case_eq_if)
  moreover have "map (\<lambda>(t, i). (ta_unique_id t, i)) (zip ts [0..<length ts]) = zip (map ta_unique_id ts) [0..<length ts]"
    by (simp add: zip_map1 case_prod_beta')
  moreover have "distinct (map fst (zip (map ta_unique_id ts) [0..<length ts]))" using assms by simp
  ultimately have "map_of (current_uids ts) u = map_of (zip (map ta_unique_id ts) [0..<length ts]) u"
    by (simp add: map_of_rev_distinct)
  then have "map_of (current_uids ts) u = Some i \<longleftrightarrow> (u, i) \<in> set (zip (map ta_unique_id ts) [0..<length ts])"
    using assms by (simp add: map_of_eq_Some_iff)
  also have "\<dots> \<longleftrightarrow> i < length ts \<and> ta_unique_id (ts ! i) = u" by (force simp: set_zip)
  finally show ?thesis .
qed

lemma merge_loop:
  assumes cur: "distinct (map ta_unique_id current)"
  shows "distinct (map ta_unique_id (ps @ qs)) \<Longrightarrow>
    for_res (merge_task (current_uids current)) qs (merge_kept current ps, merge_marks current ps) = Inr st \<Longrightarrow>
    st = (merge_kept current (ps @ qs), merge_marks current (ps @ qs))"
proof (induction qs arbitrary: ps)
  case (Cons p qs)
  let ?st = "(merge_kept current ps, merge_marks current ps)"
  from Cons.prems(2) obtain st1 where st1: "merge_task (current_uids current) p ?st = Inr st1"
    and rest: "for_res (merge_task (current_uids current)) qs st1 = Inr st" by (auto simp: rbind_Inr_iff)
  have fresh: "\<not> reused_for p' c" if "p' \<in> set ps" "ta_unique_id c = ta_unique_id p" for p' c
    using Cons.prems(1) that by (auto simp: reused_for_def image_iff)
  have "st1 = (merge_kept current (ps @ [p]), merge_marks current (ps @ [p]))"
  proof (cases "map_of (current_uids current) (ta_unique_id p)")
    case None
    have no: "ta_unique_id c \<noteq> ta_unique_id p" if "c \<in> set current" for c
    proof
      assume "ta_unique_id c = ta_unique_id p"
      with that obtain i where "i < length current" "ta_unique_id (current ! i) = ta_unique_id p"
        by (auto simp: in_set_conv_nth)
      with current_uids_map [OF cur] None show False by (metis option.distinct(1))
    qed
    then have "\<not> reused_for p c" if "c \<in> set current" for c using no [OF that] by (simp add: reused_for_def)
    then have "merge_marks current (ps @ [p]) = merge_marks current ps" by (auto simp: merge_marks_def)
    moreover have "merge_kept current (ps @ [p]) = merge_kept current ps @ [p]"
    proof -
      have "ta_unique_id p \<notin> ta_unique_id ` set current" using no by (metis imageE)
      then show ?thesis by (simp add: merge_kept_def taken_over_def as_taken_def)
    qed
    ultimately show ?thesis using st1 None by (simp add: merge_task_def)
  next
    case (Some i)
    then have i: "i < length current" "ta_unique_id (current ! i) = ta_unique_id p"
      using current_uids_map [OF cur] by blast+
    let ?c = "current ! i"
    have mem: "ta_unique_id p \<in> ta_unique_id ` set current" using i by (metis image_eqI nth_mem)
    have only: "j = i" if "j < length current" "ta_unique_id (current ! j) = ta_unique_id p" for j
      using cur i that by (metis distinct_conv_nth length_map nth_map)
    have mark: "merge_marks current ps ! i = Some ?c"
      using i fresh by (auto simp: merge_marks_def)
    have taken: "taken_over current p \<longleftrightarrow> reused_for p ?c"
    proof -
      have "c = ?c" if "c \<in> set current" "reused_for p c" for c
        using that only by (auto simp: in_set_conv_nth reused_for_def)
      with mem i show ?thesis by (auto simp: taken_over_def)
    qed
    show ?thesis
    proof (cases "reused_for p ?c")
      case True
      with i have cond: "task_eq p ?c \<and> ta_group p = ta_group ?c" by (simp add: reused_for_def)
      with st1 Some mark obtain det where det: "associated_items_determinable [p] = Inr det"
        "st1 = (merge_kept current ps @ [if det then p else p\<lparr>ta_state := TaskInitial\<rparr>], (merge_marks current ps)[i := None])"
        by (auto simp: merge_task_def rbind_Inr_iff)
      have "merge_kept current (ps @ [p]) = merge_kept current ps @ [as_taken current p]"
        using True taken by (simp add: merge_kept_def)
      moreover have "as_taken current p = (if det then p else p\<lparr>ta_state := TaskInitial\<rparr>)"
        using det(1) mem by (simp add: as_taken_def)
      moreover have "merge_marks current (ps @ [p]) = (merge_marks current ps)[i := None]"
      proof (rule nth_equalityI)
        fix j assume "j < length (merge_marks current (ps @ [p]))"
        then have j: "j < length current" by (simp add: merge_marks_def)
        show "merge_marks current (ps @ [p]) ! j = (merge_marks current ps)[i := None] ! j"
          using j i True only [OF j] by (auto simp: merge_marks_def reused_for_def nth_list_update)
      qed (simp add: merge_marks_def)
      ultimately show ?thesis using det(2) by simp
    next
      case False
      with i have "\<not> (task_eq p ?c \<and> ta_group p = ta_group ?c)" by (simp add: reused_for_def)
      with st1 Some mark have "st1 = ?st" by (auto simp: merge_task_def)
      moreover have "merge_kept current (ps @ [p]) = merge_kept current ps" using False taken by (simp add: merge_kept_def)
      moreover have "merge_marks current (ps @ [p]) = merge_marks current ps"
      proof -
        have "\<not> reused_for p c" if "c \<in> set current" for c
          using that only False by (auto simp: in_set_conv_nth reused_for_def)
        then show ?thesis by (auto simp: merge_marks_def)
      qed
      ultimately show ?thesis by simp
    qed
  qed
  with rest Cons.IH [of "ps @ [p]"] Cons.prems(1) show ?case by simp
qed simp

lemma somes_map: "somes (map (\<lambda>c. if P c then None else Some c) cs) = filter (\<lambda>c. \<not> P c) cs"
  by (induction cs) (simp_all add: somes_def)



section \<open>Which orders of nodes are accepted\<close>

lemma map_text_of: "\<forall>x \<in> set xs. is_text x \<Longrightarrow> xs = map PStr (map text_of xs)"
proof (induction xs)
  case (Cons x xs)
  then show ?case by (cases x) auto
qed simp

text \<open>An upgrade order is accepted exactly when it is a list of texts that names every node of
  the cluster exactly once and nothing else.\<close>

theorem node_ordering_accepted:
  "validate_node_upgrade_ordering v ids = Inr () \<longleftrightarrow> (\<exists>vs. v = PList (map PStr vs) \<and> distinct vs \<and> set vs = set ids)"
proof
  assume ok: "validate_node_upgrade_ordering v ids = Inr ()"
  then obtain xs where v: "v = PList xs"
    by (cases v) (simp_all add: validate_node_upgrade_ordering_def ordering_error_def)
  from ok v have texts: "List.find (\<lambda>x. \<not> is_text x) xs = None"
    by (auto simp: validate_node_upgrade_ordering_def ordering_error_def split: option.splits)
  then have "\<forall>x \<in> set xs. is_text x" by (simp add: find_None_iff)
  then have "xs = map PStr (map text_of xs)" by (rule map_text_of)
  moreover from ok v texts have "List.find (\<lambda>n. n \<notin> set ids) (map text_of xs) = None"
    by (cases "List.find (\<lambda>n. n \<notin> set ids) (map text_of xs)")
      (simp_all add: validate_node_upgrade_ordering_def ordering_error_def Let_def)
  moreover from this ok v texts have "distinct (map text_of xs) \<and> set ids \<subseteq> set (map text_of xs)"
    by (auto simp: validate_node_upgrade_ordering_def ordering_error_def Let_def split: if_splits)
  ultimately show "\<exists>vs. v = PList (map PStr vs) \<and> distinct vs \<and> set vs = set ids"
    unfolding v find_None_iff by (intro exI [of _ "map text_of xs"]) auto
next
  assume "\<exists>vs. v = PList (map PStr vs) \<and> distinct vs \<and> set vs = set ids"
  then obtain vs where vs: "v = PList (map PStr vs)" "distinct vs" "set vs = set ids" by blast
  have "List.find (\<lambda>x. \<not> is_text x) (map PStr vs) = None" by (simp add: find_None_iff)
  moreover have "map text_of (map PStr vs) = vs" by (simp add: o_def)
  moreover have "List.find (\<lambda>n. n \<notin> set ids) vs = None" using vs(3) by (simp add: find_None_iff)
  ultimately show "validate_node_upgrade_ordering v ids = Inr ()"
    using vs(2,3) by (simp add: validate_node_upgrade_ordering_def vs(1) Let_def)
qed

section \<open>The groups of a plan run in order\<close>

text \<open>A computation over a list that keeps \<open>P\<close> of the state and gives each element a result related
  to it.\<close>

lemma map_state_keeps:
  assumes "map_state f xs s = Inr (ys, s')" and "P s"
    and "\<And>x s y s'. x \<in> set xs \<Longrightarrow> P s \<Longrightarrow> f x s = Inr (y, s') \<Longrightarrow> P s' \<and> Q x y"
  shows "P s' \<and> list_all2 Q xs ys"
  using assms
proof (induction xs arbitrary: s ys)
  case (Cons x xs)
  from Cons.prems(1) obtain y s1 zs where y: "f x s = Inr (y, s1)" "map_state f xs s1 = Inr (zs, s')" "ys = y # zs"
    by (auto simp: rbind_Inr_iff)
  from Cons.prems(3) [OF _ Cons.prems(2) y(1)] have "P s1" "Q x y" by simp_all
  moreover have "P s' \<and> list_all2 Q xs zs" by (rule Cons.IH [OF y(2) \<open>P s1\<close>]) (use Cons.prems(3) in auto)
  ultimately show ?case by (simp add: y(3))
qed simp

text \<open>What sorting leaves of the tasks: anything but their items and their dependencies' ids.\<close>

definition ident :: "task \<Rightarrow> string \<times> string option" where
  "ident t = (ta_key t, ta_group t)"

lemma ident_updates [simp]:
  "ident (t\<lparr>ta_item := i\<rparr>) = ident t" "ident (t\<lparr>ta_dep_ids := ds\<rparr>) = ident t" "ident (t\<lparr>ta_index := n\<rparr>) = ident t"
  by (simp_all add: ident_def)

lemma preprocess_ident:
  assumes "preprocess_tasks_in_task_group child_of cv ts = Inr sts"
  shows "map (ident \<circ> fst) sts = map ident ts"
  using assms unfolding preprocess_tasks_in_task_group_def
proof (rule for_res_invariant [where P = "\<lambda>sts. map (ident \<circ> fst) sts = map ident ts"])
  show "map (ident \<circ> fst) (map (\<lambda>t. (t, None)) ts) = map ident ts" by simp
  have step: "ident (fst st') = ident (fst st)" if "update_config_task_model_item child_of cfgs name st = Inr st'" for cfgs name st st'
    using that by (auto simp: update_config_task_model_item_def rbind_Inr_iff split: if_splits prod.splits)
  fix cn sts sts' assume "map (ident \<circ> fst) sts = map ident ts"
    "(case cn of (cfgs, name) \<Rightarrow> map_res (update_config_task_model_item child_of cfgs name)) sts = Inr sts'"
  then show "map (ident \<circ> fst) sts' = map ident ts"
    by (cases cn) (auto dest!: map_res_map [where k = "ident \<circ> fst" and l = "ident \<circ> fst"] step)
qed

lemma get_dependency_graph_ident:
  assumes "get_dependency_graph get_dependencies child_of cv ts = Inr (g, us)"
  shows "map ident us = map ident ts"
proof -
  from assms obtain sts where sts: "preprocess_tasks_in_task_group child_of cv ts = Inr sts"
    "us = copy_cfg_tasks_depinfo_for_puppet_use g (map revert_special_model_item sts)"
    by (auto simp: get_dependency_graph_def rbind_Inr_iff)
  have "map ident us = map ident (map revert_special_model_item sts)"
    by (simp add: sts(2) copy_cfg_tasks_depinfo_for_puppet_use_def)
  also have "\<dots> = map (ident \<circ> fst) sts"
    by (auto simp: revert_special_model_item_def split: prod.split option.split)
  finally show ?thesis using preprocess_ident [OF sts(1)] by simp
qed

text \<open>The phases of a group hold tasks of the group only.\<close>

lemma keys_ident: "map ident us = map ident ts \<Longrightarrow> keys_of us = keys_of ts"
  by (drule arg_cong [where f = "map fst"]) (simp add: keys_of_def ident_def o_def)

lemma sort_tasks_keys:
  assumes "sort_tasks get_dependencies child_of cv prev ts = Inr (ps, us)"
  shows "set (concat ps) \<subseteq> set (keys_of ts) \<and> map ident us = map ident ts"
proof -
  from assms obtain g us' where g: "get_dependency_graph get_dependencies child_of cv ts = Inr (g, us')"
    by (auto simp: sort_tasks_def rbind_Inr_iff)
  obtain ls e where t: "topsort g = (ls, e)" by fastforce
  obtain cs h where c: "compact_phases (kinds_of us') ls (topsort_graph g) = (cs, h)" by fastforce
  from assms g t have e: "e = None" by (cases e) (simp_all add: sort_tasks_def)
  define ss where "ss = segregate_callback_tasks (kinds_of us') h cs"
  from assms g t c e obtain qs where q: "remove_prev_successful_tasks prev us ss = Inr qs" "ps = sort_tasks_within_phases us h qs"
    and us: "us' = us" by (auto simp: sort_tasks_def rbind_Inr_iff Let_def ss_def)
  note g = g [unfolded us]
  have "set (concat ps) = set (concat qs)" unfolding q(2) by (rule mset_eq_setD [OF sort_within_concat])
  also have "\<dots> \<subseteq> set (concat ss)" by (auto simp: remove_prev_result(1) [OF q(1)] simp del: set_concat)
  also have "\<dots> \<subseteq> set (keys_of us)" by (rule remove_prev_result(3) [OF q(1)])
  finally show ?thesis using get_dependency_graph_ident [OF g] keys_ident [of us ts] by simp
qed

lemma replace_tasks_ident:
  assumes "distinct (map fst ids)" and "map ident ts = ids" and "set (map ident us) \<subseteq> set ids"
  shows "map ident (replace_tasks us ts) = ids"
proof -
  have "ident (case task_at us (ta_key t) of Some u \<Rightarrow> u | None \<Rightarrow> t) = ident t" if "t \<in> set ts" for t
  proof (cases "task_at us (ta_key t)")
    case (Some u)
    then have u: "u \<in> set us" "ta_key u = ta_key t" by (auto simp: task_at_def find_Some_iff)
    have "ident u \<in> set ids" "ident t \<in> set ids" using u(1) that assms(2,3) by auto
    then have "(ta_key t, ta_group u) \<in> set ids" "(ta_key t, ta_group t) \<in> set ids" using u(2) by (simp_all add: ident_def)
    with assms(1) have "ta_group u = ta_group t" by (rule eq_key_imp_eq_value)
    then have "ident u = ident t" using u(2) by (simp add: ident_def)
    with Some show ?thesis by simp
  qed simp
  then show ?thesis using assms(2) by (auto simp: replace_tasks_def)
qed

text \<open>\<open>keys_in ids G\<close>: the keys of the tasks whose group is in \<open>G\<close>.\<close>

definition keys_in :: "(string \<times> string option) list \<Rightarrow> string set \<Rightarrow> string set" where
  "keys_in ids G = {k. \<exists>g \<in> G. (k, Some g) \<in> set ids}"

lemma keys_in_mono: "G \<subseteq> H \<Longrightarrow> keys_in ids G \<subseteq> keys_in ids H"
  unfolding keys_in_def by blast

lemma sort_collection_keys:
  assumes "sort_collection env prev coll ts = Inr (ps, ts')" and "distinct (map fst ids)" and "map ident ts = ids"
    and "\<forall>t \<in> set coll. t \<in> set ts \<and> in_group g t"
  shows "map ident ts' = ids \<and> set (concat ps) \<subseteq> keys_in ids {g}"
proof -
  from assms(1) obtain us where us: "sort_tasks (be_dependencies env) (be_child env) (be_configs env) prev coll = Inr (ps, us)"
    "ts' = replace_tasks us ts" by (auto simp: sort_collection_def rbind_Inr_iff)
  note k = sort_tasks_keys [OF us(1)]
  have sub: "set (map ident coll) \<subseteq> set ids" using assms(3,4) by auto
  with k have "map ident ts' = ids" unfolding us(2) by (intro replace_tasks_ident assms(2,3)) simp
  moreover have "set (keys_of coll) \<subseteq> keys_in ids {g}"
  proof
    fix k assume "k \<in> set (keys_of coll)"
    then obtain t where t: "t \<in> set coll" "k = ta_key t" by (auto simp: keys_of_def)
    then have "ident t \<in> set ids" using sub by auto
    moreover have "ident t = (k, Some g)" using t assms(4) by (simp add: ident_def in_group_def)
    ultimately show "k \<in> keys_in ids {g}" by (simp add: keys_in_def)
  qed
  ultimately show ?thesis using k by blast
qed

lemma group_collection:
  assumes "get_task_collection_for_group g nodes ts = Inr coll"
  shows "\<forall>t \<in> set coll. t \<in> set ts \<and> in_group g t"
proof (cases nodes)
  case None
  with assms show ?thesis by (auto simp: get_task_collection_for_group_def)
next
  case (Some vs)
  with assms obtain tss where tss: "map_res (\<lambda>v. filter_res (\<lambda>t. if in_group g t then rbind (task_node_path t) (\<lambda>n. Inr (n = v)) else Inr False) ts) vs = Inr tss"
    "coll = concat tss" by (auto simp: get_task_collection_for_group_def rbind_Inr_iff)
  have "t \<in> set ts \<and> in_group g t" if "us \<in> set tss" "t \<in> set us" for us t
    using map_res_member [OF tss(1) that(1)] that(2) by (auto dest!: filter_res_set split: if_splits)
  then show ?thesis by (auto simp: tss(2))
qed

lemma cluster_collection:
  assumes "get_task_collection_for_cluster g c ts = Inr coll"
  shows "\<forall>t \<in> set coll. t \<in> set ts \<and> in_group g t"
  using filter_res_set [OF assms [unfolded get_task_collection_for_cluster_def]] by (auto split: if_splits)

section \<open>The composition\<close>

definition lock_keys :: "lock_tasks \<Rightarrow> string set" where
  "lock_keys locks = {k. \<exists>v l u. (v, l, u) \<in> set locks \<and> (k = l \<or> k = u)}"

lemma set_concat_all2:
  "list_all2 (\<lambda>x y. set (concat y) \<subseteq> A) xs ys \<Longrightarrow> set (concat (concat ys)) \<subseteq> A"
  by (induction rule: list_all2_induct) auto

lemma node_group_keys:
  assumes "node_group_phases env prev node_seq v ts = Inr (ps, ts')" and "distinct (map fst ids)" and "map ident ts = ids"
  shows "map ident ts' = ids \<and> set (concat ps) \<subseteq> keys_in ids (set node_seq)"
proof -
  from assms(1) obtain pss where pss: "map_state (\<lambda>g ts. rbind (get_task_collection_for_group g (Some [v]) ts)
      (\<lambda>coll. sort_collection env prev coll ts)) node_seq ts = Inr (pss, ts')" "ps = concat pss"
    by (auto simp: node_group_phases_def rbind_Inr_iff)
  have "map ident ts' = ids \<and> list_all2 (\<lambda>g ps. set (concat ps) \<subseteq> keys_in ids (set node_seq)) node_seq pss"
    using pss(1) assms(3)
  proof (rule map_state_keeps)
    fix g s ps s' assume g: "g \<in> set node_seq" and s: "map ident s = ids"
      "rbind (get_task_collection_for_group g (Some [v]) s) (\<lambda>coll. sort_collection env prev coll s) = Inr (ps, s')"
    then obtain coll where "get_task_collection_for_group g (Some [v]) s = Inr coll" "sort_collection env prev coll s = Inr (ps, s')"
      by (auto simp: rbind_Inr_iff)
    then have "map ident s' = ids \<and> set (concat ps) \<subseteq> keys_in ids {g}"
      by (intro sort_collection_keys [OF _ assms(2) s(1) group_collection])
    with keys_in_mono [of "{g}" "set node_seq" ids] g
    show "map ident s' = ids \<and> set (concat ps) \<subseteq> keys_in ids (set node_seq)" by blast
  qed
  with set_concat_all2 show ?thesis unfolding pss(2) by blast
qed

lemma apply_lock_keys:
  "set (concat (apply_lock_tasks locks v ps)) \<subseteq> lock_keys locks \<union> set (concat ps)"
proof (cases "map_of locks v")
  case (Some lu)
  then have "(v, fst lu, snd lu) \<in> set locks" by (simp add: map_of_SomeD)
  with Some show ?thesis by (cases lu) (auto simp: apply_lock_tasks_def lock_keys_def)
qed (simp add: apply_lock_tasks_def)

lemma bracketed_keys:
  assumes "\<forall>(v, ps) \<in> set nps. set (concat ps) \<subseteq> A"
  shows "set (concat (bracketed locks nps)) \<subseteq> lock_keys locks \<union> A"
  using assms
proof (induction nps)
  case (Cons np nps)
  obtain v ps where np: "np = (v, ps)" by (cases np)
  with Cons.prems have "set (concat ps) \<subseteq> A" by simp
  with apply_lock_keys [of locks v ps] have "set (concat (apply_lock_tasks locks v ps)) \<subseteq> lock_keys locks \<union> A" by blast
  with Cons np show ?case by (auto simp: bracketed_def)
qed (simp add: bracketed_def)

lemma locked_node_keys:
  assumes "locked_node_phases env prev locks node_seq vs ts = Inr (ps, ts')" and "distinct (map fst ids)" and "map ident ts = ids"
  shows "map ident ts' = ids \<and> set (concat ps) \<subseteq> lock_keys locks \<union> keys_in ids (set node_seq)"
proof -
  from assms(1) obtain pss where pss: "map_state (node_group_phases env prev node_seq) vs ts = Inr (pss, ts')"
    "ps = bracketed locks (zip vs pss)" by (auto simp: locked_node_phases_def rbind_Inr_iff)
  have m: "map ident ts' = ids \<and> list_all2 (\<lambda>v ps. set (concat ps) \<subseteq> keys_in ids (set node_seq)) vs pss"
    using pss(1) assms(3) by (rule map_state_keeps) (rule node_group_keys [OF _ assms(2)])
  then have "\<forall>(v, ps) \<in> set (zip vs pss). set (concat ps) \<subseteq> keys_in ids (set node_seq)"
    unfolding list_all2_iff by blast
  with m show ?thesis unfolding pss(2) using bracketed_keys by blast
qed

lemma node_sequence_cluster: "set node_sequence \<subseteq> set CLUSTER_GROUP_SEQUENCE"
  by (auto simp: node_sequence_def)

lemma cluster_group_keys:
  assumes "cluster_group_phases env prev locks c g ts = Inr (ps, ts')" and "distinct (map fst ids)" and "map ident ts = ids"
    and "g = LOCKED_NODE_PHASES \<or> g \<in> set CLUSTER_GROUP_SEQUENCE"
  shows "map ident ts' = ids \<and> set (concat ps) \<subseteq> lock_keys locks \<union> keys_in ids (set CLUSTER_GROUP_SEQUENCE)"
proof (cases "g = LOCKED_NODE_PHASES")
  case True
  with assms(1) obtain vs where "locked_node_phases env prev locks node_sequence vs ts = Inr (ps, ts')"
    by (auto simp: cluster_group_phases_def rbind_Inr_iff)
  from locked_node_keys [OF this assms(2,3)] keys_in_mono [OF node_sequence_cluster, of ids] show ?thesis by blast
next
  case False
  with assms(1) obtain node coll where coll: "(if node then get_task_collection_for_group g (Some (map snd (ci_nodes c))) ts
      else get_task_collection_for_cluster g (ci_vpath c) ts) = Inr coll" "sort_collection env prev coll ts = Inr (ps, ts')"
    by (auto simp: cluster_group_phases_def rbind_Inr_iff)
  from coll(1) have "\<forall>t \<in> set coll. t \<in> set ts \<and> in_group g t"
    by (cases node) (simp_all add: group_collection cluster_collection)
  from sort_collection_keys [OF coll(2) assms(2,3) this] have "map ident ts' = ids" "set (concat ps) \<subseteq> keys_in ids {g}"
    by blast+
  moreover have "keys_in ids {g} \<subseteq> keys_in ids (set CLUSTER_GROUP_SEQUENCE)"
    using assms(4) False by (intro keys_in_mono) simp
  ultimately show ?thesis by blast
qed

lemma locked_sequence_groups: "g \<in> set locked_sequence \<Longrightarrow> g = LOCKED_NODE_PHASES \<or> g \<in> set CLUSTER_GROUP_SEQUENCE"
  by (auto simp: locked_sequence_def Let_def dest: in_set_takeD in_set_dropD)

lemma left_locked_keys:
  assumes "left_locked_unlock env locks c = Inr ps"
  shows "set (concat ps) \<subseteq> lock_keys locks"
proof -
  have "(v, l, u) \<in> set locks" if "map_of locks v = Some (l, u)" for v l u using that by (rule map_of_SomeD)
  with assms show ?thesis
    by (auto simp: left_locked_unlock_def lock_keys_def split: option.splits prod.splits if_splits) blast
qed

lemma add_unlock_keys:
  "\<forall>(g, ps) \<in> set gps. set (concat ps) \<subseteq> A \<Longrightarrow> set (concat us) \<subseteq> A \<Longrightarrow>
    set (concat (concat (map (\<lambda>(g, ps). if g = h then ps @ us else ps) gps))) \<subseteq> A"
  by (induction gps) auto

lemma cluster_keys:
  assumes "get_cluster_phases env prev locks c ts = Inr (ps, ts')" and "distinct (map fst ids)" and "map ident ts = ids"
  shows "map ident ts' = ids \<and> set (concat ps) \<subseteq> lock_keys locks \<union> keys_in ids (set CLUSTER_GROUP_SEQUENCE)"
proof -
  let ?A = "lock_keys locks \<union> keys_in ids (set CLUSTER_GROUP_SEQUENCE)"
  let ?seq = "if cluster_has_lock_tasks env locks c then locked_sequence else CLUSTER_GROUP_SEQUENCE"
  from assms(1) obtain pss unlock where pss: "map_state (cluster_group_phases env prev locks c) ?seq ts = Inr (pss, ts')"
    "left_locked_unlock env locks c = Inr unlock"
    "ps = concat (map (\<lambda>(g, ps). if g = ''DEPLOYMENT_PRE_NODE_CLUSTER_GROUP'' then ps @ unlock else ps) (zip ?seq pss))"
    unfolding get_cluster_phases_def Let_def rbind_Inr_iff by (auto simp: rbind_Inr_iff)
  have m: "map ident ts' = ids \<and> list_all2 (\<lambda>g ps. set (concat ps) \<subseteq> ?A) ?seq pss"
    using pss(1) assms(3)
  proof (rule map_state_keeps)
    fix g s ps s' assume "g \<in> set ?seq" "map ident s = ids" "cluster_group_phases env prev locks c g s = Inr (ps, s')"
    moreover from this have "g = LOCKED_NODE_PHASES \<or> g \<in> set CLUSTER_GROUP_SEQUENCE"
      using locked_sequence_groups [of g] by (auto split: if_splits)
    ultimately show "map ident s' = ids \<and> set (concat ps) \<subseteq> ?A" by (intro cluster_group_keys [OF _ assms(2)])
  qed
  then have "\<forall>(g, ps) \<in> set (zip ?seq pss). set (concat ps) \<subseteq> ?A" unfolding list_all2_iff by blast
  with add_unlock_keys [of "zip ?seq pss" ?A unlock] left_locked_keys [OF pss(2)] m show ?thesis unfolding pss(3) by blast
qed

definition group_keys :: "lock_tasks \<Rightarrow> (string \<times> string option) list \<Rightarrow> string \<Rightarrow> string set" where
  "group_keys locks ids g =
     (if g = PER_CLUSTER_GROUPS then lock_keys locks \<union> keys_in ids (set CLUSTER_GROUP_SEQUENCE) else keys_in ids {g})"

lemma plan_group_keys:
  assumes "plan_group_phases env prev locks g ts = Inr (ps, ts')" and "distinct (map fst ids)" and "map ident ts = ids"
  shows "map ident ts' = ids \<and> set (concat ps) \<subseteq> group_keys locks ids g"
proof (cases "g = PER_CLUSTER_GROUPS")
  case True
  with assms(1) obtain pss where pss: "map_state (get_cluster_phases env prev locks) (be_clusters env) ts = Inr (pss, ts')"
    "ps = concat pss" by (auto simp: plan_group_phases_def rbind_Inr_iff)
  have "map ident ts' = ids \<and> list_all2 (\<lambda>c ps. set (concat ps) \<subseteq> group_keys locks ids g) (be_clusters env) pss"
    using pss(1) assms(3)
  proof (rule map_state_keeps)
    fix c s ps s' assume "map ident s = ids" "get_cluster_phases env prev locks c s = Inr (ps, s')"
    with cluster_keys [OF _ assms(2)] True show "map ident s' = ids \<and> set (concat ps) \<subseteq> group_keys locks ids g"
      by (simp add: group_keys_def)
  qed
  with set_concat_all2 show ?thesis unfolding pss(2) by blast
next
  case False
  with assms(1) obtain coll where "get_task_collection_for_group g None ts = Inr coll" "sort_collection env prev coll ts = Inr (ps, ts')"
    by (auto simp: plan_group_phases_def rbind_Inr_iff)
  with sort_collection_keys [OF _ assms(2,3) group_collection] False show ?thesis by (simp add: group_keys_def)
qed

lemma plan_groups_apart: "g \<in> set PLAN_GROUP_SEQUENCE \<Longrightarrow> g \<notin> set CLUSTER_GROUP_SEQUENCE"
  by (auto simp: deployment_sequences)

text \<open>The place of a group in the plan: the groups of the clusters have one place.\<close>

definition stage :: "string \<Rightarrow> nat" where
  "stage g = position PLAN_GROUP_SEQUENCE (if g \<in> set CLUSTER_GROUP_SEQUENCE then PER_CLUSTER_GROUPS else g)"

lemma at_concat_blocks:
  "at_phase (concat pss) k i \<Longrightarrow>
    \<exists>a < length pss. k \<in> set (concat (pss ! a)) \<and>
      length (concat (take a pss)) \<le> i \<and> i < length (concat (take (Suc a) pss))"
proof (induction pss arbitrary: i)
  case (Cons ps pss)
  show ?case
  proof (cases "i < length ps")
    case True
    with Cons.prems show ?thesis
      by (intro exI [of _ 0]) (auto simp: at_phase_def nth_append)
  next
    case False
    with Cons.prems have "at_phase (concat pss) k (i - length ps)" by (auto simp: at_phase_def nth_append)
    from Cons.IH [OF this] obtain a where a: "a < length pss" "k \<in> set (concat (pss ! a))"
      "length (concat (take a pss)) \<le> i - length ps" "i - length ps < length (concat (take (Suc a) pss))" by blast
    with False show ?thesis by (intro exI [of _ "Suc a"]) auto
  qed
qed (simp add: at_phase_def)

lemma block_order:
  assumes "i < length (concat (take (Suc a) pss))" and "length (concat (take b pss)) \<le> j" and "a < b"
  shows "i < j"
proof -
  have "take b pss = take (Suc a) pss @ take (b - Suc a) (drop (Suc a) pss)"
    using assms(3) by (metis Suc_leI le_add_diff_inverse take_add)
  then have "length (concat (take (Suc a) pss)) \<le> length (concat (take b pss))" by simp
  with assms show ?thesis by linarith
qed

text \<open>C38: in a built plan the tasks of the management server come first, then those for booting the
  nodes, those before the clusters, those of the clusters and those after the clusters: a task of an
  earlier group is in an earlier phase.\<close>

theorem plan_groups_in_order:
  assumes "build env locks prev tasks = Inr (ps, us)" and "sortable_tasks env prev tasks = Inr ts"
    and "distinct (keys_of ts)" and "lock_keys locks \<inter> set (keys_of ts) = {}"
    and "t \<in> set ts" and "u \<in> set ts" and "ta_group t = Some g" and "ta_group u = Some h" and "stage g < stage h"
    and "at_phase ps (ta_key t) i" and "at_phase ps (ta_key u) j"
  shows "i < j"
proof -
  define ids where "ids = map ident ts"
  have keys: "map fst ids = keys_of ts" by (simp add: ids_def keys_of_def ident_def)
  from assms(2) obtain prev' cur' where m: "marked_tasks env prev tasks = Inr (prev', cur')"
    "merge_prev_successful_and_current_tasks prev' cur' = Inr ts" by (auto simp: sortable_tasks_def rbind_Inr_iff)
  from assms(1,5,10) m obtain pss where pss: "map_state (plan_group_phases env prev' locks) PLAN_GROUP_SEQUENCE (number_tasks ts) = Inr (pss, us)"
    "ps = concat pss" by (auto simp: build_def rbind_Inr_iff at_phase_def split: if_splits)
  have "map ident (number_tasks ts) = ids"
    by (rule nth_equalityI) (simp_all add: number_tasks_def ids_def)
  with pss(1) have "map ident us = ids \<and> list_all2 (\<lambda>g ps. set (concat ps) \<subseteq> group_keys locks ids g) PLAN_GROUP_SEQUENCE pss"
  proof (rule map_state_keeps)
    have "distinct (map fst ids)" using assms(3) keys by simp
    then show "map ident s' = ids \<and> set (concat ps) \<subseteq> group_keys locks ids g"
      if "map ident s = ids" "plan_group_phases env prev' locks g s = Inr (ps, s')" for g s ps s'
      using that by (intro plan_group_keys)
  qed
  then have len: "length pss = length PLAN_GROUP_SEQUENCE"
    and block: "\<And>a. a < length pss \<Longrightarrow> set (concat (pss ! a)) \<subseteq> group_keys locks ids (PLAN_GROUP_SEQUENCE ! a)"
    by (simp_all add: list_all2_conv_all_nth)
  have "distinct PLAN_GROUP_SEQUENCE" by (simp add: deployment_sequences)
  have place: "a = stage k" if "a < length pss" "v \<in> set ts" "ta_group v = Some k" "ta_key v \<in> set (concat (pss ! a))" for a v k
  proof -
    let ?G = "PLAN_GROUP_SEQUENCE ! a"
    have here: "ta_key v \<in> group_keys locks ids ?G" using block [OF that(1)] that(4) by blast
    have unlocked: "ta_key v \<notin> lock_keys locks" using assms(4) that(2) by (auto simp: keys_of_def)
    have only: "k' = k" if "(ta_key v, Some k') \<in> set ids" for k'
    proof -
      have "(ta_key v, Some k) \<in> set ids" using \<open>v \<in> set ts\<close> \<open>ta_group v = Some k\<close> by (force simp: ids_def ident_def)
      with that keys assms(3) show ?thesis by (metis eq_key_imp_eq_value option.inject)
    qed
    have "?G = (if k \<in> set CLUSTER_GROUP_SEQUENCE then PER_CLUSTER_GROUPS else k)"
    proof (cases "?G = PER_CLUSTER_GROUPS")
      case True
      with here unlocked obtain k' where "k' \<in> set CLUSTER_GROUP_SEQUENCE" "(ta_key v, Some k') \<in> set ids"
        by (auto simp: group_keys_def keys_in_def)
      with only True show ?thesis by auto
    next
      case False
      with here have "?G = k" using only by (auto simp: group_keys_def keys_in_def)
      moreover have "?G \<notin> set CLUSTER_GROUP_SEQUENCE" using that(1) len by (intro plan_groups_apart) simp
      ultimately show ?thesis by simp
    qed
    then have "stage k = position PLAN_GROUP_SEQUENCE ?G" by (simp add: stage_def)
    also have "\<dots> = a" using \<open>distinct PLAN_GROUP_SEQUENCE\<close> that(1) len by (simp add: position_def index_nth)
    finally show ?thesis by simp
  qed
  from at_concat_blocks [OF assms(10) [unfolded pss(2)]] obtain a where a: "a < length pss"
    "ta_key t \<in> set (concat (pss ! a))" "i < length (concat (take (Suc a) pss))" by blast
  from at_concat_blocks [OF assms(11) [unfolded pss(2)]] obtain b where b: "b < length pss"
    "ta_key u \<in> set (concat (pss ! b))" "length (concat (take b pss)) \<le> j" by blast
  have "a < b" using place [OF a(1) assms(5,7) a(2)] place [OF b(1) assms(6,8) b(2)] assms(9) by simp
  with block_order [OF a(3) b(3)] show ?thesis by blast
qed

definition sample_env :: builder_env where
  "sample_env = \<lparr>be_dependencies = (\<lambda>vs. Inr []), be_child = no_child, be_configs = no_configs, be_repositories = (\<lambda>v. []),
     be_clusters = [\<lparr>ci_vpath = ''/'', ci_item_id = ''c'', ci_nodes = [(''n'', ''/n'')], ci_ordering = None\<rparr>],
     be_left_locked = None, be_exists = (\<lambda>v. True)\<rparr>"

definition sample_plan_tasks :: "task list" where
  "sample_plan_tasks = [sample_task ''a'' ConfigTaskC [], (sample_task ''b'' ConfigTaskC [])\<lparr>ta_group := Some ''DEPLOYMENT_MS_GROUP''\<rparr>]"

text \<open>A task of a node and one of the management server; the node is locked for its task.\<close>

theorem plan_groups_in_order_witness:
  "\<exists>ps us. build sample_env [(''/n'', ''l'', ''u'')] [] sample_plan_tasks = Inr (ps, us) \<and>
    (\<forall>i j. at_phase ps ''b'' i \<longrightarrow> at_phase ps ''a'' j \<longrightarrow> i < j) \<and> ps = [[''b''], [''l''], [''a''], [''u'']]"
proof -
  let ?locks = "[(''/n'', ''l'', ''u'')]"
  let ?b = "build sample_env ?locks [] sample_plan_tasks"
  obtain ps us where ps: "?b = Inr (ps, us)" "ps = [[''b''], [''l''], [''a''], [''u'']]"
  proof -
    have "(case ?b of Inr (ps, us) \<Rightarrow> ps | Inl e \<Rightarrow> []) = [[''b''], [''l''], [''a''], [''u'']]" by code_simp
    then show ?thesis by (cases ?b) (auto intro: that)
  qed
  have s: "sortable_tasks sample_env [] sample_plan_tasks = Inr sample_plan_tasks" by code_simp
  let ?t = "(sample_task ''b'' ConfigTaskC [])\<lparr>ta_group := Some ''DEPLOYMENT_MS_GROUP''\<rparr>" and ?u = "sample_task ''a'' ConfigTaskC []"
  have d: "distinct (keys_of sample_plan_tasks)" by code_simp
  have l: "lock_keys ?locks \<inter> set (keys_of sample_plan_tasks) = {}"
    by (auto simp: lock_keys_def keys_of_def sample_plan_tasks_def sample_task_def)
  have m: "?t \<in> set sample_plan_tasks" "?u \<in> set sample_plan_tasks" by (simp_all add: sample_plan_tasks_def)
  have g: "ta_group ?t = Some ''DEPLOYMENT_MS_GROUP''" "ta_group ?u = Some ''DEPLOYMENT_NODE_GROUP''"
    "ta_key ?t = ''b''" "ta_key ?u = ''a''" by (simp_all add: sample_task_def)
  have "stage ''DEPLOYMENT_MS_GROUP'' < stage ''DEPLOYMENT_NODE_GROUP''"
    by (simp add: stage_def deployment_sequences position_def PER_CLUSTER_GROUPS_def)
  from plan_groups_in_order [OF ps(1) s d l m g(1,2) this] g(3,4) ps show ?thesis by auto
qed

text \<open>The nodes of a cluster are recognised by the beginning of their paths, so that the locks of a
  node of the cluster \<open>c10\<close> count for the cluster \<open>c1\<close>.\<close>

lemma locks_of_another_cluster:
  "cluster_has_lock_tasks sample_env [(''/d/c10/n'', l, u)] \<lparr>ci_vpath = ''/d/c1'', ci_item_id = ''c1'', ci_nodes = [], ci_ordering = None\<rparr>"
  by (simp add: cluster_has_lock_tasks_def sample_env_def)

end
