(* ===== verification/Plugin_Tasks.thy ===== *)
theory Plugin_Tasks
  imports Plan_Builder
begin

text \<open>
  The first steps of \<open>litp/core/execution_manager.py\<close> when it makes a plan: the tasks the plugins
  return are checked, ordered lists become dependencies, the tasks they require are added, what they
  replace is validated, and configuration tasks for nodes on their way out are dropped. A task object
  a plugin refers to without returning it is found by its key among \<open>objects\<close>.
\<close>

section \<open>Dictionaries of tasks\<close>

text \<open>\<open>d[k].append(t)\<close> of a \<open>defaultdict(list)\<close>.\<close>

definition add_at :: "'k \<Rightarrow> 'v \<Rightarrow> ('k \<times> 'v list) list \<Rightarrow> ('k \<times> 'v list) list" where
  "add_at k v d = AList.update k ((case map_of d k of Some vs \<Rightarrow> vs | None \<Rightarrow> []) @ [v]) d"

definition found_at :: "('k \<times> 'v list) list \<Rightarrow> 'k \<Rightarrow> 'v list" where
  "found_at d k = (case map_of d k of Some vs \<Rightarrow> vs | None \<Rightarrow> [])"

lemma found_add_at: "found_at (add_at k v d) j = found_at d j @ (if j = k then [v] else [])"
  by (simp add: found_at_def add_at_def update_conv')

lemma map_of_add_at: "map_of (add_at k v d) j = None \<longleftrightarrow> j \<noteq> k \<and> map_of d j = None"
  by (simp add: add_at_def update_conv')

lemma found_fold_add:
  "found_at (fold (\<lambda>t. add_at (f t) t) ts d) k = found_at d k @ filter (\<lambda>t. f t = k) ts"
  by (induction ts arbitrary: d) (simp_all add: found_add_at)

definition create_item_task_dict :: "task list \<Rightarrow> (string \<times> task list) list" where
  "create_item_task_dict ts = fold (\<lambda>t. add_at (item_vpath t) t) ts []"

definition create_all_items_task_dict :: "task list \<Rightarrow> (string \<times> task list) list" where
  "create_all_items_task_dict ts =
     fold (\<lambda>t. fold (\<lambda>i. add_at (at_vpath i) t) (all_model_items t)) ts []"

type_synonym node_call = "string \<times> string \<times> string"

definition call_key :: "task \<Rightarrow> node_call res" where
  "call_key t = rbind (live ''vpath'' (ta_node t)) (\<lambda>q. Inr (qi_vpath q, ta_call_type t, ta_call_id t))"

definition create_task_dict_by_node_ct_ci :: "task list \<Rightarrow> (node_call \<times> task list) list res" where
  "create_task_dict_by_node_ct_ci ts =
     for_res (\<lambda>t d. rbind (call_key t) (\<lambda>k. Inr (add_at k t d))) ts []"

lemma item_task_dict_at: "found_at (create_item_task_dict ts) v = filter (\<lambda>t. item_vpath t = v) ts"
  unfolding create_item_task_dict_def found_fold_add by (simp add: found_at_def)

section \<open>Ordered task lists\<close>

text \<open>Every task of an ordered list comes to require the one before it. A list within a list has no
  \<open>requires\<close>; the checks let it through only as the single element of a list.\<close>

fun single_task :: "plugin_task \<Rightarrow> task res" where
  "single_task (Single t) = Inr t"
| "single_task (Ordered ts) = Inl (AttributeError ''requires'')"

definition require :: "string \<Rightarrow> task \<Rightarrow> task" where
  "require k t = (if OnTask k \<in> set (ta_requires t) then t else t\<lparr>ta_requires := ta_requires t @ [OnTask k]\<rparr>)"

fun chain_tasks :: "string \<Rightarrow> task list \<Rightarrow> task list" where
  "chain_tasks k [] = []"
| "chain_tasks k (t # ts) = require k t # chain_tasks (ta_key t) ts"

fun get_tasks_from_ordered_task_list :: "plugin_task \<Rightarrow> task list res" where
  "get_tasks_from_ordered_task_list (Single t) = Inr [t]"
| "get_tasks_from_ordered_task_list (Ordered []) = Inl IndexError"
| "get_tasks_from_ordered_task_list (Ordered (p # ps)) =
     rbind (single_task p) (\<lambda>t. rbind (map_res single_task ps) (\<lambda>us. Inr (t # chain_tasks (ta_key t) us)))"

text \<open>A required task that is not in the list joins it at the end, and is looked at in turn. The list
  holds a task when it holds the object or one equal to it.\<close>

fun required_tasks :: "dependency list \<Rightarrow> string list" where
  "required_tasks [] = []"
| "required_tasks (OnTask k # ds) = k # required_tasks ds"
| "required_tasks (d # ds) = required_tasks ds"

definition include_task :: "task list \<Rightarrow> string \<Rightarrow> task list \<Rightarrow> task list" where
  "include_task objects k ts =
     (if k \<in> set (keys_of ts) then ts
      else case task_at objects k of
        None \<Rightarrow> ts
      | Some r \<Rightarrow> if task_in r ts then ts else ts @ [r])"

definition include_requires :: "task list \<Rightarrow> task \<Rightarrow> task list \<Rightarrow> task list" where
  "include_requires objects t ts = fold (include_task objects) (required_tasks (ta_requires t)) ts"

definition missing_keys :: "task list \<Rightarrow> task list \<Rightarrow> string set" where
  "missing_keys objects ts = set (keys_of objects) - set (keys_of ts)"

lemma task_at_key: "task_at ts k = Some t \<Longrightarrow> ta_key t = k \<and> t \<in> set ts"
  by (auto simp: task_at_def find_Some_iff)

lemma include_task_extends:
  "\<exists>us. include_task objects k ts = ts @ us \<and> set us \<subseteq> set objects \<and>
    (us \<noteq> [] \<longrightarrow> missing_keys objects (ts @ us) \<subset> missing_keys objects ts)"
  by (auto simp: include_task_def missing_keys_def keys_of_def task_in_def split: option.split dest!: task_at_key)

lemma missing_keys_mono: "missing_keys objects (ts @ us) \<subseteq> missing_keys objects ts"
  by (auto simp: missing_keys_def keys_of_def)

lemma fold_include_extends:
  "\<exists>us. fold (include_task objects) ks ts = ts @ us \<and> set us \<subseteq> set objects \<and>
    (us \<noteq> [] \<longrightarrow> missing_keys objects (ts @ us) \<subset> missing_keys objects ts)"
proof (induction ks arbitrary: ts)
  case (Cons k ks)
  obtain us where us: "include_task objects k ts = ts @ us" "set us \<subseteq> set objects"
    "us \<noteq> [] \<longrightarrow> missing_keys objects (ts @ us) \<subset> missing_keys objects ts"
    using include_task_extends by blast
  obtain vs where vs: "fold (include_task objects) ks (ts @ us) = (ts @ us) @ vs" "set vs \<subseteq> set objects"
    "vs \<noteq> [] \<longrightarrow> missing_keys objects ((ts @ us) @ vs) \<subset> missing_keys objects (ts @ us)"
    using Cons.IH by blast
  have "us @ vs \<noteq> [] \<longrightarrow> missing_keys objects (ts @ us @ vs) \<subset> missing_keys objects ts"
    using us(3) vs(3) missing_keys_mono [of objects ts us] missing_keys_mono [of objects "ts @ us" vs]
    by (cases "vs = []") auto
  with us vs show ?case by (intro exI [of _ "us @ vs"]) simp
qed simp

lemma include_requires_extends:
  obtains us where "include_requires objects t ts = ts @ us" "set us \<subseteq> set objects"
    "us \<noteq> [] \<longrightarrow> missing_keys objects (ts @ us) \<subset> missing_keys objects ts"
  using fold_include_extends [of objects "required_tasks (ta_requires t)" ts] unfolding include_requires_def by blast

function include_from :: "task list \<Rightarrow> nat \<Rightarrow> task list \<Rightarrow> task list" where
  "include_from objects i ts =
     (if i < length ts then include_from objects (Suc i) (include_requires objects (ts ! i) ts) else ts)"
  by auto
termination
proof (relation "(\<lambda>(objects, i, ts). card (missing_keys objects ts)) <*mlex*> measure (\<lambda>(objects, i, ts). length ts - i)")
  fix objects ts :: "task list" and i
  assume i: "i < length ts"
  obtain us where us: "include_requires objects (ts ! i) ts = ts @ us"
    "us \<noteq> [] \<longrightarrow> missing_keys objects (ts @ us) \<subset> missing_keys objects ts"
    by (rule include_requires_extends)
  have "finite (missing_keys objects ts)" by (simp add: missing_keys_def)
  with us i show "((objects, Suc i, include_requires objects (ts ! i) ts), objects, i, ts) \<in>
      (\<lambda>(objects, i, ts). card (missing_keys objects ts)) <*mlex*> measure (\<lambda>(objects, i, ts). length ts - i)"
    by (cases "us = []") (auto simp: mlex_prod_def psubset_card_mono)
qed (simp add: wf_mlex)

declare include_from.simps [simp del]

definition rewrite_ordered_task_lists :: "task list \<Rightarrow> plugin_task list \<Rightarrow> task list res" where
  "rewrite_ordered_task_lists objects pts =
     rbind (map_res get_tasks_from_ordered_task_list pts) (\<lambda>tss. Inr (include_from objects 0 (concat tss)))"

text \<open>What the list must hold for a dependency on a task.\<close>

definition requires_met :: "task list \<Rightarrow> task list \<Rightarrow> task \<Rightarrow> bool" where
  "requires_met objects ts t \<longleftrightarrow>
     (\<forall>k r. OnTask k \<in> set (ta_requires t) \<longrightarrow> task_at objects k = Some r \<longrightarrow> task_in r ts)"

lemma required_tasks_iff: "k \<in> set (required_tasks ds) \<longleftrightarrow> OnTask k \<in> set ds"
  by (induction ds rule: required_tasks.induct) auto

lemma task_in_append: "task_in r ts \<Longrightarrow> task_in r (ts @ us)"
  by (simp add: task_in_def)

lemma include_task_holds:
  assumes "task_at objects k = Some r"
  shows "task_in r (include_task objects k ts)"
  using assms task_at_key [OF assms] by (auto simp: include_task_def task_in_def keys_of_def list_ex_iff)

lemma include_requires_met: "requires_met objects (include_requires objects t ts) t"
proof -
  have "task_in r (fold (include_task objects) ks us)"
    if "k \<in> set ks" "task_at objects k = Some r" for k r ks us
    using that
  proof (induction ks arbitrary: us)
    case (Cons j ks)
    show ?case
    proof (cases "k = j")
      case True
      obtain vs where "fold (include_task objects) ks (include_task objects k us) = include_task objects k us @ vs"
        using fold_include_extends [of objects ks "include_task objects k us"] by blast
      then show ?thesis using include_task_holds [OF Cons.prems(2)] task_in_append True by simp
    qed (use Cons in simp)
  qed simp
  then show ?thesis by (simp add: requires_met_def include_requires_def required_tasks_iff)
qed

lemma requires_met_append: "requires_met objects ts t \<Longrightarrow> requires_met objects (ts @ us) t"
  using task_in_append by (fastforce simp: requires_met_def)

lemma include_from_extends:
  "\<exists>us. include_from objects i ts = ts @ us \<and> set us \<subseteq> set objects"
proof (induction objects i ts rule: include_from.induct)
  case (1 objects i ts)
  obtain us where us: "include_requires objects (ts ! i) ts = ts @ us" "set us \<subseteq> set objects"
    by (rule include_requires_extends)
  show ?case
  proof (cases "i < length ts")
    case True
    with 1 us show ?thesis by (subst include_from.simps) fastforce
  qed (subst include_from.simps, simp)
qed

lemma include_from_closed:
  "(\<forall>j < i. requires_met objects ts (ts ! j)) \<Longrightarrow> i \<le> length ts \<Longrightarrow>
    \<forall>t \<in> set (include_from objects i ts). requires_met objects (include_from objects i ts) t"
proof (induction objects i ts rule: include_from.induct)
  case (1 objects i ts)
  show ?case
  proof (cases "i < length ts")
    case True
    obtain us where us: "include_requires objects (ts ! i) ts = ts @ us" "set us \<subseteq> set objects"
      by (rule include_requires_extends)
    have "requires_met objects (ts @ us) ((ts @ us) ! j)" if "j < Suc i" for j
      using that True us 1(2) include_requires_met [of objects "ts ! i" ts] requires_met_append
      by (cases "j = i") (simp_all add: nth_append)
    moreover have "include_from objects i ts = include_from objects (Suc i) (ts @ us)"
      using True us by (subst include_from.simps) simp
    ultimately show ?thesis using 1(1) [OF True] True us by simp
  next
    case False
    with 1(3) have i: "i = length ts" by simp
    then have "include_from objects i ts = ts" by (subst include_from.simps) simp
    with 1(2) i show ?thesis by (auto simp: in_set_conv_nth)
  qed
qed

lemma chain_tasks_requires:
  "Suc j < length (t # chain_tasks (ta_key t) us) \<Longrightarrow>
    OnTask (ta_key ((t # chain_tasks (ta_key t) us) ! j)) \<in> set (ta_requires ((t # chain_tasks (ta_key t) us) ! Suc j))"
proof (induction us arbitrary: t j)
  case (Cons u us)
  have key: "ta_key (require k t) = ta_key t" for k t by (simp add: require_def)
  show ?case
  proof (cases j)
    case 0
    then show ?thesis by (simp add: require_def)
  next
    case (Suc i)
    with Cons.IH [of i "require (ta_key t) u"] Cons.prems show ?thesis by (simp add: key)
  qed
qed simp

lemma map_res_value: "map_res f xs = Inr ys \<Longrightarrow> x \<in> set xs \<Longrightarrow> f x = Inr y \<Longrightarrow> y \<in> set ys"
  by (induction xs arbitrary: ys) (auto simp: rbind_Inr_iff)

text \<open>C36: the tasks of a plan are all those the plugins returned, those of an ordered list one after
  the other with each requiring the one before it; and with every task also the tasks it requires are
  in the list, even when no plugin returned them.\<close>

theorem ordered_lists_rewritten:
  assumes "rewrite_ordered_task_lists objects pts = Inr ts"
  shows "(\<exists>tss us. map_res get_tasks_from_ordered_task_list pts = Inr tss \<and> ts = concat tss @ us \<and> set us \<subseteq> set objects) \<and>
    (\<forall>t \<in> set ts. requires_met objects ts t) \<and>
    (\<forall>os us j. Ordered os \<in> set pts \<longrightarrow> get_tasks_from_ordered_task_list (Ordered os) = Inr us \<longrightarrow> Suc j < length us \<longrightarrow>
       us ! j \<in> set ts \<and> us ! Suc j \<in> set ts \<and> OnTask (ta_key (us ! j)) \<in> set (ta_requires (us ! Suc j)))"
proof -
  from assms obtain tss where tss: "map_res get_tasks_from_ordered_task_list pts = Inr tss"
    and ts: "ts = include_from objects 0 (concat tss)"
    by (auto simp: rewrite_ordered_task_lists_def rbind_Inr_iff)
  obtain us where us: "ts = concat tss @ us" "set us \<subseteq> set objects"
    using include_from_extends [of objects 0 "concat tss"] ts by auto
  have closed: "\<forall>t \<in> set ts. requires_met objects ts t"
    unfolding ts by (rule include_from_closed) simp_all
  have "vs ! j \<in> set ts \<and> vs ! Suc j \<in> set ts \<and> OnTask (ta_key (vs ! j)) \<in> set (ta_requires (vs ! Suc j))"
    if "Ordered os \<in> set pts" "get_tasks_from_ordered_task_list (Ordered os) = Inr vs" "Suc j < length vs" for os vs j
  proof -
    from that(2,3) obtain w ws where "vs = w # chain_tasks (ta_key w) ws"
      by (cases os) (auto simp: rbind_Inr_iff)
    then have "OnTask (ta_key (vs ! j)) \<in> set (ta_requires (vs ! Suc j))"
      using chain_tasks_requires [of j w ws] that(3) by blast
    moreover from tss that(1,2) have "vs \<in> set tss" using map_res_value by metis
    then have "set vs \<subseteq> set ts" unfolding us(1) by auto
    ultimately show ?thesis using that(3) by (auto intro: nth_mem [THEN subsetD [OF \<open>set vs \<subseteq> set ts\<close>], simplified])
  qed
  with tss us closed show ?thesis by blast
qed

section \<open>Checks of the tasks of a plugin\<close>

definition quote :: "string \<Rightarrow> string" where
  "quote s = CHR 0x22 # s @ [CHR 0x22]"

fun group_by_unique_id :: "plugin_task \<Rightarrow> (string \<times> task list) list \<Rightarrow> (string \<times> task list) list" where
  "group_by_unique_id (Single t) d = (if is_config t then add_at (ta_unique_id t) t d else d)"
| "group_by_unique_id (Ordered ts) d = fold group_by_unique_id ts d"

definition find_duplicated_tasks :: "plugin_task list \<Rightarrow> (string \<times> task list) list" where
  "find_duplicated_tasks pts = filter (\<lambda>(u, ts). length ts \<noteq> 1) (fold group_by_unique_id pts [])"

definition format_duplicated :: "(task \<Rightarrow> string) \<Rightarrow> string \<Rightarrow> (string \<times> task list) list \<Rightarrow> string" where
  "format_duplicated show_task plugin dups =
     ''Plugin '' @ quote plugin @ '' created tasks with duplicated '' @ quote ''unique_id'' @ '' field: '' @
     concat (map (\<lambda>(u, ts). ''[unique_id '' @ quote u @ '' tasks]: ['' @
       concat (map (\<lambda>t. quote (ta_description t) @ '': '' @ show_task t @ ''; '') ts) @ '']'') dups)"

definition check_duplicated_tasks :: "(task \<Rightarrow> string) \<Rightarrow> string \<Rightarrow> plugin_task list \<Rightarrow> unit res" where
  "check_duplicated_tasks show_task plugin pts =
     (let dups = find_duplicated_tasks pts
      in if dups \<noteq> [] then Inl (NonUniqueTaskException (format_duplicated show_task plugin dups)) else Inr ())"

text \<open>A dependency is a task, a query item or a pair; the message also names the type of one that is
  something else. What a task replaces is always a pair here.\<close>

definition check_task_attributes_datatype ::
  "task list \<Rightarrow> (task \<Rightarrow> string) \<Rightarrow> string \<Rightarrow> plugin_task list \<Rightarrow> unit res" where
  "check_task_attributes_datatype objects show_task plugin pts =
     rbind (rewrite_ordered_task_lists objects pts) (\<lambda>ts.
       case List.find (\<lambda>t. OnOther \<in> set (ta_requires t)) ts of
         Some t \<Rightarrow> Inl (TaskValidationException (''Error in plugin '' @ quote plugin @ '': Task '' @
           quote (show_task t) @ '' contains invalid data type in its '' @ quote ''requires'' @ '' set'') [])
       | None \<Rightarrow> Inr ())"

text \<open>The callback of a callback task that is not in an ordered list must be a method of a plugin.\<close>

fun plain_callback :: "plugin_task \<Rightarrow> task option" where
  "plain_callback (Single t) = (if ta_class t = CallbackTaskC then Some t else None)"
| "plain_callback (Ordered ts) = None"

definition validate_tasks ::
  "(task \<Rightarrow> bool) \<Rightarrow> nat \<Rightarrow> (future_item \<Rightarrow> string \<Rightarrow> pyval option res) \<Rightarrow> plugin_task list \<Rightarrow> unit res" where
  "validate_tasks plugin_method n value_of pts =
     for_res (\<lambda>p _. rbind (validate_plugin_task n value_of p) (\<lambda>_.
       case plain_callback p of
         Some t \<Rightarrow> if plugin_method t then Inr ()
                   else Inl (TaskValidationException ''CallbackTask must use a method of the Plugin'' [])
       | None \<Rightarrow> Inr ())) pts ()"

text \<open>What the checks ask of the plugins and of the tasks they made: the text of a task, whether its
  callback is a method of a plugin, the values of properties, how deep values may refer to values, and
  the task objects dependencies may name.\<close>

record plugin_env =
  pe_objects :: "task list"
  pe_show_task :: "task \<Rightarrow> string"
  pe_show_exn :: "exn \<Rightarrow> string"
  pe_plugin_method :: "task \<Rightarrow> bool"
  pe_depth :: nat
  pe_value_of :: "future_item \<Rightarrow> string \<Rightarrow> pyval option res"

definition check_tasks :: "plugin_env \<Rightarrow> string \<Rightarrow> plugin_task list \<Rightarrow> unit res" where
  "check_tasks pe plugin pts =
     rbind (validate_tasks (pe_plugin_method pe) (pe_depth pe) (pe_value_of pe) pts) (\<lambda>_.
     rbind (check_duplicated_tasks (pe_show_task pe) plugin pts) (\<lambda>_.
       check_task_attributes_datatype (pe_objects pe) (pe_show_task pe) plugin pts))"

text \<open>The name of the plugin is put on the tasks, in an ordered list on its elements.\<close>

definition of_plugin :: "string \<Rightarrow> task \<Rightarrow> task" where
  "of_plugin n t = t\<lparr>ta_plugin_name := Some n\<rparr>"

fun name_element :: "string \<Rightarrow> plugin_task \<Rightarrow> plugin_task" where
  "name_element n (Single t) = Single (of_plugin n t)"
| "name_element n (Ordered ts) = Ordered ts"

fun name_plugin :: "string \<Rightarrow> plugin_task \<Rightarrow> plugin_task" where
  "name_plugin n (Single t) = Single (of_plugin n t)"
| "name_plugin n (Ordered ts) = Ordered (map (name_element n) ts)"

text \<open>A plugin: its name, the name of its class, and what its method returns, if it has it.\<close>

type_synonym plugin_answer = "string \<times> string \<times> plugin_task list res option"

definition create_tasks_for_single_plugin ::
  "plugin_env \<Rightarrow> string \<Rightarrow> string \<Rightarrow> plugin_task list res \<Rightarrow> plugin_task list res" where
  "create_tasks_for_single_plugin pe name class answer =
     rbind answer (\<lambda>pts.
       let pts = map (name_plugin name) pts
       in rbind (check_tasks pe class pts) (\<lambda>_. Inr pts))"

fun plugin_failure :: "(exn \<Rightarrow> string) \<Rightarrow> string \<Rightarrow> exn \<Rightarrow> exn" where
  "plugin_failure show_exn name (PluginError msg) = PluginError msg"
| "plugin_failure show_exn name (ViewError msg) = ViewError msg"
| "plugin_failure show_exn name e =
     GenericException (''Exception creating configuration from plugin '' @ name @ '': '' @ show_exn e)"

fun create_plugin_tasks :: "plugin_env \<Rightarrow> plugin_answer list \<Rightarrow> plugin_task list res" where
  "create_plugin_tasks pe [] = Inr []"
| "create_plugin_tasks pe ((name, class, None) # ps) = create_plugin_tasks pe ps"
| "create_plugin_tasks pe ((name, class, Some answer) # ps) =
     (case create_tasks_for_single_plugin pe name class answer of
        Inl e \<Rightarrow> Inl (plugin_failure (pe_show_exn pe) name e)
      | Inr pts \<Rightarrow> rbind (create_plugin_tasks pe ps) (\<lambda>rest. Inr (pts @ rest)))"

section \<open>Tasks that replace others\<close>

definition replace_keys :: "task \<Rightarrow> node_call list res" where
  "replace_keys t =
     rbind (if ta_replaces t = [] then Inr [] else rbind (live ''vpath'' (ta_node t)) (\<lambda>q. Inr [q])) (\<lambda>qs.
       Inr (concat (map (\<lambda>q. map (\<lambda>(ty, ci). (qi_vpath q, ty, ci)) (ta_replaces t)) qs)))"

definition replace_message :: "string \<Rightarrow> string \<times> string \<times> string \<Rightarrow> task \<Rightarrow> string" where
  "replace_message what k t =
     (case k of (v, ty, ci) \<Rightarrow> what @ ''('' @ quote ty @ '', '' @ quote ci @ '') for node '' @ quote (node_hostname (ta_node t)))"

text \<open>First several tasks that replace the same one are refused, then tasks that replace another task
  of the plan. Replacing a task that was never persisted is only logged.\<close>

definition replaced_twice :: "(task \<times> node_call) list \<Rightarrow> (task \<times> node_call) list" where
  "replaced_twice ks = map (\<lambda>i. ks ! i) (filter (\<lambda>i. snd (ks ! i) \<in> snd ` set (take i ks)) [0..<length ks])"

definition validate_task_replaces :: "task list \<Rightarrow> unit res" where
  "validate_task_replaces ts =
     (let ts = filter is_config ts
      in rbind (map_res (\<lambda>t. rbind (replace_keys t) (\<lambda>ks. Inr (map (Pair t) ks))) ts) (\<lambda>kss.
           let ks = concat kss; twice = replaced_twice ks
           in if twice \<noteq> [] then
                Inl (TaskValidationException ''Task validation errors occurred.''
                  (map (\<lambda>(t, k). replace_message ''There are multiple tasks trying to replace '' k t) twice))
              else rbind (create_task_dict_by_node_ct_ci ts) (\<lambda>d.
                let planned = filter (\<lambda>(t, k). snd k \<noteq> (ta_call_type t, ta_call_id t) \<and> map_of d k \<noteq> None) ks
                in if planned \<noteq> [] then
                     Inl (TaskValidationException ''Task validation errors occurred.''
                       (map (\<lambda>(t, k). replace_message ''A task is trying to replace another task '' k t @ '' defined in current plan'') planned))
                   else Inr ())))"

section \<open>Filters\<close>

definition filter_faulty_node_configtasks :: "task list \<Rightarrow> task list res" where
  "filter_faulty_node_configtasks ts =
     filter_res (\<lambda>t. if is_config t then rbind (live ''is_for_removal'' (ta_node t)) (\<lambda>q. Inr (qi_state q \<noteq> ForRemoval))
                     else Inr True) ts"

section \<open>What the checks of replacements accept\<close>

lemma replaced_twice_Nil: "replaced_twice ks = [] \<longleftrightarrow> distinct (map snd ks)"
proof -
  have "replaced_twice ks = [] \<longleftrightarrow> (\<forall>i < length ks. map snd ks ! i \<notin> set (take i (map snd ks)))"
    by (auto simp: replaced_twice_def filter_empty_conv take_map)
  also have "\<dots> \<longleftrightarrow> distinct (map snd ks)"
    by (auto simp: distinct_conv_nth in_set_conv_nth) (metis not_less_iff_gr_or_eq)
  finally show ?thesis .
qed

lemma call_dict_keys:
  "for_res (\<lambda>t d. rbind (call_key t) (\<lambda>k. Inr (add_at k t d))) ts d = Inr d' \<Longrightarrow>
    (map_of d' k = None \<longleftrightarrow> map_of d k = None \<and> \<not> (\<exists>t \<in> set ts. call_key t = Inr k))"
proof (induction ts arbitrary: d)
  case (Cons t ts)
  then obtain j where j: "call_key t = Inr j" "for_res (\<lambda>t d. rbind (call_key t) (\<lambda>k. Inr (add_at k t d))) ts (add_at j t d) = Inr d'"
    by (auto simp: rbind_Inr_iff)
  from Cons.IH [OF j(2)] j(1) show ?case by (auto simp: map_of_add_at)
qed simp

text \<open>The tasks that are accepted do not get in each other's way: what one of them replaces is
  replaced by no other, and it is not a task of the same plan unless it is the replacing task's own
  call.\<close>

theorem replacements_accepted:
  assumes "validate_task_replaces ts = Inr ()"
  shows "\<exists>kss. map_res replace_keys (filter is_config ts) = Inr kss \<and> distinct (concat kss) \<and>
    (\<forall>a \<in> set (filter is_config ts). \<forall>b \<in> set (filter is_config ts). \<forall>ks k. replace_keys a = Inr ks \<longrightarrow>
       k \<in> set ks \<longrightarrow> call_key b = Inr k \<longrightarrow> snd k = (ta_call_type a, ta_call_id a))"
proof -
  let ?ts = "filter is_config ts"
  from assms obtain pss d where pss: "map_res (\<lambda>t. rbind (replace_keys t) (\<lambda>ks. Inr (map (Pair t) ks))) ?ts = Inr pss"
    and once: "replaced_twice (concat pss) = []" and d: "create_task_dict_by_node_ct_ci ?ts = Inr d"
    and planned: "filter (\<lambda>(t, k). snd k \<noteq> (ta_call_type t, ta_call_id t) \<and> map_of d k \<noteq> None) (concat pss) = []"
    by (auto simp: validate_task_replaces_def Let_def rbind_Inr_iff split: if_splits)
  have "map_res replace_keys us = Inr (map (map snd) qss) \<and>
      (\<forall>a \<in> set us. \<forall>ks. replace_keys a = Inr ks \<longrightarrow> map (Pair a) ks \<in> set qss)"
    if "map_res (\<lambda>t. rbind (replace_keys t) (\<lambda>ks. Inr (map (Pair t) ks))) us = Inr qss" for us qss
    using that by (induction us arbitrary: qss) (auto simp: rbind_Inr_iff comp_def)
  from this [OF pss] have kss: "map_res replace_keys ?ts = Inr (map (map snd) pss)"
    and own: "\<And>a ks. a \<in> set ?ts \<Longrightarrow> replace_keys a = Inr ks \<Longrightarrow> map (Pair a) ks \<in> set pss" by blast+
  have "distinct (concat (map (map snd) pss))"
    using once by (simp add: replaced_twice_Nil map_concat)
  moreover have "snd k = (ta_call_type a, ta_call_id a)"
    if "a \<in> set ?ts" "b \<in> set ?ts" "replace_keys a = Inr ks" "k \<in> set ks" "call_key b = Inr k" for a b ks k
  proof -
    have "(a, k) \<in> set (concat pss)" using own [OF that(1,3)] that(4) by force
    moreover have "map_of d k \<noteq> None"
      using call_dict_keys [OF d [unfolded create_task_dict_by_node_ct_ci_def]] that(2,5) by blast
    ultimately show ?thesis using planned by (fastforce simp: filter_empty_conv)
  qed
  ultimately show ?thesis using kss by blast
qed

section \<open>Examples\<close>

definition plugin_example :: "plugin_task list" where
  "plugin_example =
     [Ordered [Single (sample_task ''a'' ConfigTaskC []), Single (sample_task ''b'' ConfigTaskC [OnTask ''c''])]]"

theorem ordered_lists_rewritten_witness:
  "\<exists>ts. rewrite_ordered_task_lists [sample_task ''c'' CallbackTaskC []] plugin_example = Inr ts \<and>
     keys_of ts = [''a'', ''b'', ''c''] \<and>
     (\<forall>t \<in> set ts. requires_met [sample_task ''c'' CallbackTaskC []] ts t)"
proof -
  have k: "map_sum id keys_of (rewrite_ordered_task_lists [sample_task ''c'' CallbackTaskC []] plugin_example) =
      Inr [''a'', ''b'', ''c'']" by code_simp
  then obtain ts where ts: "rewrite_ordered_task_lists [sample_task ''c'' CallbackTaskC []] plugin_example = Inr ts"
    by (cases "rewrite_ordered_task_lists [sample_task ''c'' CallbackTaskC []] plugin_example") auto
  with k ordered_lists_rewritten [OF ts] show ?thesis by simp
qed

definition replacing :: "task list" where
  "replacing = [(sample_task ''a'' ConfigTaskC [])\<lparr>ta_replaces := [(''type'', ''a''), (''type'', ''old'')]\<rparr>,
     sample_task ''b'' ConfigTaskC []]"

theorem replacements_accepted_witness:
  "\<exists>kss. map_res replace_keys (filter is_config replacing) = Inr kss \<and> distinct (concat kss)"
proof -
  have "validate_task_replaces replacing = Inr ()" by code_simp
  from replacements_accepted [OF this] show ?thesis by blast
qed

end
