(* ===== verification/Node_Locks.thy ===== *)
theory Node_Locks
  imports Plugin_Tasks Query_Item "HOL-Library.Multiset"
begin

text \<open>
  Which nodes \<open>litp/core/execution_manager.py\<close> locks while a plan runs, by the policies of
  \<open>litp/core/policies.py\<close>, the lock and unlock tasks \<open>litp/core/lock_task_creator.py\<close> asks the plugins
  for, and the remote execution tasks that are split so that a locked node has its own. A node is
  named by its vpath.
\<close>

section \<open>The nodes to lock\<close>

datatype lock_action = CREATE_LOCKS | NO_LOCKS | INITIAL_LOCKS

record lock_policy =
  lp_action :: lock_action
  lp_clusters :: "string list option"

definition policy_clusters :: "lock_policy \<Rightarrow> string list" where
  "policy_clusters p = (case lp_clusters p of Some cs \<Rightarrow> cs | None \<Rightarrow> [])"

text \<open>\<open>len(cluster.nodes)\<close>, and whether \<open>cluster.ha_manager\<close> is there and false.\<close>

fun attribute_len :: "item_type dict \<Rightarrow> store \<Rightarrow> item_attribute \<Rightarrow> nat res" where
  "attribute_len types st (PropAttr (Some (VStr s))) = Inr (length s)"
| "attribute_len types st (PropAttr v) = Inl (TypeError ''object has no len()'')"
| "attribute_len types st (ViewAttr c) = Inl (TypeError ''object has no len()'')"
| "attribute_len types st (ChildAttr None) = Inl (TypeError ''object has no len()'')"
| "attribute_len types st (ChildAttr (Some c)) = (if is_collection c then count_children types st c else Inr 0)"

fun attribute_false :: "item_attribute \<Rightarrow> bool" where
  "attribute_false (PropAttr v) \<longleftrightarrow> v \<in> {None, Some VNone, Some (VStr [])}"
| "attribute_false (ViewAttr c) \<longleftrightarrow> False"
| "attribute_false (ChildAttr c) \<longleftrightarrow> c = None"

definition without_ha_manager :: "item_type dict \<Rightarrow> store \<Rightarrow> model_item \<Rightarrow> bool" where
  "without_ha_manager types st c =
     (case get_attribute types st c ''ha_manager'' of
        Inr a \<Rightarrow> attribute_false a
      | Inl e \<Rightarrow> False)"

definition has_action :: "lock_action \<Rightarrow> lock_policy option \<Rightarrow> bool" where
  "has_action a p \<longleftrightarrow> (case p of Some q \<Rightarrow> lp_action q = a | None \<Rightarrow> False)"

definition is_node_to_be_locked ::
  "item_type dict \<Rightarrow> store \<Rightarrow> model_item \<Rightarrow> lock_policy option \<Rightarrow> bool res" where
  "is_node_to_be_locked types st node policy =
     rbind (get_cluster types st node) (\<lambda>c. case c of
       None \<Rightarrow> Inr False
     | Some cluster \<Rightarrow>
         rbind (rbind (get_attribute types st cluster ''nodes'') (attribute_len types st)) (\<lambda>n.
           if n \<le> 1 \<and> has_action INITIAL_LOCKS policy then Inr False
           else if without_ha_manager types st cluster then Inr False
           else if mi_state node = Initial then Inr (has_action INITIAL_LOCKS policy)
           else if mi_state cluster = Initial then Inr False
           else if has_action NO_LOCKS policy then Inr False
           else Inr (\<not> (has_action CREATE_LOCKS policy \<and>
                        mi_item_id cluster \<in> set (policy_clusters (the policy))))))"

text \<open>The node whose property \<open>is_locked\<close> says so: the first one in the table.\<close>

fun node_left_locked_in :: "item_type dict \<Rightarrow> store \<Rightarrow> store \<Rightarrow> model_item option res" where
  "node_left_locked_in types st [] = Inr None"
| "node_left_locked_in types st (i # is) =
     rbind (get_attribute types st i ''is_locked'') (\<lambda>a.
       if a = PropAttr (Some (VStr ''true'')) then Inr (Some i) else node_left_locked_in types st is)"

definition node_left_locked :: "item_type dict \<Rightarrow> store \<Rightarrow> model_item option res" where
  "node_left_locked types st = node_left_locked_in types st (query_items types st ''node'')"

fun left_locked_wanted :: "item_type dict \<Rightarrow> store \<Rightarrow> model_item \<Rightarrow> lock_policy list \<Rightarrow> bool res" where
  "left_locked_wanted types st node [] = Inr False"
| "left_locked_wanted types st node (p # ps) =
     (if lp_action p \<noteq> CREATE_LOCKS then left_locked_wanted types st node ps
      else if policy_clusters p = [] then Inr True
      else rbind (get_cluster types st node) (\<lambda>c.
        case c of
          None \<Rightarrow> Inl (AttributeError ''item_id'')
        | Some cluster \<Rightarrow>
            if mi_item_id cluster \<notin> set (policy_clusters p) then Inr True
            else left_locked_wanted types st node ps))"

definition add_node_left_locked :: "item_type dict \<Rightarrow> store \<Rightarrow> lock_policy list \<Rightarrow> string list res" where
  "add_node_left_locked types st policies =
     rbind (node_left_locked types st) (\<lambda>n. case n of
       None \<Rightarrow> Inr []
     | Some node \<Rightarrow>
         rbind (if policies = [] then Inr True else left_locked_wanted types st node policies) (\<lambda>b.
           Inr (if b then [mi_vpath node] else [])))"

text \<open>The nodes of all the tasks. A remote execution task has those it is for, a callback task that
  of its item.\<close>

definition nodes_of_task :: "task \<Rightarrow> string list res" where
  "nodes_of_task t =
     (case ta_class t of
        RemoteExecutionTaskC \<Rightarrow> Inr (map qi_vpath (ta_nodes t))
      | CallbackTaskC \<Rightarrow>
          rbind (live ''get_node'' (ta_item t)) (\<lambda>q.
            Inr (case node_or_ms q of Some n \<Rightarrow> [nd_vpath n] | None \<Rightarrow> []))
      | ConfigTaskC \<Rightarrow> rbind (live ''_model_item'' (ta_node t)) (\<lambda>q. Inr [qi_vpath q])
      | CleanupTaskC \<Rightarrow> Inl (ValueError ''invalid task''))"

definition get_all_nodes_of :: "task list \<Rightarrow> string list res" where
  "get_all_nodes_of ts = rbind (map_res nodes_of_task ts) (\<lambda>vss. Inr (remdups (concat vss)))"

definition wants_lock :: "item_type dict \<Rightarrow> store \<Rightarrow> lock_policy list \<Rightarrow> string \<Rightarrow> bool res" where
  "wants_lock types st policies v =
     rbind (query_by_vpath st v) (\<lambda>node.
       if policies = [] then is_node_to_be_locked types st node None
       else rbind (map_res (\<lambda>p. is_node_to_be_locked types st node (Some p)) policies) (\<lambda>bs.
         Inr (False \<notin> set bs)))"

definition get_nodes_to_be_locked ::
  "item_type dict \<Rightarrow> store \<Rightarrow> task list \<Rightarrow> lock_policy list \<Rightarrow> string list res" where
  "get_nodes_to_be_locked types st ts policies =
     rbind (get_all_nodes_of ts) (\<lambda>nodes.
     rbind (add_node_left_locked types st policies) (\<lambda>left.
     rbind (filter_res (wants_lock types st policies) nodes) (\<lambda>wanted.
       Inr (List.union left wanted))))"

section \<open>Remote execution tasks for several nodes\<close>

text \<open>A remote execution task for several nodes leaves those that are locked, and the management
  server, to tasks of their own; it stays for the others. The new tasks are named after the old one
  and the node; they are made without its tag.\<close>

definition split_key :: "string \<Rightarrow> string \<Rightarrow> string" where
  "split_key k v = k @ CHR 0x0A # v"

definition split_off :: "task \<Rightarrow> qitem \<Rightarrow> task" where
  "split_off t n =
     t\<lparr>ta_key := split_key (ta_key t) (qi_vpath n), ta_items := [], ta_tag_name := None, ta_state := TaskInitial,
       ta_lock_type := TypeOther, ta_group := None, ta_nodes := [n], ta_net_task := False, ta_index := 0,
       ta_pre_vxvm_bond := None\<rparr>"

definition split_remote_task :: "(string \<Rightarrow> bool) \<Rightarrow> task \<Rightarrow> task list" where
  "split_remote_task alone t =
     (if ta_class t \<noteq> RemoteExecutionTaskC \<or> length (ta_nodes t) = 1 then [t]
      else let own = filter (\<lambda>n. alone (qi_vpath n)) (ta_nodes t);
               rest = filter (\<lambda>n. \<not> alone (qi_vpath n)) (ta_nodes t)
           in map (split_off t) own @ (if rest \<noteq> [] then [t\<lparr>ta_nodes := rest\<rparr>] else []))"

definition split_remote_execution_tasks :: "item_type dict \<Rightarrow> store \<Rightarrow> task list \<Rightarrow> string list \<Rightarrow> task list" where
  "split_remote_execution_tasks types st ts locked =
     (let ms = query_items types st ''ms'';
          alone = (\<lambda>v. ms \<noteq> [] \<and> v = mi_vpath (hd ms) \<or> v \<in> set locked)
      in concat (map (split_remote_task alone) ts))"

definition is_remote :: "task \<Rightarrow> bool" where
  "is_remote t \<longleftrightarrow> ta_class t = RemoteExecutionTaskC"

lemma nodes_split_off: "concat (map ta_nodes (map (split_off t) ns)) = ns"
  by (induction ns) (simp_all add: split_off_def)

lemma split_remote_nodes: "mset (concat (map ta_nodes (split_remote_task alone t))) = mset (ta_nodes t)"
proof (cases "ta_class t \<noteq> RemoteExecutionTaskC \<or> length (ta_nodes t) = 1")
  case False
  let ?own = "filter (\<lambda>n. alone (qi_vpath n)) (ta_nodes t)" and ?rest = "filter (\<lambda>n. \<not> alone (qi_vpath n)) (ta_nodes t)"
  from False have "concat (map ta_nodes (split_remote_task alone t)) = ?own @ ?rest"
    using nodes_split_off [of t ?own] by (simp add: split_remote_task_def Let_def del: map_map)
  then show ?thesis by (simp only: mset_append mset_filter) (rule multiset_partition [symmetric])
qed (auto simp: split_remote_task_def)

lemma split_remote_class: "is_remote t \<Longrightarrow> u \<in> set (split_remote_task alone t) \<Longrightarrow> is_remote u"
  by (auto simp: split_remote_task_def is_remote_def split_off_def Let_def split: if_splits)

lemma split_other: "\<not> is_remote t \<Longrightarrow> split_remote_task alone t = [t]"
  by (simp add: split_remote_task_def is_remote_def)

lemma split_remote_apart:
  "u \<in> set (split_remote_task alone t) \<Longrightarrow> is_remote t \<Longrightarrow>
    length (ta_nodes u) = 1 \<or> (\<forall>n \<in> set (ta_nodes u). \<not> alone (qi_vpath n))"
  by (auto simp: split_remote_task_def is_remote_def split_off_def Let_def split: if_splits)

lemma filter_split:
  "filter is_remote (concat (map (split_remote_task alone) ts)) = concat (map (split_remote_task alone) (filter is_remote ts)) \<and>
   filter (\<lambda>t. \<not> is_remote t) (concat (map (split_remote_task alone) ts)) = filter (\<lambda>t. \<not> is_remote t) ts"
proof (induction ts)
  case (Cons t ts)
  show ?case
  proof (cases "is_remote t")
    case True
    then have "filter is_remote (split_remote_task alone t) = split_remote_task alone t"
      "filter (\<lambda>t. \<not> is_remote t) (split_remote_task alone t) = []"
      using split_remote_class by (auto simp: filter_id_conv filter_empty_conv)
    with Cons True show ?thesis by simp
  qed (use Cons split_other in simp)
qed simp

text \<open>C37: splitting the remote execution tasks keeps every node of every one of them, and a node that
  is locked is never together with another; the other tasks stay as they are.\<close>

theorem remote_tasks_split:
  assumes "us = split_remote_execution_tasks types st ts locked"
  shows "mset (concat (map ta_nodes (filter is_remote us))) = mset (concat (map ta_nodes (filter is_remote ts))) \<and>
    filter (\<lambda>t. \<not> is_remote t) us = filter (\<lambda>t. \<not> is_remote t) ts \<and>
    (\<forall>u \<in> set (filter is_remote us). length (ta_nodes u) = 1 \<or> (\<forall>n \<in> set (ta_nodes u). qi_vpath n \<notin> set locked))"
proof -
  define alone where "alone = (\<lambda>v. query_items types st ''ms'' \<noteq> [] \<and> v = mi_vpath (hd (query_items types st ''ms'')) \<or> v \<in> set locked)"
  have us: "us = concat (map (split_remote_task alone) ts)"
    by (simp add: assms split_remote_execution_tasks_def alone_def Let_def)
  have "mset (concat (map ta_nodes (concat (map (split_remote_task alone) rs)))) = mset (concat (map ta_nodes rs))" for rs
    by (induction rs) (simp_all add: split_remote_nodes)
  moreover have "length (ta_nodes u) = 1 \<or> (\<forall>n \<in> set (ta_nodes u). qi_vpath n \<notin> set locked)"
    if "u \<in> set (concat (map (split_remote_task alone) (filter is_remote ts)))" for u
    using that split_remote_apart by (fastforce simp: alone_def)
  ultimately show ?thesis using filter_split unfolding us by simp
qed

section \<open>Lock tasks\<close>

text \<open>What a plugin returns for a node: nothing, something that is no tuple, or a tuple whose elements
  may fail to be tasks.\<close>

datatype lock_answer = NoLockTasks | NoTuple | LockTuple "task option list"

fun validate_lock_tasks :: "lock_answer \<Rightarrow> unit res" where
  "validate_lock_tasks NoLockTasks = Inr ()"
| "validate_lock_tasks NoTuple = Inl (NodeLockException ''Lock/Unlock tasks must be returned as a tuple'')"
| "validate_lock_tasks (LockTuple ts) =
     (if length ts \<noteq> 2 then
        Inl (NodeLockException (''Incorect number of lock tasks returned: '' @ str_of_int (int (length ts))))
      else if None \<in> set ts then Inl (NodeLockException ''Lock/Unlock task is not an instance of Task'')
      else Inr ())"

fun mark_tasks :: "lock_answer \<Rightarrow> (task \<times> task) option" where
  "mark_tasks (LockTuple [Some a, Some b]) = Some (a\<lparr>ta_lock_type := TypeLock\<rparr>, b\<lparr>ta_lock_type := TypeUnlock\<rparr>)"
| "mark_tasks _ = None"

definition add_lock_answer ::
  "string \<Rightarrow> string \<Rightarrow> lock_answer \<Rightarrow> (string \<times> task \<times> task) list \<Rightarrow> (string \<times> task \<times> task) list res" where
  "add_lock_answer v hostname a locks =
     (if a = NoLockTasks \<or> a = LockTuple [] then Inr locks
      else rbind (validate_lock_tasks a) (\<lambda>_.
        if has_key v locks then
          Inl (NodeLockException (''Node lock/unlock tasks for node '' @ hostname @ '' have already been created.''))
        else case mark_tasks a of
          Some p \<Rightarrow> Inr (AList.update v p locks)
        | None \<Rightarrow> Inr locks))"

definition create_lock_tasks ::
  "store \<Rightarrow> (string \<Rightarrow> lock_answer list) \<Rightarrow> string list \<Rightarrow> (string \<times> task \<times> task) list res" where
  "create_lock_tasks st answers vs =
     for_res (\<lambda>v locks. rbind (query_by_vpath st v) (\<lambda>node.
       for_res (add_lock_answer v (case text_property (mi_properties node) ''hostname'' of Some h \<Rightarrow> h | None \<Rightarrow> ''None''))
         (answers v) locks)) vs []"

text \<open>Every pair of lock tasks is for one of the nodes and consists of a lock and an unlock task.\<close>

definition locks_ok :: "string set \<Rightarrow> (string \<times> task \<times> task) list \<Rightarrow> bool" where
  "locks_ok V locks \<longleftrightarrow> distinct (map fst locks) \<and> fst ` set locks \<subseteq> V \<and>
     (\<forall>(v, a, b) \<in> set locks. ta_lock_type a = TypeLock \<and> ta_lock_type b = TypeUnlock)"

lemma mark_tasks_types: "mark_tasks a = Some (p, q) \<Longrightarrow> ta_lock_type p = TypeLock \<and> ta_lock_type q = TypeUnlock"
  by (induction a rule: mark_tasks.induct) auto

lemma update_new: "k \<notin> fst ` set d \<Longrightarrow> AList.update k v d = d @ [(k, v)]"
  by (induction d) auto

lemma add_lock_answer_ok:
  assumes "add_lock_answer v h a locks = Inr locks'" and "locks_ok V locks" and "v \<in> V"
  shows "locks_ok V locks'"
proof (cases "locks' = locks")
  case False
  with assms(1) obtain p where p: "mark_tasks a = Some p" "locks' = AList.update v p locks" "\<not> has_key v locks"
    by (auto simp: add_lock_answer_def rbind_Inr_iff split: if_splits option.splits)
  obtain l u where lu: "p = (l, u)" by (cases p)
  have new: "v \<notin> fst ` set locks" using p(3) by (simp add: has_key_iff dict_keys_def)
  then have "locks' = locks @ [(v, p)]" unfolding p(2) by (rule update_new)
  with assms(2,3) new mark_tasks_types [OF p(1) [unfolded lu]] show ?thesis by (auto simp: locks_ok_def lu)
qed (use assms in simp)

lemma create_lock_tasks_ok:
  assumes "create_lock_tasks st answers vs = Inr locks"
  shows "locks_ok (set vs) locks"
proof -
  have inner: "locks_ok (set vs) l'" if "for_res (add_lock_answer v h) as l = Inr l'" "locks_ok (set vs) l" "v \<in> set vs" for v h as l l'
    using that by (induction as arbitrary: l) (auto simp: rbind_Inr_iff dest: add_lock_answer_ok)
  have "locks_ok (set vs) l'"
    if "for_res (\<lambda>v locks. rbind (query_by_vpath st v) (\<lambda>node.
       for_res (add_lock_answer v (case text_property (mi_properties node) ''hostname'' of Some h \<Rightarrow> h | None \<Rightarrow> ''None''))
         (answers v) locks)) ws l = Inr l'" "locks_ok (set vs) l" "set ws \<subseteq> set vs" for ws l l'
    using that by (induction ws arbitrary: l) (auto simp: rbind_Inr_iff dest: inner)
  from this [OF assms [unfolded create_lock_tasks_def]] show ?thesis by (simp add: locks_ok_def)
qed

section \<open>Examples\<close>

definition remote_example :: "task list" where
  "remote_example = [(sample_task ''a'' RemoteExecutionTaskC [])\<lparr>ta_nodes := map sample_item [''/n1'', ''/n2'', ''/n3'']\<rparr>,
     sample_task ''b'' ConfigTaskC []]"

theorem remote_tasks_split_witness:
  "(let us = split_remote_execution_tasks [] [] remote_example [''/n2''] in
     map (\<lambda>t. map qi_vpath (ta_nodes t)) us = [[''/n2''], [''/n1'', ''/n3''], []] \<and>
     mset (concat (map ta_nodes (filter is_remote us))) = mset (map sample_item [''/n1'', ''/n2'', ''/n3'']))"
proof -
  let ?us = "split_remote_execution_tasks [] [] remote_example [''/n2'']"
  have "map (\<lambda>t. map qi_vpath (ta_nodes t)) ?us = [[''/n2''], [''/n1'', ''/n3''], []]" by code_simp
  moreover have "concat (map ta_nodes (filter is_remote remote_example)) = map sample_item [''/n1'', ''/n2'', ''/n3'']"
    by (simp add: remote_example_def is_remote_def sample_task_def)
  ultimately show ?thesis using remote_tasks_split [OF refl, of "[]" "[]" remote_example "[''/n2'']"] by (simp add: Let_def)
qed

end
