(* ===== verification/Removal_Tasks.thy ===== *)
theory Removal_Tasks
  imports Node_Locks
begin

text \<open>
  \<open>_create_removal_tasks\<close> of \<open>litp/core/execution_manager.py\<close>: every item that is marked for removal
  gets a task in the plan. Either plugins made one, or the configuration tasks that were persisted for
  it are taken out of the manifests, or a cleanup task stands for it. \<open>persisted\<close> are all the tasks
  of the Puppet manager.
\<close>

section \<open>New tasks\<close>

definition new_task :: "string \<Rightarrow> task_class \<Rightarrow> qitem \<Rightarrow> string \<Rightarrow> task" where
  "new_task k c q description =
     \<lparr>ta_key = k, ta_class = c, ta_item = Live q, ta_items = [], ta_description = description,
      ta_tag_name = None, ta_state = TaskInitial, ta_lock_type = TypeOther, ta_requires = [], ta_group = None,
      ta_plugin_name = None, ta_unique_id = cleanup_unique_id (qi_vpath q), ta_args = [], ta_kwargs = [],
      ta_node = Live q, ta_call_type = ''cleanup'', ta_call_id = [], ta_persist = False, ta_replaces = [],
      ta_dep_ids = [], ta_plugin_class = [], ta_nodes = [], ta_agent = [], ta_action = [],
      ta_net_task = False, ta_index = 0, ta_pre_vxvm_bond = None\<rparr>"

text \<open>The key of a created task is its number among the created ones.\<close>

definition removal_key :: "task list \<Rightarrow> string" where
  "removal_key created = ''removal '' @ str_of_int (int (length created))"

definition cleanup_task :: "task list \<Rightarrow> qitem \<Rightarrow> task" where
  "cleanup_task created q = new_task (removal_key created) CleanupTaskC q ''Remove Item''"

definition deconfigure_task :: "task list \<Rightarrow> item_at \<Rightarrow> qitem \<Rightarrow> (string \<times> string) list \<Rightarrow> task" where
  "deconfigure_task created node q replaces =
     (new_task (removal_key created) ConfigTaskC q
       (''Remove Item'' @ CHR 0x27 # ''s resource from node '' @ quote (node_hostname node) @ '' puppet manifest''))
       \<lparr>ta_node := node, ta_call_type := ''notify'', ta_call_id := qi_vpath q, ta_persist := True,
        ta_unique_id := config_unique_id (node_hostname node) ''notify'' (qi_vpath q), ta_replaces := replaces\<rparr>"

section \<open>Tasks of plugins for items that go\<close>

text \<open>\<open>list.remove\<close> takes the first equal element out; \<open>None\<close> is its \<open>ValueError\<close>.\<close>

fun remove_task :: "task \<Rightarrow> task list \<Rightarrow> task list option" where
  "remove_task t [] = None"
| "remove_task t (u # us) =
     (if ta_key u = ta_key t \<or> task_eq u t then Some us else map_option ((#) u) (remove_task t us))"

definition on_leaving_node :: "task \<Rightarrow> bool res" where
  "on_leaving_node t =
     (if is_config t then rbind (live ''is_for_removal'' (ta_node t)) (\<lambda>q. Inr (qi_state q = ForRemoval)) else Inr False)"

text \<open>The remaining tasks of the plan and those taken out.\<close>

fun drop_leaving :: "task list \<Rightarrow> task list \<times> task list \<Rightarrow> (task list \<times> task list) res" where
  "drop_leaving [] s = Inr s"
| "drop_leaving (t # ts) (plan, gone) =
     rbind (on_leaving_node t) (\<lambda>b.
       case (if b then remove_task t plan else None) of
         Some plan' \<Rightarrow> drop_leaving ts (plan', gone @ [t])
       | None \<Rightarrow> drop_leaving ts (plan, gone))"

definition all_gone :: "task list \<Rightarrow> task list \<Rightarrow> bool" where
  "all_gone ts gone \<longleftrightarrow> list_all (\<lambda>t. task_in t gone) ts"

definition filter_plugin_removal_task ::
  "task list \<Rightarrow> qitem \<Rightarrow> task list \<times> task list \<Rightarrow> (task list \<times> task list) res" where
  "filter_plugin_removal_task planned q s =
     rbind (drop_leaving planned (fst s, [])) (\<lambda>(plan, gone).
       Inr (plan, if all_gone planned gone then snd s @ [cleanup_task (snd s) q] else snd s))"

section \<open>Items that were configured before\<close>

definition call_type_and_id_in_tasks :: "task \<Rightarrow> task list \<Rightarrow> bool" where
  "call_type_and_id_in_tasks p ts \<longleftrightarrow>
     list_ex (\<lambda>t. is_config t \<and> at_vpath (ta_node p) = at_vpath (ta_node t) \<and>
       (ta_call_type t, ta_call_id t) = (ta_call_type p, ta_call_id p)) ts"

definition deconfigure_on_node ::
  "task list \<Rightarrow> task list \<Rightarrow> qitem \<Rightarrow> item_at \<Rightarrow> task list \<Rightarrow> task list res" where
  "deconfigure_on_node planned prevs q node created =
     rbind (live ''is_for_removal'' node) (\<lambda>n.
       if qi_state n = ForRemoval then Inr (created @ [cleanup_task created q])
       else rbind (map_res (\<lambda>p. live ''vpath'' (ta_node p)) prevs) (\<lambda>_.
         let here = filter (\<lambda>p. at_vpath (ta_node p) = qi_vpath n) prevs;
             again = filter (\<lambda>p. call_type_and_id_in_tasks p planned) here;
             left = filter (\<lambda>p. \<not> call_type_and_id_in_tasks p planned) here;
             created = fold (\<lambda>p cs. cs @ [cleanup_task cs q]) again created
         in Inr (if left = [] then created
                 else created @ [deconfigure_task created node q (map (\<lambda>p. (ta_call_type p, ta_call_id p)) left)])))"

definition deconfigure_nodes :: "item_type dict \<Rightarrow> store \<Rightarrow> model_item \<Rightarrow> task list \<Rightarrow> item_at list res" where
  "deconfigure_nodes types st i prevs =
     rbind (get_node_or_ms types st i) (\<lambda>n. case n of
       None \<Rightarrow> Inr (map ta_node prevs)
     | Some node \<Rightarrow> rbind (query_item types st node) (\<lambda>q. Inr [Live q]))"

definition is_net_item :: "item_type dict \<Rightarrow> model_item \<Rightarrow> bool" where
  "is_net_item types i \<longleftrightarrow> list_ex (mi_extends types i) net_task_item_types"

definition removal_step ::
  "item_type dict \<Rightarrow> store \<Rightarrow> task list \<Rightarrow> task list \<Rightarrow> model_item \<Rightarrow> task list \<times> task list \<Rightarrow> (task list \<times> task list) res" where
  "removal_step types st persisted planned0 i s =
     rbind (query_item types st i) (\<lambda>q.
       let v = mi_vpath i; planned = filter (\<lambda>t. item_vpath t = v) planned0;
           prevs = found_at (create_item_task_dict persisted) v
       in if planned \<noteq> [] then filter_plugin_removal_task planned q s
          else if prevs \<noteq> [] \<and> \<not> is_net_item types i then
            rbind (deconfigure_nodes types st i prevs) (\<lambda>nodes.
            rbind (for_res (deconfigure_on_node (fst s) prevs q) nodes (snd s)) (\<lambda>created.
              Inr (fst s, created)))
          else Inr (fst s, snd s @ [cleanup_task (snd s) q]))"

definition can_be_removed :: "item_type dict \<Rightarrow> bool \<Rightarrow> model_item \<Rightarrow> bool" where
  "can_be_removed types is_snapshot i \<longleftrightarrow> \<not> is_snapshot \<or> mi_extends types i ''snapshot-base''"

text \<open>The tasks that stay in the plan, and the tasks created.\<close>

definition create_removal_tasks ::
  "item_type dict \<Rightarrow> store \<Rightarrow> task list \<Rightarrow> task list \<Rightarrow> bool \<Rightarrow> (task list \<times> task list) res" where
  "create_removal_tasks types st persisted ts is_snapshot =
     for_res (removal_step types st persisted ts)
       (filter (can_be_removed types is_snapshot) (bm_query_by_states [ForRemoval] st)) (ts, [])"

section \<open>No item is forgotten\<close>

lemma task_eq_item: "task_eq a b \<Longrightarrow> item_vpath a = item_vpath b"
  by (auto simp: task_eq_defs split: task_class.split_asm)

lemma cleanup_item [simp]: "item_vpath (cleanup_task cs q) = qi_vpath q"
  by (simp add: cleanup_task_def new_task_def item_vpath_def)

lemma deconfigure_item [simp]: "item_vpath (deconfigure_task cs n q rs) = qi_vpath q"
  by (simp add: deconfigure_task_def new_task_def item_vpath_def)

lemma query_item_of: "query_item types st i = Inr q \<Longrightarrow> qi_vpath q = mi_vpath i \<and> qi_state q = mi_state i"
  by (auto simp: query_item_def rbind_Inr_iff)

definition same_task :: "task \<Rightarrow> task \<Rightarrow> bool" where
  "same_task a b \<longleftrightarrow> ta_key a = ta_key b \<or> task_eq a b"

lemma same_task_sym: "same_task a b \<Longrightarrow> same_task b a"
  using task_eq_sym by (auto simp: same_task_def)

lemma task_in_same: "task_in t ts \<longleftrightarrow> (\<exists>u \<in> set ts. same_task u t)"
  by (auto simp: task_in_def same_task_def list_ex_iff)

lemma remove_task_result:
  "remove_task t us = Some vs \<Longrightarrow> set vs \<subseteq> set us \<and> (\<forall>x \<in> set us. x \<notin> set vs \<longrightarrow> same_task x t)"
  by (induction us arbitrary: vs) (auto simp: same_task_def split: if_splits)

lemma drop_leaving_result:
  "drop_leaving ps (plan, gone) = Inr (plan', gone') \<Longrightarrow>
    set plan' \<subseteq> set plan \<and> set gone \<subseteq> set gone' \<and> set gone' \<subseteq> set gone \<union> set ps \<and>
    (\<forall>x \<in> set plan. x \<notin> set plan' \<longrightarrow> (\<exists>g \<in> set gone'. same_task x g))"
proof (induction ps arbitrary: plan gone)
  case (Cons t ts)
  from Cons.prems obtain b where b: "on_leaving_node t = Inr b" by (auto simp: rbind_Inr_iff)
  show ?case
  proof (cases "if b then remove_task t plan else None")
    case None
    with Cons.prems b Cons.IH [of plan gone] show ?thesis by auto
  next
    case (Some plan1)
    then have r: "set plan1 \<subseteq> set plan \<and> (\<forall>x \<in> set plan. x \<notin> set plan1 \<longrightarrow> same_task x t)"
      by (auto split: if_splits dest: remove_task_result)
    from Cons.prems b Some have "drop_leaving ts (plan1, gone @ [t]) = Inr (plan', gone')" by simp
    from Cons.IH [OF this] r show ?thesis by fastforce
  qed
qed simp

definition created_grows :: "task list \<Rightarrow> task list \<Rightarrow> bool" where
  "created_grows cs ds \<longleftrightarrow> set cs \<subseteq> set ds"

lemma fold_cleanup_grows: "set cs \<subseteq> set (fold (\<lambda>p cs. cs @ [cleanup_task cs q]) ps cs)"
proof (induction ps arbitrary: cs)
  case (Cons p ps)
  from Cons.IH [of "cs @ [cleanup_task cs q]"] show ?case by simp
qed simp

lemma fold_cleanup_covers:
  assumes "ps \<noteq> []"
  shows "\<exists>t \<in> set (fold (\<lambda>p cs. cs @ [cleanup_task cs q]) ps cs). item_vpath t = qi_vpath q"
proof -
  from assms obtain r rs where ps: "ps = r # rs" by (cases ps) auto
  have "set (cs @ [cleanup_task cs q]) \<subseteq> set (fold (\<lambda>p cs. cs @ [cleanup_task cs q]) rs (cs @ [cleanup_task cs q]))"
    by (rule fold_cleanup_grows)
  then show ?thesis unfolding ps by (intro bexI [of _ "cleanup_task cs q"]) auto
qed

lemma deconfigure_on_node_grows:
  "deconfigure_on_node planned prevs q node cs = Inr ds \<Longrightarrow> set cs \<subseteq> set ds"
  using fold_cleanup_grows by (fastforce simp: deconfigure_on_node_def rbind_Inr_iff Let_def split: if_splits)

lemma deconfigure_on_node_covers:
  assumes "deconfigure_on_node planned prevs q (Live n) cs = Inr ds"
    and "qi_state n = ForRemoval \<or> (\<exists>p \<in> set prevs. at_vpath (ta_node p) = qi_vpath n)"
  shows "\<exists>t \<in> set ds. item_vpath t = qi_vpath q"
proof (cases "qi_state n = ForRemoval")
  case True
  with assms(1) show ?thesis by (auto simp: deconfigure_on_node_def)
next
  case False
  define again where "again = filter (\<lambda>p. call_type_and_id_in_tasks p planned) (filter (\<lambda>p. at_vpath (ta_node p) = qi_vpath n) prevs)"
  define left where "left = filter (\<lambda>p. \<not> call_type_and_id_in_tasks p planned) (filter (\<lambda>p. at_vpath (ta_node p) = qi_vpath n) prevs)"
  define cs' where "cs' = fold (\<lambda>p cs. cs @ [cleanup_task cs q]) again cs"
  from False assms(2) have "again \<noteq> [] \<or> left \<noteq> []" by (auto simp: again_def left_def filter_empty_conv)
  moreover have "ds = (if left = [] then cs' else cs' @ [deconfigure_task cs' (Live n) q (map (\<lambda>p. (ta_call_type p, ta_call_id p)) left)])"
    using assms(1) False by (auto simp: deconfigure_on_node_def rbind_Inr_iff again_def left_def cs'_def Let_def)
  ultimately show ?thesis using fold_cleanup_covers [of again q cs] by (auto simp: cs'_def)
qed

lemma deconfigure_all_grows:
  "for_res (deconfigure_on_node planned prevs q) ns cs = Inr ds \<Longrightarrow> set cs \<subseteq> set ds"
  by (induction ns arbitrary: cs) (auto simp: rbind_Inr_iff dest!: deconfigure_on_node_grows)

text \<open>Whether the tasks that were persisted for an item are of use: some are on its node, or its node
  goes too. An item that is on no node has its tasks where they are.\<close>

definition reaches_node :: "item_type dict \<Rightarrow> store \<Rightarrow> task list \<Rightarrow> model_item \<Rightarrow> bool" where
  "reaches_node types st persisted i \<longleftrightarrow>
     (\<forall>n. get_node_or_ms types st i = Inr (Some n) \<longrightarrow> mi_state n = ForRemoval \<or>
        (\<exists>p \<in> set persisted. item_vpath p = mi_vpath i \<and> at_vpath (ta_node p) = mi_vpath n))"

definition has_task :: "string \<Rightarrow> task list \<times> task list \<Rightarrow> bool" where
  "has_task v s \<longleftrightarrow> (\<exists>t \<in> set (fst s) \<union> set (snd s). item_vpath t = v)"

lemma filter_plugin_result:
  assumes "filter_plugin_removal_task ps q s = Inr s'"
  shows "set (fst s') \<subseteq> set (fst s) \<and> set (snd s) \<subseteq> set (snd s') \<and>
    (\<forall>x \<in> set (fst s). x \<notin> set (fst s') \<longrightarrow> (\<exists>g \<in> set ps. same_task x g)) \<and>
    (ps \<noteq> [] \<longrightarrow> set ps \<subseteq> set (fst s) \<longrightarrow>
       (\<exists>t \<in> set (fst s') \<union> set (snd s'). t \<in> set ps \<or> item_vpath t = qi_vpath q))"
proof -
  from assms obtain plan gone where d: "drop_leaving ps (fst s, []) = Inr (plan, gone)"
    and s': "s' = (plan, if all_gone ps gone then snd s @ [cleanup_task (snd s) q] else snd s)"
    by (auto simp: filter_plugin_removal_task_def rbind_Inr_iff)
  note r = drop_leaving_result [OF d]
  have "\<exists>t \<in> set plan. t \<in> set ps" if "\<not> all_gone ps gone" "set ps \<subseteq> set (fst s)"
  proof -
    from that(1) obtain t where t: "t \<in> set ps" "\<not> task_in t gone" by (auto simp: all_gone_def list_all_iff)
    with r that(2) same_task_sym have "t \<in> set plan" by (fastforce simp: task_in_same)
    with t show ?thesis by blast
  qed
  moreover have "\<forall>x \<in> set (fst s). x \<notin> set plan \<longrightarrow> (\<exists>g \<in> set ps. same_task x g)"
    using r by (metis Un_iff empty_iff empty_set subsetD)
  ultimately show ?thesis using r unfolding s' by auto
qed

lemma same_task_item:
  assumes "same_task x g" and "x \<in> set ts" and "g \<in> set ts" and "distinct (keys_of ts)"
  shows "item_vpath x = item_vpath g"
  using assms task_eq_item inj_onD [of ta_key "set ts"] by (auto simp: same_task_def keys_of_def distinct_map)

lemma removal_step_frame:
  assumes "removal_step types st persisted ts j s = Inr s'" and "set (fst s) \<subseteq> set ts" and "distinct (keys_of ts)"
  shows "set (fst s') \<subseteq> set (fst s) \<and> set (snd s) \<subseteq> set (snd s') \<and>
    (\<forall>x \<in> set (fst s). item_vpath x \<noteq> mi_vpath j \<longrightarrow> x \<in> set (fst s'))"
proof -
  let ?ps = "filter (\<lambda>t. item_vpath t = mi_vpath j) ts"
  from assms(1) obtain q where q: "query_item types st j = Inr q" by (auto simp: removal_step_def rbind_Inr_iff)
  show ?thesis
  proof (cases "?ps \<noteq> []")
    case True
    with assms(1) q have f: "filter_plugin_removal_task ?ps q s = Inr s'" by (simp add: removal_step_def Let_def)
    have "x \<in> set (fst s')" if "x \<in> set (fst s)" "item_vpath x \<noteq> mi_vpath j" for x
      using filter_plugin_result [OF f] that same_task_item [OF _ _ _ assms(3)] assms(2) by fastforce
    with filter_plugin_result [OF f] show ?thesis by blast
  next
    case False
    with assms(1) q show ?thesis
      by (auto simp: removal_step_def Let_def rbind_Inr_iff split: if_splits dest!: deconfigure_all_grows)
  qed
qed

lemma deconfigure_all_covers:
  assumes "for_res (deconfigure_on_node planned prevs q) ns cs = Inr ds" and "Live n \<in> set ns"
    and "qi_state n = ForRemoval \<or> (\<exists>p \<in> set prevs. at_vpath (ta_node p) = qi_vpath n)"
  shows "\<exists>t \<in> set ds. item_vpath t = qi_vpath q"
  using assms(1,2)
proof (induction ns arbitrary: cs)
  case (Cons m ns)
  then obtain es where es: "deconfigure_on_node planned prevs q m cs = Inr es"
    "for_res (deconfigure_on_node planned prevs q) ns es = Inr ds" by (auto simp: rbind_Inr_iff)
  show ?case
  proof (cases "m = Live n")
    case True
    with deconfigure_on_node_covers [of planned prevs q n cs es] es(1) assms(3) deconfigure_all_grows [OF es(2)]
    show ?thesis by blast
  qed (use Cons es in auto)
qed simp

lemma deconfigure_nodes_reached:
  assumes "deconfigure_nodes types st i prevs = Inr ns" and "prevs \<noteq> []" and "for_res (deconfigure_on_node planned prevs q) ns cs = Inr ds"
    and "prevs = filter (\<lambda>t. item_vpath t = mi_vpath i) persisted" and "reaches_node types st persisted i"
  shows "\<exists>n. Live n \<in> set ns \<and> (qi_state n = ForRemoval \<or> (\<exists>p \<in> set prevs. at_vpath (ta_node p) = qi_vpath n))"
proof (cases "get_node_or_ms types st i")
  case (Inr node)
  show ?thesis
  proof (cases node)
    case None
    with assms(1) Inr have ns: "ns = map ta_node prevs" by (simp add: deconfigure_nodes_def)
    from assms(2) obtain p ps where prevs: "prevs = p # ps" by (cases prevs) auto
    from assms(3) have "\<exists>n. ta_node p = Live n"
      by (cases "ta_node p") (auto simp: ns prevs deconfigure_on_node_def rbind_Inr_iff)
    with ns prevs show ?thesis by auto
  next
    case (Some n)
    with assms(1) Inr obtain q where q: "query_item types st n = Inr q" "ns = [Live q]"
      by (auto simp: deconfigure_nodes_def rbind_Inr_iff)
    from query_item_of [OF q(1)] assms(4,5) Inr Some q(2) show ?thesis
      by (auto simp: reaches_node_def)
  qed
qed (use assms(1) in \<open>simp add: deconfigure_nodes_def\<close>)

lemma removal_step_covers:
  assumes "removal_step types st persisted ts i s = Inr s'"
    and "\<forall>x \<in> set ts. item_vpath x = mi_vpath i \<longrightarrow> x \<in> set (fst s)" and "reaches_node types st persisted i"
  shows "has_task (mi_vpath i) s'"
proof -
  let ?ps = "filter (\<lambda>t. item_vpath t = mi_vpath i) ts" and ?prevs = "filter (\<lambda>t. item_vpath t = mi_vpath i) persisted"
  from assms(1) obtain q where q: "query_item types st i = Inr q" by (auto simp: removal_step_def rbind_Inr_iff)
  note v = query_item_of [OF q]
  consider (plugin) "?ps \<noteq> []" | (persisted) "?ps = []" "?prevs \<noteq> []" "\<not> is_net_item types i"
    | (cleanup) "?ps = []" "?prevs = [] \<or> is_net_item types i" by blast
  then show ?thesis
  proof cases
    case plugin
    with assms(1) q have f: "filter_plugin_removal_task ?ps q s = Inr s'" by (simp add: removal_step_def Let_def)
    from filter_plugin_result [OF f] plugin assms(2) v show ?thesis unfolding has_task_def by fastforce
  next
    case persisted
    with assms(1) q obtain ns created where ns: "deconfigure_nodes types st i ?prevs = Inr ns"
      and c: "for_res (deconfigure_on_node (fst s) ?prevs q) ns (snd s) = Inr created" "s' = (fst s, created)"
      by (auto simp: removal_step_def Let_def rbind_Inr_iff item_task_dict_at)
    from deconfigure_nodes_reached [OF ns persisted(2) c(1) refl assms(3)] deconfigure_all_covers [OF c(1)] v c(2)
    show ?thesis by (auto simp: has_task_def)
  next
    case cleanup
    with assms(1) q v show ?thesis by (auto simp: removal_step_def Let_def has_task_def item_task_dict_at)
  qed
qed

lemma has_task_kept:
  assumes "for_res (removal_step types st persisted ts) js s = Inr s'" and "set (fst s) \<subseteq> set ts"
    and "distinct (keys_of ts)" and "v \<notin> mi_vpath ` set js"
  shows "(has_task v s \<longrightarrow> has_task v s') \<and> (\<forall>x \<in> set (fst s). item_vpath x = v \<longrightarrow> x \<in> set (fst s')) \<and>
    set (fst s') \<subseteq> set ts"
  using assms(1,2,4)
proof (induction js arbitrary: s)
  case (Cons j js)
  then obtain u where u: "removal_step types st persisted ts j s = Inr u"
    "for_res (removal_step types st persisted ts) js u = Inr s'" by (auto simp: rbind_Inr_iff)
  note f = removal_step_frame [OF u(1) Cons.prems(2) assms(3)]
  then have sub: "set (fst u) \<subseteq> set ts" using Cons.prems(2) by blast
  from Cons.prems(3) have "v \<noteq> mi_vpath j" "v \<notin> mi_vpath ` set js" by auto
  with Cons.IH [OF u(2) sub] f show ?case unfolding has_task_def by blast
qed simp


section \<open>Examples\<close>

definition leaving_store :: store where
  "leaving_store =
     [(new_model_item ModelItemC ''node'' ''n'' (Some ''/'') [])\<lparr>mi_state := Applied\<rparr>,
      (new_model_item ModelItemC ''thing'' ''a'' (Some ''/n'') [])\<lparr>mi_state := ForRemoval\<rparr>]"

definition leaving_item :: model_item where
  "leaving_item = (new_model_item ModelItemC ''thing'' ''a'' (Some ''/n'') [])\<lparr>mi_state := ForRemoval\<rparr>"


text \<open>When the persisted tasks of an item are all on other nodes than its own, the item gets no task.\<close>

lemma item_forgotten:
  "create_removal_tasks ex_registered leaving_store
     [(sample_task ''a'' ConfigTaskC [])\<lparr>ta_node := Live (sample_item ''/ms'')\<rparr>] [] False = Inr ([], [])"
  by code_simp

text \<open>An item on no node with two persisted tasks on one node gets two tasks that are alike.\<close>

definition loose_store :: store where
  "loose_store = [leaving_item\<lparr>mi_parent_vpath := None\<rparr>]"

lemma removal_tasks_doubled:
  "map_sum id (map (\<lambda>t. (ta_call_type t, ta_call_id t)) \<circ> snd)
     (create_removal_tasks ex_registered loose_store
       [sample_task ''a'' ConfigTaskC [], (sample_task ''a'' ConfigTaskC [])\<lparr>ta_call_id := ''b''\<rparr>] [] False) =
   Inr [(''notify'', ''/n/a''), (''notify'', ''/n/a'')]"
  by code_simp

end
