(* ===== verification/Plan_Creation.thy ===== *)
theory Plan_Creation
  imports Removal_Tasks
begin

text \<open>
  \<open>_create_plan\<close> and \<open>_create_reboot_plan\<close> of \<open>litp/core/execution_manager.py\<close>: from the answers of
  the plugins to the plan. After the steps of the theories before, the tasks get their groups, the
  tasks that boot nodes theirs, dependencies and groups are validated, and the plan builder makes the
  phases of the plan.
\<close>

section \<open>Validation of the dependencies\<close>

text \<open>The node of a task, where the code compares nodes: by vpath.\<close>

definition em_task_node :: "task \<Rightarrow> string option res" where
  "em_task_node t =
     (case ta_class t of
        ConfigTaskC \<Rightarrow> Inr (Some (at_vpath (ta_node t)))
      | RemoteExecutionTaskC \<Rightarrow>
          (case ta_nodes t of [n] \<Rightarrow> Inr (Some (qi_vpath n)) | _ \<Rightarrow> Inl (ValueError ''no or multiple nodes for task''))
      | CallbackTaskC \<Rightarrow> rbind (live ''get_node'' (ta_item t)) (\<lambda>q. Inr (map_option nd_vpath (node_or_ms q)))
      | CleanupTaskC \<Rightarrow> Inl (ValueError ''unknown type for task''))"

definition group_text :: "string option \<Rightarrow> string" where
  "group_text g = (case g of Some s \<Rightarrow> s | None \<Rightarrow> ''None'')"

definition different_groups :: "task \<Rightarrow> task \<Rightarrow> unit res" where
  "different_groups t r =
     rbind (live ''vpath'' (ta_item t)) (\<lambda>q. rbind (live ''vpath'' (ta_item r)) (\<lambda>p.
       Inl (TaskValidationException (''Task for item '' @ qi_vpath q @ '' in group '' @ group_text (ta_group t) @
         '' and its dependent task for item '' @ qi_vpath p @ '' in group '' @ group_text (ta_group r) @
         '' are in different groups'') [])))"

definition NODE_GROUP :: string where
  "NODE_GROUP = ''DEPLOYMENT_NODE_GROUP''"

text \<open>The exception for tasks of the group of the management server is never taken: two tasks of that
  group are not in different groups.\<close>

definition validate_task_dependency :: "task \<Rightarrow> task \<Rightarrow> unit res" where
  "validate_task_dependency t r =
     (if ta_group t \<noteq> ta_group r then
        if ta_group t = Some MS_GROUP \<and> ta_group r = Some MS_GROUP then
          rbind (can_have_dependency_for_validation t r) (\<lambda>ok.
            if ok then Inr () else Inl (TaskValidationException ''Required task relates to a different node'' []))
        else different_groups t r
      else if ta_group t = Some NODE_GROUP then
        rbind (em_task_node t) (\<lambda>n. rbind (em_task_node r) (\<lambda>m.
          if n \<noteq> m then Inl (TaskValidationException ''Required task relates to a different node'' []) else Inr ()))
      else Inr ())"

definition group_priority :: "task \<Rightarrow> nat res" where
  "group_priority t =
     (case ta_group t of
        None \<Rightarrow> Inl (KeyError ''None'')
      | Some g \<Rightarrow> (case map_of index_groups_by_priority g of None \<Rightarrow> Inl (KeyError g) | Some i \<Rightarrow> Inr i))"

definition validate_item_node :: "item_type dict \<Rightarrow> store \<Rightarrow> task \<Rightarrow> string \<Rightarrow> unit res" where
  "validate_item_node types st t v =
     (if ta_group t \<noteq> Some NODE_GROUP then Inr ()
      else rbind (query_by_vpath st v) (\<lambda>i. rbind (get_node types st i) (\<lambda>rnode.
        case rnode of
          None \<Rightarrow> Inl (TaskValidationException (''Required item doesn'' @ CHR 0x27 # ''t relate to a node'') [])
        | Some n \<Rightarrow> rbind (em_task_node t) (\<lambda>tnode.
            case tnode of
              None \<Rightarrow> Inl (AttributeError ''_model_item'')
            | Some w \<Rightarrow> if mi_vpath n \<noteq> w then
                Inl (TaskValidationException ''Required item relates to a different node'' []) else Inr ()))))"

definition validate_item_group :: "task \<Rightarrow> task \<Rightarrow> unit res" where
  "validate_item_group t r =
     rbind (group_priority t) (\<lambda>i. rbind (group_priority r) (\<lambda>j. if i < j then different_groups t r else Inr ()))"

text \<open>A required task that is not in the list keeps the group it has among \<open>objects\<close>, none.\<close>

definition the_task :: "task list \<Rightarrow> task list \<Rightarrow> string \<Rightarrow> task res" where
  "the_task objects ts k =
     (case task_at ts k of
        Some r \<Rightarrow> Inr r
      | None \<Rightarrow> (case task_at objects k of Some r \<Rightarrow> Inr r | None \<Rightarrow> Inl (KeyError k)))"

fun validate_dependency ::
  "item_type dict \<Rightarrow> store \<Rightarrow> task list \<Rightarrow> task list \<Rightarrow> task \<Rightarrow> dependency \<Rightarrow> unit res" where
  "validate_dependency types st objects ts t (OnTask k) = rbind (the_task objects ts k) (validate_task_dependency t)"
| "validate_dependency types st objects ts t (OnQuery v) =
     rbind (validate_item_node types st t v) (\<lambda>_.
       for_res (\<lambda>r _. validate_item_group t r) (find_by_partial_vpath ts v) ())"
| "validate_dependency types st objects ts t (OnCall ty ci) =
     (if list_ex (\<lambda>u. is_config u \<and> ta_key u \<noteq> ta_key t \<and> ta_call_type u = ty \<and> ta_call_id u = ci \<and>
           ta_group u \<noteq> ta_group t) ts
      then Inl (TaskValidationException ''Required ConfigTask(s) in different group'' []) else Inr ())"
| "validate_dependency types st objects ts t OnOther = Inl (TaskValidationException ''Invalid task dependency'' [])"

definition validate_task_dependencies ::
  "item_type dict \<Rightarrow> store \<Rightarrow> task list \<Rightarrow> task list \<Rightarrow> unit res" where
  "validate_task_dependencies types st objects ts =
     for_res (\<lambda>t _. for_res (\<lambda>d _. validate_dependency types st objects ts t d) (ta_requires t) ()) ts ()"

definition deployment_groups :: "string list" where
  "deployment_groups = [NODE_GROUP, ''DEPLOYMENT_CLUSTER_GROUP'', ''DEPLOYMENT_PRE_NODE_CLUSTER_GROUP'']"

definition validate_group :: "task \<Rightarrow> unit res" where
  "validate_group t =
     (if is_config t \<or> ta_group t \<notin> Some ` set deployment_groups then Inr ()
      else rbind (live ''vpath'' (ta_item t)) (\<lambda>q.
        if prefix ''/deployments'' (qi_vpath q) then Inr ()
        else Inl (TaskValidationException (''Task for item '' @ quote (qi_vpath q) @ '' in group '' @
          quote (group_text (ta_group t)) @ '' must have an associated model item under '' @ quote ''/deployments'') [])))"

definition validate_task_group :: "task list \<Rightarrow> unit res" where
  "validate_task_group ts = for_res (\<lambda>t _. validate_group t) ts ()"

section \<open>Booting nodes\<close>

definition get_task_boot_group :: "lock_policy list \<Rightarrow> string" where
  "get_task_boot_group policies =
     (if list_ex (\<lambda>p. lp_action p = INITIAL_LOCKS) policies
      then ''DEPLOYMENT_UPGRADE_BOOT_GROUP'' else ''DEPLOYMENT_BOOT_GROUP'')"

definition item_hostname :: "task \<Rightarrow> string res" where
  "item_hostname t =
     rbind (live ''get_node'' (ta_item t)) (\<lambda>q.
       case node_or_ms q of Some n \<Rightarrow> Inr (nd_hostname n) | None \<Rightarrow> Inl (AttributeError ''hostname''))"

definition is_boot_task :: "task \<Rightarrow> bool" where
  "is_boot_task t \<longleftrightarrow> is_callback t \<and> ta_tag_name t = Some ''DEPLOYMENT_BOOT_TAG''"

definition waits_for_boot :: "task \<Rightarrow> bool" where
  "waits_for_boot t \<longleftrightarrow>
     is_callback t \<and> ta_group t = Some NODE_GROUP \<and> ta_plugin_name t = Some ''bootmgr_plugin'' \<and>
     ta_call_type t \<in> {''_wait_for_pxe_boot'', ''_wait_for_node'', ''_remove_from_cobbler'', ''_disable_netboot''}"

text \<open>First the tasks that carry the boot tag, by host name; then the tasks of the boot manager that
  wait for a node come to require those of their node.\<close>

definition boot_dependencies :: "task list \<Rightarrow> (string \<times> string list) list res" where
  "boot_dependencies ts =
     for_res (\<lambda>t d. rbind (item_hostname t) (\<lambda>h. Inr (add_at h (ta_key t) d))) (filter is_boot_task ts) []"

definition boot_waiting :: "string \<Rightarrow> (string \<times> string list) list \<Rightarrow> task \<Rightarrow> task res" where
  "boot_waiting g deps t =
     (if waits_for_boot t then
        (if deps = [] then Inr (t\<lparr>ta_group := Some g\<rparr>)
         else rbind (item_hostname t) (\<lambda>h. Inr (fold require (found_at deps h) (t\<lparr>ta_group := Some g\<rparr>))))
      else Inr t)"

definition apply_boot_rules :: "lock_policy list \<Rightarrow> task list \<Rightarrow> task list res" where
  "apply_boot_rules policies ts =
     rbind (boot_dependencies ts) (\<lambda>deps.
       let g = get_task_boot_group policies
       in map_res (boot_waiting g deps) (map (\<lambda>t. if is_boot_task t then t\<lparr>ta_group := Some g\<rparr> else t) ts))"

section \<open>The plan\<close>

text \<open>What the plan asks of a task: the cluster of its node and of its item.\<close>

definition cluster_at :: "item_type dict \<Rightarrow> store \<Rightarrow> string \<Rightarrow> cluster_item option res" where
  "cluster_at types st v =
     rbind (query_by_vpath st v) (\<lambda>i. rbind (get_cluster types st i) (opt_res (cluster_item_of st)))"

definition plan_task_of :: "item_type dict \<Rightarrow> store \<Rightarrow> task \<Rightarrow> plan_task res" where
  "plan_task_of types st t =
     rbind (case ta_item t of
              Gone v \<Rightarrow> Inr None
            | Live q \<Rightarrow> rbind (get_task_node t) (\<lambda>n. case n of
                None \<Rightarrow> Inr None
              | Some v \<Rightarrow> rbind (cluster_at types st v) (\<lambda>c. Inr (Some c)))) (\<lambda>node.
       Inr \<lparr>pt_id = ta_key t, pt_class = ta_class t, pt_state = ta_state t, pt_group = ta_group t,
            pt_model_item = (case ta_item t of Live q \<Rightarrow> LiveItem (qi_cluster q) | Gone v \<Rightarrow> DeletedItem v),
            pt_node = node\<rparr>)"

record creation_env =
  cr_types :: "item_type dict"
  cr_store :: store
  cr_plugin :: plugin_env
  cr_persisted :: "task list"
  cr_locks :: "string \<Rightarrow> lock_answer list"
  cr_builder :: builder_env

text \<open>\<open>_create_plan\<close> up to the plan builder: the tasks, the cleanup tasks and the lock tasks.\<close>

type_synonym plan_parts = "task list \<times> task list \<times> (string \<times> task \<times> task) list"

definition grouped_tasks :: "creation_env \<Rightarrow> lock_policy list \<Rightarrow> task list \<Rightarrow> (task list \<times> (string \<times> task \<times> task) list) res" where
  "grouped_tasks ce policies ts =
     (let types = cr_types ce; st = cr_store ce
      in rbind (get_nodes_to_be_locked types st ts policies) (\<lambda>nodes.
         rbind (apply_boot_rules policies (setup_tasks_groups (split_remote_execution_tasks types st ts nodes))) (\<lambda>us.
         rbind (validate_task_dependencies types st (pe_objects (cr_plugin ce) @ ts) us) (\<lambda>_.
         rbind (validate_task_group us) (\<lambda>_.
         rbind (create_lock_tasks st (cr_locks ce) nodes) (\<lambda>locks.
           Inr (us, locks)))))))"

definition deployment_parts :: "creation_env \<Rightarrow> plugin_answer list \<Rightarrow> lock_policy list \<Rightarrow> plan_parts res" where
  "deployment_parts ce answers policies =
     rbind (create_plugin_tasks (cr_plugin ce) answers) (\<lambda>pts.
     rbind (rewrite_ordered_task_lists (pe_objects (cr_plugin ce)) pts) (\<lambda>ts.
     rbind (validate_task_replaces ts) (\<lambda>_.
     rbind (filter_faulty_node_configtasks ts) (\<lambda>ts.
     rbind (create_removal_tasks (cr_types ce) (cr_store ce) (cr_persisted ce) ts False) (\<lambda>(ts, removal).
     rbind (grouped_tasks ce policies (ts @ filter is_config removal)) (\<lambda>(ts, locks).
       Inr (ts, filter (\<lambda>t. ta_class t = CleanupTaskC) removal, locks)))))))"

text \<open>The builder asks for the node that was left locked, with its cluster.\<close>

definition left_locked_of :: "item_type dict \<Rightarrow> store \<Rightarrow> (string \<times> string option) option res" where
  "left_locked_of types st =
     rbind (node_left_locked types st) (\<lambda>n. case n of
       None \<Rightarrow> Inr None
     | Some i \<Rightarrow> rbind (get_cluster types st i) (\<lambda>c. Inr (Some (mi_vpath i, map_option mi_vpath c))))"

definition key_locks :: "(string \<times> task \<times> task) list \<Rightarrow> lock_tasks" where
  "key_locks locks = map (\<lambda>(v, a, b). (v, ta_key a, ta_key b)) locks"

definition prev_successful_tasks :: "task list \<Rightarrow> task list" where
  "prev_successful_tasks persisted = filter (\<lambda>t. ta_state t = TaskSuccess) persisted"

definition is_snapshot_item :: "item_at \<Rightarrow> bool res" where
  "is_snapshot_item i = rbind (live ''_model_item'' i) (\<lambda>q. Inr (is_instance q ''snapshot-base''))"

definition make_plan ::
  "creation_env \<Rightarrow> string option \<Rightarrow> (string \<times> task \<times> task) list \<Rightarrow> task list \<Rightarrow> task list \<Rightarrow> plan res" where
  "make_plan ce plan_type locks cleanup ts =
     (let types = cr_types ce; st = cr_store ce
      in rbind (left_locked_of types st) (\<lambda>left.
         rbind (build ((cr_builder ce)\<lparr>be_left_locked := left\<rparr>) (key_locks locks)
                  (prev_successful_tasks (cr_persisted ce)) ts) (\<lambda>(phases, us).
         rbind (filter_res (\<lambda>t. rbind (is_snapshot_item (ta_item t)) (\<lambda>b. Inr (\<not> b))) cleanup) (\<lambda>cleanup.
           if phases = [] \<and> cleanup = [] \<and> left = None then Inl EmptyPlanException
           else
             let all = us @ concat (map (\<lambda>(v, a, b). [a, b]) locks);
                 task = (\<lambda>k. case task_at all k of Some t \<Rightarrow> plan_task_of types st t | None \<Rightarrow> Inl (KeyError k))
             in rbind (map_res (map_res task) phases) (\<lambda>pss.
                rbind (map_res (plan_task_of types st) cleanup) (\<lambda>cs.
                  Inr (new_base_plan PlanC pss cs (locks \<noteq> []) plan_type)))))))"

definition create_deployment_plan :: "creation_env \<Rightarrow> plugin_answer list \<Rightarrow> lock_policy list \<Rightarrow> plan res" where
  "create_deployment_plan ce answers policies =
     rbind (deployment_parts ce answers policies) (\<lambda>(ts, cleanup, locks).
     rbind (make_plan ce (Some ''Deployment'') locks cleanup ts) (\<lambda>p. Inr (set_ready p)))"

text \<open>The tasks that reboot nodes come from the core plugin.\<close>

definition create_reboot_plan :: "creation_env \<Rightarrow> plugin_task list \<Rightarrow> lock_policy list \<Rightarrow> plan res" where
  "create_reboot_plan ce pts policies =
     rbind (rewrite_ordered_task_lists (pe_objects (cr_plugin ce)) pts) (\<lambda>ts.
     rbind (validate_task_replaces ts) (\<lambda>_.
     rbind (filter_faulty_node_configtasks ts) (\<lambda>ts.
     let types = cr_types ce; st = cr_store ce
     in rbind (get_nodes_to_be_locked types st ts policies) (\<lambda>nodes.
        let us = setup_tasks_groups (split_remote_execution_tasks types st ts nodes)
        in rbind (validate_task_dependencies types st (pe_objects (cr_plugin ce) @ ts) us) (\<lambda>_.
           rbind (validate_task_group us) (\<lambda>_.
           rbind (create_lock_tasks st (cr_locks ce) nodes) (\<lambda>locks.
           rbind (make_plan ce (Some ''Reboot'') locks [] us) (\<lambda>p. Inr (set_ready p)))))))))"

section \<open>What the validation accepts\<close>

lemma for_unit: "for_res (\<lambda>x _. f x) xs () = Inr () \<longleftrightarrow> (\<forall>x \<in> set xs. f x = Inr ())" for f :: "'a \<Rightarrow> unit res"
  by (induction xs) (auto simp: rbind_Inr_iff)

lemma validated_dependency:
  assumes "validate_task_dependencies types st objects ts = Inr ()" and "t \<in> set ts" and "d \<in> set (ta_requires t)"
  shows "validate_dependency types st objects ts t d = Inr ()"
proof -
  have "for_res (\<lambda>d _. validate_dependency types st objects ts t d) (ta_requires t) () = Inr ()"
    using for_unit [of "\<lambda>t. for_res (\<lambda>d _. validate_dependency types st objects ts t d) (ta_requires t) ()" ts] assms(1,2)
    by (simp add: validate_task_dependencies_def)
  with assms(3) for_unit [of "validate_dependency types st objects ts t" "ta_requires t"] show ?thesis by simp
qed

lemma different_groups_raises: "different_groups t r \<noteq> Inr ()"
  by (auto simp: different_groups_def rbind_Inr_iff)


section \<open>Examples\<close>

definition grouped_pair :: "task list" where
  "grouped_pair = [sample_task ''a'' ConfigTaskC [], sample_task ''b'' ConfigTaskC [OnTask ''a'', OnCall ''type'' ''a'']]"


text \<open>A remote execution task all whose nodes are locked is replaced by its parts; a task that requires
  it is then refused, because the required object has no group.\<close>

definition remote_required :: "task list" where
  "remote_required = [(sample_task ''a'' RemoteExecutionTaskC [])\<lparr>ta_nodes := map sample_item [''/n1'', ''/n2''], ta_group := None\<rparr>,
     sample_task ''b'' ConfigTaskC [OnTask ''a'']]"

lemma split_task_not_found:
  "validate_task_dependencies [] [] remote_required
     (setup_tasks_groups (split_remote_execution_tasks [] [] remote_required [''/n1'', ''/n2''])) =
   Inl (TaskValidationException (''Task for item /n/b in group DEPLOYMENT_NODE_GROUP and its dependent task for item '' @
     ''/n/a in group None are in different groups'') [])"
  by code_simp

text \<open>A plan from the answer of one plugin: the node \<open>/n\<close> gets its task, then the item that goes is
  cleaned up.\<close>

definition no_checks :: plugin_env where
  "no_checks = \<lparr>pe_objects = [], pe_show_task = ta_key, pe_show_exn = (\<lambda>e. []), pe_plugin_method = (\<lambda>t. True),
     pe_depth = 1, pe_value_of = (\<lambda>i p. Inr None)\<rparr>"

definition creation_types :: "item_type dict" where
  "creation_types = map (\<lambda>(n, t). (n, t\<lparr>it_structure := (''is_locked'', snd (hd (it_structure t))) # it_structure t\<rparr>))
     (filter (\<lambda>(n, t). n = ''node'') ex_registered)"

definition creation_example :: creation_env where
  "creation_example = \<lparr>cr_types = creation_types,
     cr_store = new_model_item ModelItemC ''ms'' ''ms'' (Some ''/'') [] # leaving_store, cr_plugin = no_checks,
     cr_persisted = [], cr_locks = (\<lambda>v. []), cr_builder = sample_env\<rparr>"

lemma plan_created:
  "map_sum id (\<lambda>p. (map (map pt_class) (pl_phases p), pl_state p, pl_required_phases p))
     (create_deployment_plan creation_example [(''x'', ''X'', Some (Inr [Single (sample_task ''b'' ConfigTaskC [])]))] []) =
   Inr ([[ConfigTaskC], [CleanupTaskC]], PInitial, Some [(0, []), (1, [0])])"
  by code_simp

end
