(* ===== verification/Execution_State.thy ===== *)
theory Execution_State
  imports Plan_Creation
begin

text \<open>
  What the execution manager of \<open>litp/core/execution_manager.py\<close> keeps while it runs a plan, and the
  changes its event handlers make: the states of the tasks, the locks of nodes, and the states of
  the model items, which follow the states of all tasks of the plan that act on an item. It also
  holds \<open>plan_find_tasks\<close> of \<open>litp/core/plan.py\<close>. The plan is the one read back from the database: its
  tasks know the items that are still in the model.
\<close>

section \<open>State\<close>

text \<open>The tasks by the identifier the plan has for them (their node, arguments, items and lock
  type; the state of a task is the one in the plan), the vpath of the node a lock task locks, and
  the value a property of an item has.\<close>

record exec_env =
  xe_manager :: manager
  xe_locked_node :: "string \<Rightarrow> string option"
  xe_value :: "store \<Rightarrow> future_item \<Rightarrow> string \<Rightarrow> pyval res"

record exec =
  xs_plan :: plan
  xs_tasks :: "task dict"
  xs_store :: store
  xs_current :: "nat option"

definition the_task_of :: "exec \<Rightarrow> string \<Rightarrow> task res" where
  "the_task_of s k = (case map_of (xs_tasks s) k of None \<Rightarrow> Inl (KeyError k) | Some t \<Rightarrow> Inr t)"

definition plan_tasks :: "plan \<Rightarrow> plan_task list" where
  "plan_tasks p = concat (pl_phases p)"

definition set_state_of_task :: "string \<Rightarrow> task_state \<Rightarrow> plan \<Rightarrow> plan" where
  "set_state_of_task k x p =
     p\<lparr>pl_phases := map (map (\<lambda>t. if pt_id t = k then t\<lparr>pt_state := x\<rparr> else t)) (pl_phases p)\<rparr>"

definition state_of_task :: "plan \<Rightarrow> string \<Rightarrow> task_state option" where
  "state_of_task p k = map_option pt_state (List.find (\<lambda>t. pt_id t = k) (plan_tasks p))"

definition put_state :: "string \<Rightarrow> task_state \<Rightarrow> exec \<Rightarrow> exec" where
  "put_state k x s = s\<lparr>xs_plan := set_state_of_task k x (xs_plan s)\<rparr>"

section \<open>The tasks of an item\<close>

definition deserialize_task_query_items :: "store \<Rightarrow> string list \<Rightarrow> string list" where
  "deserialize_task_query_items st vs = filter (\<lambda>v. st_get st v \<noteq> None) vs"

definition loaded_items :: "store \<Rightarrow> task \<Rightarrow> string list" where
  "loaded_items st t =
     remdups (deserialize_task_query_items st (map at_vpath (ta_items t)) @
       (if st_get st (item_vpath t) \<noteq> None then [item_vpath t] else []))"

definition items_of_task :: "exec \<Rightarrow> plan_task \<Rightarrow> string list" where
  "items_of_task s t =
     (case map_of (xs_tasks s) (pt_id t) of None \<Rightarrow> [] | Some u \<Rightarrow> loaded_items (xs_store s) u)"

definition acting_tasks :: "exec \<Rightarrow> string \<Rightarrow> plan_task list" where
  "acting_tasks s v = filter (\<lambda>t. v \<in> set (items_of_task s t)) (plan_tasks (xs_plan s))"

datatype phase_query = AnyPhase | CurrentPhase | PhaseNumber int

definition plan_find_tasks ::
  "exec \<Rightarrow> phase_query \<Rightarrow> string option \<Rightarrow> task_state list option \<Rightarrow> plan_task list res" where
  "plan_find_tasks s phase vpath states =
     (let p = xs_plan s;
          in_phase = (\<lambda>i. let ids = map pt_id (phase_tasks p i) in
            case vpath of None \<Rightarrow> phase_tasks p i
            | Some v \<Rightarrow> filter (\<lambda>t. pt_id t \<in> set ids) (acting_tasks s v));
          found = (case phase of
              AnyPhase \<Rightarrow> Inr (case vpath of None \<Rightarrow> plan_tasks p | Some v \<Rightarrow> acting_tasks s v)
            | CurrentPhase \<Rightarrow> (case xs_current s of
                None \<Rightarrow> Inr []
              | Some i \<Rightarrow> if i < length (pl_phases p) then Inr (in_phase i) else Inl IndexError)
            | PhaseNumber n \<Rightarrow> Inr (if n < 0 \<or> n \<ge> int (length (pl_phases p)) then [] else in_phase (nat n)))
      in rbind found (\<lambda>ts. Inr (case states of
           None \<Rightarrow> ts | Some xs \<Rightarrow> if xs = [] then ts else filter (\<lambda>t. pt_state t \<in> set xs) ts)))"

definition failed_tasks_in_phase :: "exec \<Rightarrow> nat \<Rightarrow> plan_task list res" where
  "failed_tasks_in_phase s i = plan_find_tasks s (PhaseNumber (int i)) None (Some [TaskFailed])"

definition is_phase_complete :: "exec \<Rightarrow> nat \<Rightarrow> bool" where
  "is_phase_complete s i \<longleftrightarrow>
     list_all (\<lambda>t. pt_state t \<notin> {TaskInitial, TaskRunning}) (phase_tasks (xs_plan s) i)"

section \<open>The states of the items\<close>

definition item_settled :: "exec \<Rightarrow> string \<Rightarrow> bool" where
  "item_settled s v \<longleftrightarrow> list_all (\<lambda>t. pt_state t = TaskSuccess) (acting_tasks s v)"

text \<open>What happens to an item all of whose tasks have succeeded.\<close>

definition advance_item :: "exec_env \<Rightarrow> bool \<Rightarrow> store \<Rightarrow> model_item \<Rightarrow> model_item res" where
  "advance_item E snapshot st i =
     (if snapshot \<and> \<not> mi_extends (mm_types (xe_manager E)) i ''snapshot-base'' then Inr i
      else if mi_state i = ForRemoval then set_removed st i
      else if snapshot then Inr i
      else if mi_state i \<in> {Initial, Updated} then set_applied st i
      else Inr i)"

definition is_snapshot_plan :: "exec \<Rightarrow> bool" where
  "is_snapshot_plan s \<longleftrightarrow> pl_class (xs_plan s) = SnapshotPlanC"

definition settle_item :: "exec_env \<Rightarrow> exec \<Rightarrow> string \<Rightarrow> store \<Rightarrow> store res" where
  "settle_item E s v st =
     (if list_ex (\<lambda>t. pt_state t = TaskFailed) (acting_tasks s v) then Inr st
      else if list_all (\<lambda>t. pt_state t = TaskSuccess) (acting_tasks s v)
      then on_item (advance_item E (is_snapshot_plan s)) v st
      else Inr st)"

definition update_item_states :: "exec_env \<Rightarrow> plan_task list \<Rightarrow> exec \<Rightarrow> exec res" where
  "update_item_states E ts s =
     rbind (for_res (settle_item E s) (remdups (concat (map (items_of_task s) ts))) (xs_store s))
       (\<lambda>st. Inr (s\<lparr>xs_store := st\<rparr>))"

definition fix_removed_items_on_resume :: "exec \<Rightarrow> exec res" where
  "fix_removed_items_on_resume s =
     (let ts = filter (\<lambda>t. pt_state t = TaskSuccess) (plan_tasks (xs_plan s));
          vs = filter (\<lambda>v. case st_get (xs_store s) v of
                  Some i \<Rightarrow> mi_previous_state i = Some Removed | None \<Rightarrow> False)
                 (remdups (concat (map (items_of_task s) ts)))
      in rbind (for_res (on_item set_removed) vs (xs_store s)) (\<lambda>st. Inr (s\<lparr>xs_store := st\<rparr>)))"

section \<open>The handlers of Puppet's events\<close>

text \<open>A loaded lock task holds its node as a model item, or the path of a node that is gone.\<close>

definition set_task_lock :: "exec_env \<Rightarrow> string \<Rightarrow> exec \<Rightarrow> exec res" where
  "set_task_lock E k s =
     rbind (the_task_of s k) (\<lambda>t.
       let lock = (\<lambda>value. case xe_locked_node E k of
             None \<Rightarrow> Inl (AttributeError ''set_property'')
           | Some v \<Rightarrow>
               rbind (on_item (\<lambda>st. set_property (mm_types (xe_manager E)) st ''is_locked'' (VStr value) False)
                        v (xs_store s)) (\<lambda>st. Inr (s\<lparr>xs_store := st\<rparr>)))
       in if state_of_task (xs_plan s) k = Some TaskSuccess \<and> ta_lock_type t = TypeLock then lock ''true''
          else if state_of_task (xs_plan s) k = Some TaskSuccess \<and> ta_lock_type t = TypeUnlock then lock ''false''
          else Inr s)"

definition available_task_states :: "task_state dict" where
  "available_task_states =
     [(''Initial'', TaskInitial), (''Running'', TaskRunning), (''Stopped'', TaskStopped),
      (''Failed'', TaskFailed), (''Success'', TaskSuccess)]"

text \<open>The first component tells whether the report was taken.\<close>

definition puppet_report :: "exec_env \<Rightarrow> (string \<times> task_state) list \<Rightarrow> exec \<Rightarrow> (bool \<times> exec) res" where
  "puppet_report E pairs s =
     (if is_active (xs_plan s) \<and> xs_current s \<noteq> None
      then rbind (for_res (\<lambda>(k, x) s. set_task_lock E k (put_state k x s)) pairs s) (\<lambda>s. Inr (True, s))
      else Inr (False, s))"

definition on_puppet_feedback :: "exec_env \<Rightarrow> (string \<times> string) list \<Rightarrow> exec \<Rightarrow> exec res" where
  "on_puppet_feedback E pairs s =
     rbind (map_res (\<lambda>(k, x). case map_of available_task_states x of
         None \<Rightarrow> Inl (RuntimeError (k @ ''s state was requested to be changed to invalid: '' @ x))
       | Some y \<Rightarrow> Inr (k, y)) pairs) (\<lambda>pairs.
     rbind (puppet_report E pairs s) (\<lambda>(taken, s). Inr s))"

text \<open>A running task fails; then the handler asks for the hostname of its node.\<close>

definition task_hostname :: "task \<Rightarrow> string res" where
  "task_hostname t = rbind (live ''hostname'' (ta_node t)) (\<lambda>q. Inr (node_hostname (ta_node t)))"

definition fail_running_task :: "string \<Rightarrow> exec \<Rightarrow> exec res" where
  "fail_running_task k s =
     (if state_of_task (xs_plan s) k = Some TaskRunning
      then rbind (the_task_of s k) (\<lambda>t. rbind (task_hostname t) (\<lambda>h. Inr (put_state k TaskFailed s)))
      else Inr s)"

definition on_puppet_timeout :: "string list \<Rightarrow> exec \<Rightarrow> exec res" where
  "on_puppet_timeout ks s = for_res fail_running_task ks s"

definition on_mco_error :: "string list \<Rightarrow> exec \<Rightarrow> exec res" where
  "on_mco_error ks s = for_res fail_running_task ks s"

definition stop_running_tasks :: "plan_task list \<Rightarrow> exec \<Rightarrow> exec" where
  "stop_running_tasks ts s =
     fold (\<lambda>t s. if state_of_task (xs_plan s) (pt_id t) = Some TaskRunning
                  then put_state (pt_id t) TaskStopped s else s) ts s"

definition on_puppet_phase_start :: "string list \<Rightarrow> nat \<Rightarrow> exec \<Rightarrow> exec res" where
  "on_puppet_phase_start ks phase_id s =
     (let s = fold (\<lambda>k s. if state_of_task (xs_plan s) k \<noteq> Some TaskFailed
                          then put_state k TaskRunning s else s) ks s
      in if pl_state (xs_plan s) \<noteq> PStopping then Inr s
         else if phase_id < length (pl_phases (xs_plan s))
         then Inr (stop_running_tasks (phase_tasks (xs_plan s) phase_id) s)
         else Inl IndexError)"

definition fail_running_tasks :: "plan \<Rightarrow> plan" where
  "fail_running_tasks p =
     p\<lparr>pl_phases := map (map (\<lambda>t. if pt_state t = TaskRunning then t\<lparr>pt_state := TaskFailed\<rparr> else t))
         (pl_phases p)\<rparr>"

section \<open>What a phase leaves of the items\<close>

text \<open>An item moves when every task of the plan that acts on it has succeeded; a snapshot plan
  moves snapshots only, and those only out of the model.\<close>

definition item_moves :: "exec_env \<Rightarrow> exec \<Rightarrow> string \<Rightarrow> model_item \<Rightarrow> bool" where
  "item_moves E s v i \<longleftrightarrow> item_settled s v \<and>
     (is_snapshot_plan s \<longrightarrow> mi_extends (mm_types (xe_manager E)) i ''snapshot-base'')"

fun state_after :: "bool \<Rightarrow> item_state \<Rightarrow> item_state" where
  "state_after snapshot ForRemoval = Removed"
| "state_after snapshot Initial = (if snapshot then Initial else Applied)"
| "state_after snapshot Updated = (if snapshot then Updated else Applied)"
| "state_after snapshot x = x"

definition moved :: "exec_env \<Rightarrow> exec \<Rightarrow> model_item \<Rightarrow> model_item \<Rightarrow> bool" where
  "moved E s i j \<longleftrightarrow> mi_place j = mi_place i \<and>
     (if item_moves E s (mi_vpath i) i then mi_state j = state_after (is_snapshot_plan s) (mi_state i) else j = i)"

lemma advance_item_result:
  assumes "advance_item E (is_snapshot_plan s) st i = Inr j" and "item_settled s (mi_vpath i)"
  shows "moved E s i j"
  using assms by (cases "mi_state i") (auto simp: advance_item_def moved_def item_moves_def set_removed_def
      set_applied_def dest: set_state_result split: if_splits)

lemma on_item_result:
  assumes "on_item f v st = Inr su" and "sorted_rows st" and "\<And>i j. f st i = Inr j \<Longrightarrow> mi_vpath j = mi_vpath i"
  obtains i j where "st_get st v = Some i" and "f st i = Inr j" and "sorted_rows su"
    and "\<And>w. st_get su w = (if w = v then Some j else st_get st w)"
proof -
  from assms(1) obtain i j where i: "st_get st v = Some i" and j: "f st i = Inr j" and su: "su = st_put j st"
    by (auto simp: on_item_def rbind_Inr_iff split: option.splits)
  have "mi_vpath j = v" using assms(3) [OF j] st_get_Some [OF i] by simp
  then have "\<And>w. st_get su w = (if w = v then Some j else st_get st w)"
    using assms(2) su by (simp add: store_simps)
  with that i j show thesis using sorted_st_put [OF assms(2)] su by blast
qed

lemma settle_item_result:
  assumes "settle_item E s v st = Inr su" and "sorted_rows st" and "st_get st v = Some i"
  shows "sorted_rows su \<and> (\<forall>w. w \<noteq> v \<longrightarrow> st_get su w = st_get st w) \<and>
    (\<exists>j. st_get su v = Some j \<and> moved E s i j)"
proof (cases "item_settled s v")
  case False
  with assms have "su = st" by (auto simp: settle_item_def item_settled_def split: if_splits)
  with assms False st_get_Some [OF assms(3)] show ?thesis by (simp add: moved_def item_moves_def)
next
  case True
  then have "\<not> list_ex (\<lambda>t. pt_state t = TaskFailed) (acting_tasks s v)"
    by (auto simp: item_settled_def list_all_iff list_ex_iff)
  then have on: "on_item (advance_item E (is_snapshot_plan s)) v st = Inr su"
    using assms(1) True by (simp add: settle_item_def item_settled_def)
  obtain k j where k: "st_get st v = Some k" and j: "advance_item E (is_snapshot_plan s) st k = Inr j"
    and su: "sorted_rows su" "\<And>w. st_get su w = (if w = v then Some j else st_get st w)"
  proof (rule on_item_result [OF on assms(2)])
    fix i j assume "advance_item E (is_snapshot_plan s) st i = Inr j"
    then show "mi_vpath j = mi_vpath i"
      by (auto simp: advance_item_def set_removed_def set_applied_def dest: set_state_vpath split: if_splits)
  qed blast
  have "moved E s i j"
    using advance_item_result [OF j] True k assms(3) st_get_Some [OF k] by simp
  with su show ?thesis by simp
qed

lemma settle_items_result:
  assumes "for_res (settle_item E s) vs st = Inr su" and "sorted_rows st" and "distinct vs"
    and "\<forall>v \<in> set vs. st_get st v \<noteq> None"
  shows "sorted_rows su \<and> (\<forall>w. w \<notin> set vs \<longrightarrow> st_get su w = st_get st w) \<and>
    (\<forall>v \<in> set vs. \<exists>i j. st_get st v = Some i \<and> st_get su v = Some j \<and> moved E s i j)"
  using assms
proof (induction vs arbitrary: st)
  case (Cons v vs)
  from Cons.prems(1) obtain st1 where one: "settle_item E s v st = Inr st1"
    and rest: "for_res (settle_item E s) vs st1 = Inr su"
    by (auto simp: rbind_Inr_iff)
  from Cons.prems(4) obtain i where i: "st_get st v = Some i" by auto
  note r = settle_item_result [OF one Cons.prems(2) i]
  have other: "w \<noteq> v" if "w \<in> set vs" for w using that Cons.prems(3) by auto
  then have "\<forall>w \<in> set vs. st_get st1 w \<noteq> None" using r Cons.prems(4) by simp
  then have IH: "sorted_rows su" "\<forall>w. w \<notin> set vs \<longrightarrow> st_get su w = st_get st1 w"
    "\<forall>v \<in> set vs. \<exists>i j. st_get st1 v = Some i \<and> st_get su v = Some j \<and> moved E s i j"
    using Cons.IH [OF rest] r Cons.prems(3) by simp_all
  show ?case
  proof (intro conjI ballI allI impI)
    fix w assume "w \<in> set (v # vs)"
    then consider "w = v" | "w \<in> set vs" by auto
    then show "\<exists>i j. st_get st w = Some i \<and> st_get su w = Some j \<and> moved E s i j"
    proof cases
      case 1
      then have "st_get su w = st_get st1 v" using IH(2) Cons.prems(3) by simp
      with r i 1 show ?thesis by auto
    next
      case 2
      with IH(3) r other [OF 2] show ?thesis by metis
    qed
  qed (use IH r in auto)
qed simp

lemma items_present: "v \<in> set (items_of_task s t) \<Longrightarrow> st_get (xs_store s) v \<noteq> None"
  by (auto simp: items_of_task_def loaded_items_def deserialize_task_query_items_def split: option.splits if_splits)

text \<open>C23: the items of the given tasks follow all tasks of the plan: an item moves to applied or
  removed only when every task of the plan that acts on it has succeeded, otherwise it stays as it
  is; nothing else changes.\<close>

theorem items_follow_tasks:
  assumes "update_item_states E ts s = Inr s'" and "sorted_rows (xs_store s)"
    and "st_get (xs_store s) v = Some i"
  shows "xs_plan s' = xs_plan s \<and> (\<exists>j. st_get (xs_store s') v = Some j \<and> mi_place j = mi_place i \<and>
    (if (\<exists>t \<in> set ts. v \<in> set (items_of_task s t)) \<and>
        (\<forall>t \<in> set (acting_tasks s v). pt_state t = TaskSuccess) \<and>
        (pl_class (xs_plan s) = SnapshotPlanC \<longrightarrow> mi_extends (mm_types (xe_manager E)) i ''snapshot-base'')
     then mi_state j = (if mi_state i = ForRemoval then Removed
                        else if pl_class (xs_plan s) = PlanC \<and> mi_state i \<in> {Initial, Updated} then Applied
                        else mi_state i)
     else j = i))"
proof -
  let ?vs = "remdups (concat (map (items_of_task s) ts))"
  from assms(1) obtain su where su: "for_res (settle_item E s) ?vs (xs_store s) = Inr su"
    and s': "s' = s\<lparr>xs_store := su\<rparr>"
    by (auto simp: update_item_states_def rbind_Inr_iff)
  have "\<forall>v \<in> set ?vs. st_get (xs_store s) v \<noteq> None" using items_present by auto
  then have r: "\<forall>w. w \<notin> set ?vs \<longrightarrow> st_get su w = st_get (xs_store s) w"
    "\<forall>v \<in> set ?vs. \<exists>i j. st_get (xs_store s) v = Some i \<and> st_get su v = Some j \<and> moved E s i j"
    using settle_items_result [OF su assms(2)] by simp_all
  have vs: "v \<in> set ?vs \<longleftrightarrow> (\<exists>t \<in> set ts. v \<in> set (items_of_task s t))" by auto
  have path: "mi_vpath i = v" using st_get_Some [OF assms(3)] by simp
  show ?thesis
  proof (cases "v \<in> set ?vs")
    case False
    with r vs assms(3) s' show ?thesis by auto
  next
    case True
    with r(2) assms(3) obtain j where "st_get su v = Some j" and "moved E s i j" by force
    moreover have "state_after b x = (if x = ForRemoval then Removed
        else if \<not> b \<and> x \<in> {Initial, Updated} then Applied else x)" for b x
      by (cases x) auto
    moreover have "pl_class (xs_plan s) = PlanC \<longleftrightarrow> \<not> is_snapshot_plan s"
      by (cases "pl_class (xs_plan s)") (simp_all add: is_snapshot_plan_def)
    ultimately show ?thesis using True vs s' path
      by (auto simp: moved_def item_moves_def item_settled_def list_all_iff is_snapshot_plan_def)
  qed
qed

section \<open>Examples\<close>

text \<open>A plan of one phase with one task, about the blade of the example store.\<close>

definition exec_env_example :: exec_env where
  "exec_env_example = \<lparr>xe_manager = ex_manager, xe_locked_node = (\<lambda>k. None), xe_value = (\<lambda>st i p. Inr PNone)\<rparr>"

definition one_task_plan :: "task_state \<Rightarrow> plan" where
  "one_task_plan x = (ex_plan PlanC [])\<lparr>pl_state := PRunning, pl_phases := [[(ex_task ''t'' None)\<lparr>pt_state := x\<rparr>]]\<rparr>"

definition exec_example :: "task_state \<Rightarrow> exec" where
  "exec_example x =
     \<lparr>xs_plan = one_task_plan x,
      xs_tasks = [(''t'', (sample_task ''t'' ConfigTaskC [])\<lparr>ta_item := Live (sample_item ''/nodes/b1'')\<rparr>)],
      xs_store = ex_store, xs_current = Some 0\<rparr>"

theorem items_follow_tasks_witness:
  "\<exists>s' j. update_item_states exec_env_example (plan_tasks (one_task_plan TaskSuccess)) (exec_example TaskSuccess) = Inr s' \<and>
    st_get (xs_store s') ''/nodes/b1'' = Some j \<and> mi_state j = Applied"
proof -
  let ?s = "exec_example TaskSuccess" and ?ts = "plan_tasks (one_task_plan TaskSuccess)"
  have "\<not> isl (update_item_states exec_env_example ?ts ?s)" by code_simp
  then obtain s' where u: "update_item_states exec_env_example ?ts ?s = Inr s'"
    by (cases "update_item_states exec_env_example ?ts ?s") auto
  have "sorted_rows (xs_store ?s)" and b: "st_get (xs_store ?s) ''/nodes/b1'' = Some ex_blade" by code_simp+
  from items_follow_tasks [OF u this]
  obtain j where "st_get (xs_store s') ''/nodes/b1'' = Some j" and
    j: "if (\<exists>t \<in> set ?ts. ''/nodes/b1'' \<in> set (items_of_task ?s t)) \<and>
        (\<forall>t \<in> set (acting_tasks ?s ''/nodes/b1''). pt_state t = TaskSuccess) \<and>
        (pl_class (xs_plan ?s) = SnapshotPlanC \<longrightarrow>
          mi_extends (mm_types (xe_manager exec_env_example)) ex_blade ''snapshot-base'')
     then mi_state j = (if mi_state ex_blade = ForRemoval then Removed
                        else if pl_class (xs_plan ?s) = PlanC \<and> mi_state ex_blade \<in> {Initial, Updated} then Applied
                        else mi_state ex_blade)
     else j = ex_blade"
    by blast
  have "\<exists>t \<in> set ?ts. ''/nodes/b1'' \<in> set (items_of_task ?s t)"
    "\<forall>t \<in> set (acting_tasks ?s ''/nodes/b1''). pt_state t = TaskSuccess"
    "pl_class (xs_plan ?s) = PlanC" "mi_state ex_blade = Initial" by code_simp+
  with j have "mi_state j = Applied" by simp
  with u \<open>st_get (xs_store s') ''/nodes/b1'' = Some j\<close> show ?thesis by blast
qed

end
