(* ===== verification/Puppet_Tasks.thy ===== *)
theory Puppet_Tasks
  imports Execution_State
begin

text \<open>
  The task bookkeeping of \<open>litp/core/puppet_manager.py\<close>: the configuration tasks that make up the
  manifest of each node are kept in the database, in order. A phase of a plan puts its tasks among
  them and remembers the tasks they take the place of; after the phase the failed tasks are taken
  out again and the remembered ones put back; at the end of a plan the tasks that are done with are
  filtered out, and what required them requires what they required.
\<close>

section \<open>State\<close>

text \<open>The attributes of the manager; hostnames are kept as lists, tasks by their identifiers.
  \<open>pu_node_tasks\<close> is the table of persisted tasks: a host without tasks has no rows.\<close>

record puppet =
  pu_phase_complete :: bool
  pu_phase_stopped :: bool
  pu_phase_successful :: bool
  pu_killed :: bool
  pu_phase_tasks :: "string list"
  pu_hosts_in_phase :: "string list"
  pu_processed_nodes :: "string list"
  pu_reported_phase_tasks :: "string list"
  pu_processing_nodes :: "string list"
  pu_task_backup :: "(string \<times> string list) list"
  pu_node_tasks :: "(string \<times> task list) list"

definition new_puppet :: "(string \<times> task list) list \<Rightarrow> puppet" where
  "new_puppet rows =
     \<lparr>pu_phase_complete = False, pu_phase_stopped = False, pu_phase_successful = False, pu_killed = False,
      pu_phase_tasks = [], pu_hosts_in_phase = [], pu_processed_nodes = [], pu_reported_phase_tasks = [],
      pu_processing_nodes = [], pu_task_backup = [], pu_node_tasks = rows\<rparr>"

definition get_node_tasks_for_hostname :: "puppet \<Rightarrow> string \<Rightarrow> task list" where
  "get_node_tasks_for_hostname P h = (case map_of (pu_node_tasks P) h of None \<Rightarrow> [] | Some ts \<Rightarrow> ts)"

definition update_persisted_tasks_for_node :: "string \<Rightarrow> task list \<Rightarrow> puppet \<Rightarrow> puppet" where
  "update_persisted_tasks_for_node h ts P =
     P\<lparr>pu_node_tasks := if ts = [] then AList.delete h (pu_node_tasks P)
                         else AList.update h ts (pu_node_tasks P)\<rparr>"

definition delete_persisted_tasks_for_node :: "string \<Rightarrow> puppet \<Rightarrow> puppet" where
  "delete_persisted_tasks_for_node h P = P\<lparr>pu_node_tasks := AList.delete h (pu_node_tasks P)\<rparr>"

definition all_tasks :: "puppet \<Rightarrow> task list" where
  "all_tasks P = concat (map snd (pu_node_tasks P))"

text \<open>A persisted task that is also in the plan is one object with it.\<close>

definition current_state :: "exec \<Rightarrow> task \<Rightarrow> task_state" where
  "current_state s t = (case state_of_task (xs_plan s) (ta_key t) of None \<Rightarrow> ta_state t | Some x \<Rightarrow> x)"

definition all_tasks_succeeded :: "exec \<Rightarrow> task list \<Rightarrow> bool" where
  "all_tasks_succeeded s ts \<longleftrightarrow> ts \<noteq> [] \<and> list_all (\<lambda>t. current_state s t = TaskSuccess) ts"

definition any_tasks_failed :: "exec \<Rightarrow> task list \<Rightarrow> bool" where
  "any_tasks_failed s ts \<longleftrightarrow> list_ex (\<lambda>t. current_state s t = TaskFailed) ts"

definition puppet_has_failures :: "exec \<Rightarrow> puppet \<Rightarrow> bool" where
  "puppet_has_failures s P = any_tasks_failed s (all_tasks P)"

section \<open>A phase puts its tasks into the manifests\<close>

type_synonym call = "string \<times> string"

definition call_of :: "task \<Rightarrow> call" where
  "call_of t = (ta_call_type t, ta_call_id t)"

definition backup_task :: "string \<Rightarrow> string \<Rightarrow> (string \<times> string list) list \<Rightarrow> (string \<times> string list) list" where
  "backup_task k old b = AList.update k ((case map_of b k of None \<Rightarrow> [] | Some ks \<Rightarrow> ks) @ [old]) b"

type_synonym placing = "(string \<times> (call \<times> task) list) list \<times> (string \<times> string list) list"

definition replace_call :: "task \<Rightarrow> call \<Rightarrow> (call \<times> task) list \<times> (string \<times> string list) list \<Rightarrow>
    (call \<times> task) list \<times> (string \<times> string list) list" where
  "replace_call t r = (\<lambda>(d, b). case map_of d r of
       None \<Rightarrow> (d, b)
     | Some u \<Rightarrow> (AList.delete r d, backup_task (ta_key t) (ta_key u) b))"

definition place_task :: "task \<Rightarrow> (call \<times> task) list \<times> (string \<times> string list) list \<Rightarrow>
    (call \<times> task) list \<times> (string \<times> string list) list" where
  "place_task t db =
     (let (d, b) = fold (replace_call t) (ta_replaces t) db;
          b = (case map_of d (call_of t) of None \<Rightarrow> b | Some u \<Rightarrow> backup_task (ta_key t) (ta_key u) b)
      in (AList.update (call_of t) t d, b))"

definition ordered_tasks :: "task list \<Rightarrow> (call \<times> task) list" where
  "ordered_tasks ts = fold (\<lambda>t d. AList.update (call_of t) t d) ts []"

definition add_to_manifests :: "task list \<Rightarrow> puppet \<Rightarrow> puppet res" where
  "add_to_manifests ts P =
     rbind (map_res (\<lambda>t. rbind (task_hostname t) (\<lambda>h. Inr (h, t))) ts) (\<lambda>hts.
       let hosts = remdups (map fst hts);
           start = map (\<lambda>h. (h, ordered_tasks (get_node_tasks_for_hostname P h))) hosts;
           (persisted, backup) = fold (\<lambda>(h, t) (ds, b).
               let (d, b) = place_task t (the (map_of ds h), b) in (AList.update h d ds, b))
             hts (start, pu_task_backup P)
       in Inr (fold (\<lambda>(h, d). update_persisted_tasks_for_node h (map snd d)) persisted
            (P\<lparr>pu_hosts_in_phase := hosts, pu_task_backup := backup\<rparr>)))"

text \<open>\<open>set(task_list)\<close>: of tasks with one hash that are equal the first stays.\<close>

definition task_set :: "task list \<Rightarrow> task list" where
  "task_set ts = fold (\<lambda>t us. if list_ex (\<lambda>u. task_hash u = task_hash t \<and> (ta_key u = ta_key t \<or> task_eq u t)) us
                              then us else us @ [t]) ts []"

definition add_phase :: "task list \<Rightarrow> nat \<Rightarrow> puppet \<times> exec \<Rightarrow> (puppet \<times> exec) res" where
  "add_phase ts phase_id = (\<lambda>(P, s).
     rbind (map_res task_hostname ts) (\<lambda>hosts.
     rbind (add_to_manifests ts
       (P\<lparr>pu_phase_stopped := False, pu_phase_complete := False, pu_phase_tasks := map ta_key (task_set ts),
          pu_processed_nodes := [], pu_processing_nodes := remdups hosts\<rparr>)) (\<lambda>P.
     rbind (on_puppet_phase_start (map ta_key ts) phase_id s) (\<lambda>s. Inr (P, s)))))"

section \<open>After a phase\<close>

text \<open>\<open>stored\<close> are the tasks of the database, for the tasks remembered by their identifiers.\<close>

definition restored_tasks :: "(string \<Rightarrow> task) \<Rightarrow> exec \<Rightarrow> (string \<times> string list) list \<Rightarrow> task list \<Rightarrow> task list" where
  "restored_tasks stored s backup ts =
     concat (map (\<lambda>t. if current_state s t = TaskFailed
        then map stored (case map_of backup (ta_key t) of None \<Rightarrow> [] | Some ks \<Rightarrow> ks)
        else [t]) ts)"

definition restore_backed_up_tasks :: "(string \<Rightarrow> task) \<Rightarrow> exec \<Rightarrow> puppet \<Rightarrow> puppet" where
  "restore_backed_up_tasks stored s P =
     (fold (\<lambda>h Q. update_persisted_tasks_for_node h
          (restored_tasks stored s (pu_task_backup P) (get_node_tasks_for_hostname P h)) Q)
        (pu_processing_nodes P) P)\<lparr>pu_task_backup := []\<rparr>"

section \<open>At the end of a plan\<close>

text \<open>What the loop takes from one required id: the id of a task that stays, and the ids to go on with.
  The loop follows the requirements of removed tasks; it has no end when these run in a circle.\<close>

definition required_step :: "task dict \<Rightarrow> string list \<Rightarrow> string \<Rightarrow> string list \<times> string list" where
  "required_step task_dict removed r =
     (case map_of task_dict r of
        None \<Rightarrow> ([], [])
      | Some t \<Rightarrow> if ta_key t \<notin> set removed then ([ta_unique_id t], []) else ([], ta_dep_ids t))"

partial_function (option) required_loop ::
  "task dict \<Rightarrow> string list \<Rightarrow> string list \<Rightarrow> string list \<Rightarrow> string list option" where
  "required_loop task_dict removed found queue =
     (if queue = [] then Some found
      else required_loop task_dict removed
             (List.union found (fst (required_step task_dict removed (hd queue))))
             (tl queue @ snd (required_step task_dict removed (hd queue))))"

declare required_loop.simps [code]

definition get_required_task_uids :: "task \<Rightarrow> string list \<Rightarrow> task dict \<Rightarrow> string list option" where
  "get_required_task_uids t removed task_dict = required_loop task_dict removed [] (ta_dep_ids t)"

definition update_task_requires :: "task dict \<Rightarrow> string list \<Rightarrow> task list \<Rightarrow> task \<Rightarrow> task option" where
  "update_task_requires task_dict removed removed_list t =
     (if ta_key t \<in> set removed \<or> ta_dep_ids t = [] \<and> ta_requires t = [] then Some t
      else map_option (\<lambda>ids. t\<lparr>ta_dep_ids := ids,
               ta_requires := filter (\<lambda>d. case d of OnTask k \<Rightarrow> k \<notin> ta_key ` set removed_list | _ \<Rightarrow> True)
                 (ta_requires t)\<rparr>)
             (get_required_task_uids t removed task_dict))"

definition map_opt :: "('a \<Rightarrow> 'b option) \<Rightarrow> 'a list \<Rightarrow> 'b list option" where
  "map_opt f xs = (let ys = map f xs in if None \<in> set ys then None else Some (map the ys))"

text \<open>The loop variables: the tasks by their unique ids and the identifiers of the removed ones so
  far, over all hosts; the hosts that changed; the removed tasks.\<close>

record rewriting =
  rw_task_dict :: "task dict"
  rw_removed_ids :: "string list"
  rw_hosts :: "string list"
  rw_removed :: "task list"
  rw_puppet :: puppet

definition rewrite_host :: "(task \<Rightarrow> bool) \<Rightarrow> string \<Rightarrow> task list \<Rightarrow> rewriting \<Rightarrow> rewriting option" where
  "rewrite_host match h ts w =
     (let removed_list = filter match ts;
          task_dict = fold (\<lambda>t d. AList.update (ta_unique_id t) t d) ts (rw_task_dict w);
          removed_ids = rw_removed_ids w @ map ta_key removed_list;
          w = w\<lparr>rw_task_dict := task_dict, rw_removed_ids := removed_ids\<rparr>
      in if removed_list = [] then Some w
         else (case map_opt (update_task_requires task_dict removed_ids removed_list) ts of
             None \<Rightarrow> None
           | Some us \<Rightarrow> Some (w\<lparr>rw_hosts := rw_hosts w @ [h], rw_removed := rw_removed w @ removed_list,
               rw_puppet := update_persisted_tasks_for_node h
                 (filter (\<lambda>t. ta_key t \<notin> set removed_ids) us) (rw_puppet w)\<rparr>)))"

definition rewrite_persisted_tasks ::
  "(task \<Rightarrow> bool) \<Rightarrow> puppet \<Rightarrow> (string list \<times> task list \<times> puppet) option" where
  "rewrite_persisted_tasks match P =
     (let w0 = \<lparr>rw_task_dict = [], rw_removed_ids = [], rw_hosts = [], rw_removed = [], rw_puppet = P\<rparr>
      in map_option (\<lambda>w. (rw_hosts w, rw_removed w, rw_puppet w))
           (fold (\<lambda>(h, ts) o'. Option.bind o' (rewrite_host match h ts)) (pu_node_tasks P) (Some w0)))"

definition configtask_removal_selector :: "manager \<Rightarrow> exec \<Rightarrow> task \<Rightarrow> bool res" where
  "configtask_removal_selector m s t =
     (let x = current_state s t; st = xs_store s
      in if x = TaskStopped then Inr True
         else case st_get st (item_vpath t) of
           None \<Rightarrow> Inr (x = TaskSuccess)
         | Some i \<Rightarrow>
             if x \<noteq> TaskSuccess then Inr False
             else if \<not> ta_persist t then Inr True
             else if mi_state i \<noteq> Removed then Inr False
             else rbind (query_descends (mm_types m) (mm_like m) st i) (\<lambda>ds.
                    Inr (\<not> list_ex (\<lambda>d. mi_state d = ForRemoval) ds)))"

section \<open>Clean-up\<close>

definition hostnames_of :: "item_type dict \<Rightarrow> store \<Rightarrow> store \<Rightarrow> string list res" where
  "hostnames_of types st nodes =
     map_res (\<lambda>i. rbind (node_ref_of types st i) (\<lambda>r. Inr (nd_hostname r))) nodes"

text \<open>The first component: the hosts whose manifests are written and applied, \<open>None\<close> when this step
  is left out.\<close>

definition actual_cleanup ::
  "manager \<Rightarrow> exec \<Rightarrow> store \<Rightarrow> string list \<Rightarrow> puppet \<Rightarrow> (string list option \<times> puppet) res" where
  "actual_cleanup m s decommissioned failure_nodes P =
     (let types = mm_types m; st = xs_store s
      in rbind (filter_res (configtask_removal_selector m s) (all_tasks P)) (\<lambda>selected.
         case rewrite_persisted_tasks (\<lambda>t. ta_key t \<in> set (map ta_key selected)) P of
           None \<Rightarrow> Inl diverges
         | Some (updated, removed, P) \<Rightarrow>
             rbind (hostnames_of types st decommissioned) (\<lambda>gone.
             rbind (hostnames_of types st (filter (\<lambda>i. mi_state i = ForRemoval) (get_all_nodes types st))) (\<lambda>leaving.
               let apply_to = filter (\<lambda>h. h \<notin> set (gone @ leaving)) updated
               in Inr (if (failure_nodes \<noteq> [] \<or> decommissioned \<noteq> [] \<or> removed \<noteq> []) \<and> \<not> pu_killed P
                       then Some (List.union apply_to failure_nodes) else None,
                       fold delete_persisted_tasks_for_node gone P)))))"

definition cleanup :: "manager \<Rightarrow> exec \<Rightarrow> string list \<Rightarrow> puppet \<Rightarrow> (string list option \<times> puppet) res" where
  "cleanup m s failure_nodes P =
     actual_cleanup m s (filter (\<lambda>i. mi_state i = Removed) (get_all_nodes (mm_types m) (xs_store s))) failure_nodes P"

definition get_initial_nodes :: "item_type dict \<Rightarrow> store \<Rightarrow> bool \<Rightarrow> store" where
  "get_initial_nodes types st exclude_ms =
     filter (\<lambda>i. \<not> (exclude_ms \<and> is_ms types i) \<and> mi_state i = Initial) (get_all_nodes types st)"

definition remove_manifests_clean_tasks :: "manager \<Rightarrow> exec \<Rightarrow> puppet \<Rightarrow> (string list option \<times> puppet) res" where
  "remove_manifests_clean_tasks m s P =
     actual_cleanup m s (get_initial_nodes (mm_types m) (xs_store s) True) [] P"

definition host_entry_of :: "string list \<Rightarrow> task \<Rightarrow> bool" where
  "host_entry_of hosts t \<longleftrightarrow> ta_call_type t = ''hosts::hostentry'' \<and>
     (case map_of (ta_kwargs t) ''name'' of Some (PStr h) \<Rightarrow> h \<in> set hosts | _ \<Rightarrow> False)"

definition purge_node_tasks :: "item_type dict \<Rightarrow> store \<Rightarrow> puppet \<Rightarrow> puppet res" where
  "purge_node_tasks types st P =
     (let restored = (\<lambda>i. \<not> is_ms types i \<and> mi_state i = Initial); nodes = get_all_nodes types st
      in rbind (hostnames_of types st (filter restored nodes)) (\<lambda>gone.
         rbind (hostnames_of types st (filter (\<lambda>i. \<not> restored i) nodes)) (\<lambda>others.
           let P = fold delete_persisted_tasks_for_node gone P
           in Inr (fold (\<lambda>h P. update_persisted_tasks_for_node h
                (filter (\<lambda>t. \<not> host_entry_of gone t) (get_node_tasks_for_hostname P h)) P) others P))))"

section \<open>Requirements a manifest need not state\<close>

text \<open>\<open>_set_task_redundant_requires\<close> for the tasks of one host: what a required task requires.\<close>

definition redundant_requires :: "task list \<Rightarrow> task \<Rightarrow> string list" where
  "redundant_requires ts t =
     (let by_id = fold (\<lambda>u d. AList.update (ta_unique_id u) u d) ts []
      in concat (map (\<lambda>r. case map_of by_id r of
             None \<Rightarrow> []
           | Some u \<Rightarrow> filter (\<lambda>rr. rr \<in> set (ta_dep_ids t)) (ta_dep_ids u)) (ta_dep_ids t)))"

section \<open>What takes the place of a removed requirement\<close>

text \<open>A required id leads to the task that has it, if it stays, and else to what that task requires.\<close>

inductive leads_to :: "task dict \<Rightarrow> string list \<Rightarrow> string \<Rightarrow> string \<Rightarrow> bool"
  for task_dict :: "task dict" and removed :: "string list" where
  stays: "map_of task_dict r = Some t \<Longrightarrow> ta_key t \<notin> set removed \<Longrightarrow> leads_to task_dict removed r (ta_unique_id t)"
| through: "map_of task_dict r = Some t \<Longrightarrow> ta_key t \<in> set removed \<Longrightarrow> q \<in> set (ta_dep_ids t) \<Longrightarrow>
    leads_to task_dict removed q u \<Longrightarrow> leads_to task_dict removed r u"

lemma leads_to_step:
  "leads_to d removed r u \<longleftrightarrow> u \<in> set (fst (required_step d removed r)) \<or>
    (\<exists>q \<in> set (snd (required_step d removed r)). leads_to d removed q u)"
  by (subst leads_to.simps) (auto simp: required_step_def split: option.splits)

lemma required_loop_ends:
  assumes rank: "\<And>r t q. map_of d r = Some t \<Longrightarrow> ta_key t \<in> set removed \<Longrightarrow> q \<in> set (ta_dep_ids t) \<Longrightarrow>
      (rank q :: nat) < rank r"
  shows "\<exists>ids. required_loop d removed found queue = Some ids \<and>
    set ids = set found \<union> {u. \<exists>r \<in> set queue. leads_to d removed r u}"
proof (induction "mset (map rank queue)" arbitrary: found queue rule: wf_induct_rule [OF wf_mult1 [OF wf_less_than]])
  case (1 queue found)
  show ?case
  proof (cases queue)
    case Nil
    then show ?thesis by (subst required_loop.simps) simp
  next
    case (Cons r rs)
    let ?new = "fst (required_step d removed r)" and ?more = "snd (required_step d removed r)"
    have "rank q < rank r" if q: "q \<in> set ?more" for q
    proof -
      from q obtain t where "map_of d r = Some t" and "ta_key t \<in> set removed" and "q \<in> set (ta_dep_ids t)"
        by (auto simp: required_step_def split: option.splits if_splits)
      then show ?thesis by (rule rank)
    qed
    then have "(mset (map rank (rs @ ?more)), mset (map rank queue)) \<in> mult1 less_than"
      unfolding Cons by (intro mult1I [where a = "rank r" and K = "mset (map rank ?more)"]) auto
    then obtain ids where "required_loop d removed (List.union found ?new) (rs @ ?more) = Some ids"
      and ids: "set ids = set (List.union found ?new) \<union> {u. \<exists>q \<in> set (rs @ ?more). leads_to d removed q u}"
      using 1 by blast
    then have "required_loop d removed found queue = Some ids"
      by (subst required_loop.simps) (simp add: Cons)
    moreover have "set ids = set found \<union> {u. \<exists>q \<in> set queue. leads_to d removed q u}"
      unfolding ids Cons using leads_to_step [of d removed r] by auto
    ultimately show ?thesis by blast
  qed
qed

text \<open>C26: when the removed tasks do not require each other in a circle, the search for what takes the
  place of a task's requirements ends, with the ids of exactly those remaining tasks the task
  required through removed ones.\<close>

theorem requirements_bridged:
  assumes "\<And>r u q. map_of d r = Some u \<Longrightarrow> ta_key u \<in> set removed \<Longrightarrow> q \<in> set (ta_dep_ids u) \<Longrightarrow>
      (rank q :: nat) < rank r"
  shows "\<exists>ids. get_required_task_uids t removed d = Some ids \<and>
    set ids = {u. \<exists>r \<in> set (ta_dep_ids t). leads_to d removed r u}"
  using required_loop_ends [where found = "[]" and queue = "ta_dep_ids t" and rank = rank] assms
  by (simp add: get_required_task_uids_def)

section \<open>The rewriting keeps the other tasks\<close>

lemma update_task_requires_key: "update_task_requires d removed ls t = Some u \<Longrightarrow> ta_key u = ta_key t"
  by (auto simp: update_task_requires_def split: if_splits)

lemma map_opt_Some: "map_opt f xs = Some ys \<Longrightarrow> length ys = length xs \<and> (\<forall>i < length xs. f (xs ! i) = Some (ys ! i))"
  by (auto simp: map_opt_def Let_def split: if_splits) (metis imageI nth_mem option.collapse)

lemma map_opt_keys: "map_opt (update_task_requires d removed ls) ts = Some us \<Longrightarrow> map ta_key us = map ta_key ts"
  by (rule nth_equalityI) (use map_opt_Some update_task_requires_key in \<open>fastforce+\<close>)

lemma node_tasks_update [simp]:
  "get_node_tasks_for_hostname (update_persisted_tasks_for_node h ts P) h' =
    (if h' = h then ts else get_node_tasks_for_hostname P h')"
  by (auto simp: get_node_tasks_for_hostname_def update_persisted_tasks_for_node_def)

lemma fold_bind_None: "fold (\<lambda>x u. Option.bind u (f x)) xs None = None"
  by (induction xs) auto

lemma filter_keys:
  assumes "map ta_key us = map ta_key ts"
  shows "map ta_key (filter (\<lambda>t. ta_key t \<notin> A) us) = map ta_key (filter (\<lambda>t. ta_key t \<notin> A) ts)"
  using assms filter_map [of "\<lambda>k. k \<notin> A" ta_key us] filter_map [of "\<lambda>k. k \<notin> A" ta_key ts]
  by (simp add: comp_def)

lemma rewrite_host_result:
  assumes "rewrite_host match h ts w = Some w'" and "get_node_tasks_for_hostname (rw_puppet w) h = ts"
    and "distinct (map ta_key ts)" and "ta_key ` set ts \<inter> set (rw_removed_ids w) = {}"
  shows "rw_removed w' = rw_removed w @ filter match ts \<and>
    rw_removed_ids w' = rw_removed_ids w @ map ta_key (filter match ts) \<and>
    (\<forall>g. map ta_key (get_node_tasks_for_hostname (rw_puppet w') g) =
       map ta_key (if g = h then filter (\<lambda>t. \<not> match t) ts else get_node_tasks_for_hostname (rw_puppet w) g))"
proof (cases "filter match ts = []")
  case True
  then have "filter (\<lambda>t. \<not> match t) ts = ts" by (simp add: filter_empty_conv)
  with True assms(1,2) show ?thesis by (auto simp: rewrite_host_def Let_def)
next
  case False
  let ?ids = "rw_removed_ids w @ map ta_key (filter match ts)"
  obtain us where "map_opt (update_task_requires (fold (\<lambda>t. AList.update (ta_unique_id t) t) ts (rw_task_dict w))
      ?ids (filter match ts)) ts = Some us"
    and w': "rw_removed w' = rw_removed w @ filter match ts" "rw_removed_ids w' = ?ids"
      "rw_puppet w' = update_persisted_tasks_for_node h (filter (\<lambda>t. ta_key t \<notin> set ?ids) us) (rw_puppet w)"
    using assms(1) False by (auto simp: rewrite_host_def Let_def split: option.splits)
  then have keys: "map ta_key us = map ta_key ts" using map_opt_keys by blast
  have "ta_key t \<notin> set ?ids \<longleftrightarrow> \<not> match t" if "t \<in> set ts" for t
    using that assms(3,4) by (auto simp: distinct_map inj_on_def)
  then have "filter (\<lambda>t. ta_key t \<notin> set ?ids) ts = filter (\<lambda>t. \<not> match t) ts" by (rule filter_cong [OF refl])
  with filter_keys [OF keys, of "set ?ids"] w' show ?thesis by simp
qed

lemma rewrite_rows:
  assumes "fold (\<lambda>(h, ts) u. Option.bind u (rewrite_host match h ts)) rows (Some w) = Some w'"
    and "distinct (map fst rows)" and "distinct (map ta_key (concat (map snd rows)))"
    and "ta_key ` set (concat (map snd rows)) \<inter> set (rw_removed_ids w) = {}"
    and "\<forall>(h, ts) \<in> set rows. get_node_tasks_for_hostname (rw_puppet w) h = ts"
  shows "rw_removed w' = rw_removed w @ filter match (concat (map snd rows)) \<and>
    (\<forall>(h, ts) \<in> set rows. map ta_key (get_node_tasks_for_hostname (rw_puppet w') h) =
       map ta_key (filter (\<lambda>t. \<not> match t) ts)) \<and>
    (\<forall>h. h \<notin> fst ` set rows \<longrightarrow> map ta_key (get_node_tasks_for_hostname (rw_puppet w') h) =
       map ta_key (get_node_tasks_for_hostname (rw_puppet w) h))"
  using assms
proof (induction rows arbitrary: w)
  case (Cons r rows)
  obtain h ts where r: "r = (h, ts)" by (cases r)
  let ?step = "\<lambda>(h, ts) u. Option.bind u (rewrite_host match h ts)"
  have eq: "?step = (\<lambda>x u. Option.bind u (rewrite_host match (fst x) (snd x)))" by auto
  obtain v where v: "rewrite_host match h ts w = Some v"
  proof (cases "rewrite_host match h ts w")
    case None
    with Cons.prems(1) r have "fold ?step rows None = Some w'" by simp
    then show ?thesis unfolding eq by (simp add: fold_bind_None)
  qed
  have rest: "fold ?step rows (Some v) = Some w'" using Cons.prems(1) r v by simp
  have "get_node_tasks_for_hostname (rw_puppet w) h = ts" "distinct (map ta_key ts)"
    "ta_key ` set ts \<inter> set (rw_removed_ids w) = {}"
    using Cons.prems(3-5) r by auto
  note one = rewrite_host_result [OF v this]
  have h: "h \<notin> fst ` set rows" using Cons.prems(2) r by auto
  have "\<forall>(g, us) \<in> set rows. get_node_tasks_for_hostname (rw_puppet v) g = us"
  proof (safe)
    fix g us assume g: "(g, us) \<in> set rows"
    with h have "g \<noteq> h" by force
    then have "get_node_tasks_for_hostname (rw_puppet v) g = get_node_tasks_for_hostname (rw_puppet w) g"
      using v by (auto simp: rewrite_host_def Let_def split: if_splits option.splits)
    with Cons.prems(5) g show "get_node_tasks_for_hostname (rw_puppet v) g = us" by auto
  qed
  moreover have "ta_key ` set (concat (map snd rows)) \<inter> set (rw_removed_ids v) = {}"
  proof -
    have "set (rw_removed_ids v) \<subseteq> set (rw_removed_ids w) \<union> ta_key ` set ts" using one by auto
    moreover have "ta_key ` set (concat (map snd rows)) \<inter> ta_key ` set ts = {}"
      "ta_key ` set (concat (map snd rows)) \<inter> set (rw_removed_ids w) = {}"
      using Cons.prems(3,4) unfolding r by (simp_all add: image_Un Int_commute Int_Un_distrib Int_Un_distrib2)
    ultimately show ?thesis by blast
  qed
  ultimately have IH: "rw_removed w' = rw_removed v @ filter match (concat (map snd rows))"
    "\<forall>(h, ts) \<in> set rows. map ta_key (get_node_tasks_for_hostname (rw_puppet w') h) =
       map ta_key (filter (\<lambda>t. \<not> match t) ts)"
    "\<forall>h. h \<notin> fst ` set rows \<longrightarrow> map ta_key (get_node_tasks_for_hostname (rw_puppet w') h) =
       map ta_key (get_node_tasks_for_hostname (rw_puppet v) h)"
    using Cons.IH [OF rest] Cons.prems(2,3) r by simp_all
  then show ?case using one h r by auto
qed simp

text \<open>C25: the rewriting of the manifests at the end of a plan takes out exactly the tasks it is to
  take out and keeps the others, on every host and in their order.\<close>

theorem rewriting_keeps_rest:
  assumes "rewrite_persisted_tasks match P = Some (hosts, removed, P')"
    and "distinct (map fst (pu_node_tasks P))" and "distinct (map ta_key (all_tasks P))"
  shows "removed = filter match (all_tasks P) \<and>
    (\<forall>h. map ta_key (get_node_tasks_for_hostname P' h) =
       map ta_key (filter (\<lambda>t. \<not> match t) (get_node_tasks_for_hostname P h)))"
proof -
  let ?w = "\<lparr>rw_task_dict = [], rw_removed_ids = [], rw_hosts = [], rw_removed = [], rw_puppet = P\<rparr>"
  obtain w' where w: "fold (\<lambda>(h, ts) u. Option.bind u (rewrite_host match h ts)) (pu_node_tasks P) (Some ?w) = Some w'"
    and out: "removed = rw_removed w'" "P' = rw_puppet w'"
    using assms(1) by (auto simp: rewrite_persisted_tasks_def Let_def)
  have rows: "\<forall>(h, ts) \<in> set (pu_node_tasks P). get_node_tasks_for_hostname P h = ts"
    using assms(2) by (auto simp: get_node_tasks_for_hostname_def)
  have r: "rw_removed w' = filter match (all_tasks P)"
    "\<forall>(h, ts) \<in> set (pu_node_tasks P). map ta_key (get_node_tasks_for_hostname (rw_puppet w') h) =
       map ta_key (filter (\<lambda>t. \<not> match t) ts)"
    "\<forall>h. h \<notin> fst ` set (pu_node_tasks P) \<longrightarrow> map ta_key (get_node_tasks_for_hostname (rw_puppet w') h) =
       map ta_key (get_node_tasks_for_hostname P h)"
    using rewrite_rows [OF w assms(2)] assms(3) rows by (simp_all add: all_tasks_def)
  have "map ta_key (get_node_tasks_for_hostname P' h) =
      map ta_key (filter (\<lambda>t. \<not> match t) (get_node_tasks_for_hostname P h))" for h
  proof (cases "map_of (pu_node_tasks P) h")
    case None
    then have "h \<notin> fst ` set (pu_node_tasks P)" by (simp add: map_of_eq_None_iff)
    then show ?thesis using r(3) out(2) None by (simp add: get_node_tasks_for_hostname_def)
  next
    case (Some ts)
    then have "(h, ts) \<in> set (pu_node_tasks P)" by (rule map_of_SomeD)
    then show ?thesis using r(2) rows out(2) by auto
  qed
  with r(1) out(1) show ?thesis by simp
qed

section \<open>A failed phase leaves the manifests as they were\<close>

definition backup_of :: "(string \<times> string list) list \<Rightarrow> string \<Rightarrow> string list" where
  "backup_of b k = (case map_of b k of None \<Rightarrow> [] | Some ks \<Rightarrow> ks)"

lemma backup_of_task: "backup_of (backup_task k old b) j = (if j = k then backup_of b k @ [old] else backup_of b j)"
  by (auto simp: backup_of_def backup_task_def)

text \<open>What a task of a manifest stands for when the tasks with the identifiers \<open>F\<close> have failed.\<close>

definition stands_for :: "(string \<Rightarrow> task) \<Rightarrow> string set \<Rightarrow> (string \<times> string list) list \<Rightarrow> task \<Rightarrow> task multiset" where
  "stands_for stored F b u = (if ta_key u \<in> F then mset (map stored (backup_of b (ta_key u))) else {#u#})"

definition restored_mset :: "(string \<Rightarrow> task) \<Rightarrow> string set \<Rightarrow> (string \<times> string list) list \<Rightarrow> (call \<times> task) list \<Rightarrow> task multiset" where
  "restored_mset stored F b d = (\<Sum>u \<in># mset (map snd d). stands_for stored F b u)"

definition keyed_calls :: "(call \<times> task) list \<Rightarrow> bool" where
  "keyed_calls d \<longleftrightarrow> distinct (map fst d) \<and> (\<forall>(c, u) \<in> set d. c = call_of u)"

lemma mset_delete: "distinct (map fst d) \<Longrightarrow> map_of d c = Some u \<Longrightarrow>
    mset (map snd d) = add_mset u (mset (map snd (AList.delete c d)))"
proof (induction d)
  case (Cons x d)
  obtain c' v where x: "x = (c', v)" by (cases x)
  show ?case
  proof (cases "c' = c")
    case True
    with Cons.prems x have "c \<notin> fst ` set d" by auto
    then have "AList.delete c d = d" by simp
    with True Cons.prems x show ?thesis by simp
  next
    case False
    with Cons x show ?thesis by simp
  qed
qed simp

lemma mset_call_update: "distinct (map fst d) \<Longrightarrow>
    mset (map snd (AList.update c t d)) =
      (case map_of d c of None \<Rightarrow> add_mset t (mset (map snd d))
       | Some u \<Rightarrow> add_mset t (mset (map snd (AList.delete c d))))"
proof (induction d)
  case (Cons x d)
  obtain c' v where x: "x = (c', v)" by (cases x)
  show ?case
  proof (cases "c' = c")
    case True
    with Cons.prems x have "c \<notin> fst ` set d" by auto
    then have "AList.delete c d = d" by simp
    with True Cons.prems x show ?thesis by simp
  next
    case False
    with Cons x show ?thesis by (simp split: option.splits)
  qed
qed simp

lemma keyed_calls_delete: "keyed_calls d \<Longrightarrow> keyed_calls (AList.delete c d)"
  using set_delete_subset [of c d] by (fastforce simp: keyed_calls_def distinct_delete)

lemma set_update_subset: "set (AList.update c t d) \<subseteq> insert (c, t) (set d)"
  by (induction d) auto

lemma keyed_calls_update: "keyed_calls d \<Longrightarrow> keyed_calls (AList.update (call_of t) t d)"
  using set_update_subset [of "call_of t" t d] by (fastforce simp: keyed_calls_def distinct_update)

lemma restored_other:
  assumes "\<And>u. u \<in> snd ` set d \<Longrightarrow> ta_key u \<noteq> k" and "\<And>j. j \<noteq> k \<Longrightarrow> backup_of b' j = backup_of b j"
  shows "restored_mset stored F b' d = restored_mset stored F b d"
  unfolding restored_mset_def
  by (rule arg_cong [where f = sum_mset], rule image_mset_cong) (use assms in \<open>auto simp: stands_for_def\<close>)

text \<open>Tasks that stay what they are: not of the phase, and stored as they are.\<close>

definition kept_task :: "(string \<Rightarrow> task) \<Rightarrow> string set \<Rightarrow> task \<Rightarrow> bool" where
  "kept_task stored F u \<longleftrightarrow> ta_key u \<notin> F \<and> stored (ta_key u) = u"

lemma replace_call_keeps:
  assumes "replace_call t r (d, b) = (d', b')" and "keyed_calls d" and "\<forall>u \<in> snd ` set d. ta_key u \<noteq> ta_key t"
    and "\<And>u. map_of d r = Some u \<Longrightarrow> kept_task stored F u"
  shows "keyed_calls d' \<and> set d' \<subseteq> set d \<and> (\<forall>j. j \<noteq> ta_key t \<longrightarrow> backup_of b' j = backup_of b j) \<and>
    restored_mset stored F b' d' + mset (map stored (backup_of b' (ta_key t))) =
    restored_mset stored F b d + mset (map stored (backup_of b (ta_key t)))"
proof (cases "map_of d r")
  case None
  with assms show ?thesis by (simp add: replace_call_def)
next
  case (Some u)
  then have d': "d' = AList.delete r d" and b': "b' = backup_task (ta_key t) (ta_key u) b"
    using assms(1) by (simp_all add: replace_call_def)
  have sub: "set d' \<subseteq> set d" unfolding d' by (rule set_delete_subset)
  then have "restored_mset stored F b' d' = restored_mset stored F b d'"
    using assms(3) b' by (intro restored_other [where k = "ta_key t"]) (auto simp: backup_of_task)
  moreover have "restored_mset stored F b d = add_mset u (restored_mset stored F b d')"
    using assms(2,4) Some mset_delete [of d r u]
    by (simp add: restored_mset_def d' keyed_calls_def stands_for_def kept_task_def)
  moreover have "stored (ta_key u) = u" using assms(4) Some by (simp add: kept_task_def)
  ultimately show ?thesis using sub assms(2) b' keyed_calls_delete d' by (simp add: backup_of_task)
qed

lemma replace_calls_keep:
  assumes "fold (replace_call t) rs (d, b) = (d', b')" and "keyed_calls d" and "\<forall>u \<in> snd ` set d. ta_key u \<noteq> ta_key t"
    and "\<forall>(c, u) \<in> set d. c \<in> set rs \<longrightarrow> kept_task stored F u"
  shows "keyed_calls d' \<and> set d' \<subseteq> set d \<and> (\<forall>j. j \<noteq> ta_key t \<longrightarrow> backup_of b' j = backup_of b j) \<and>
    restored_mset stored F b' d' + mset (map stored (backup_of b' (ta_key t))) =
    restored_mset stored F b d + mset (map stored (backup_of b (ta_key t)))"
  using assms
proof (induction rs arbitrary: d b)
  case (Cons r rs)
  obtain d1 b1 where one: "replace_call t r (d, b) = (d1, b1)" by fastforce
  have "kept_task stored F u" if "map_of d r = Some u" for u
    using Cons.prems(4) map_of_SomeD [OF that] by auto
  note s = replace_call_keeps [OF one Cons.prems(2,3) this]
  have "fold (replace_call t) rs (d1, b1) = (d', b')" using Cons.prems(1) one by simp
  moreover have "\<forall>u \<in> snd ` set d1. ta_key u \<noteq> ta_key t" using s Cons.prems(3) by blast
  moreover have "\<forall>(c, u) \<in> set d1. c \<in> set rs \<longrightarrow> kept_task stored F u" using s Cons.prems(4) by fastforce
  ultimately have IH: "keyed_calls d' \<and> set d' \<subseteq> set d1 \<and> (\<forall>j. j \<noteq> ta_key t \<longrightarrow> backup_of b' j = backup_of b1 j) \<and>
    restored_mset stored F b' d' + mset (map stored (backup_of b' (ta_key t))) =
    restored_mset stored F b1 d1 + mset (map stored (backup_of b1 (ta_key t)))"
    using Cons.IH [of d1 b1] s by blast
  with s show ?case by (metis subset_trans)
qed simp

lemma place_task_keeps:
  assumes "place_task t (d, b) = (d', b')" and "keyed_calls d" and "\<forall>u \<in> snd ` set d. ta_key u \<noteq> ta_key t"
    and "\<forall>(c, u) \<in> set d. c \<in> insert (call_of t) (set (ta_replaces t)) \<longrightarrow> kept_task stored F u"
    and "ta_key t \<in> F" and "backup_of b (ta_key t) = []"
  shows "keyed_calls d' \<and> set d' \<subseteq> insert (call_of t, t) (set d) \<and>
    (\<forall>j. j \<noteq> ta_key t \<longrightarrow> backup_of b' j = backup_of b j) \<and>
    restored_mset stored F b' d' = restored_mset stored F b d"
proof -
  obtain d1 b1 where one: "fold (replace_call t) (ta_replaces t) (d, b) = (d1, b1)" by fastforce
  have "\<forall>(c, u) \<in> set d. c \<in> set (ta_replaces t) \<longrightarrow> kept_task stored F u" using assms(4) by auto
  note s = replace_calls_keep [OF one assms(2,3) this]
  have d': "d' = AList.update (call_of t) t d1"
    and b': "b' = (case map_of d1 (call_of t) of None \<Rightarrow> b1 | Some u \<Rightarrow> backup_task (ta_key t) (ta_key u) b1)"
    using assms(1) one by (simp_all add: place_task_def)
  have keys: "\<forall>u \<in> snd ` set d1. ta_key u \<noteq> ta_key t" using s assms(3) by blast
  have agree: "backup_of b' j = backup_of b1 j" if "j \<noteq> ta_key t" for j
    using that by (auto simp: b' backup_of_task split: option.splits)
  have other: "restored_mset stored F b' e = restored_mset stored F b1 e" if "set e \<subseteq> set d1" for e
    using that keys agree by (intro restored_other [where k = "ta_key t"]) auto
  have "restored_mset stored F b' d' = restored_mset stored F b1 d1 + mset (map stored (backup_of b1 (ta_key t)))"
  proof (cases "map_of d1 (call_of t)")
    case None
    then have "restored_mset stored F b' d' = stands_for stored F b' t + restored_mset stored F b' d1"
      using s mset_call_update [of d1 "call_of t" t] by (simp add: restored_mset_def d' keyed_calls_def)
    with other [of d1] None b' assms(5) show ?thesis by (simp add: stands_for_def)
  next
    case (Some u)
    let ?e = "AList.delete (call_of t) d1"
    have "kept_task stored F u" using assms(4) s map_of_SomeD [OF Some] by blast
    moreover have "restored_mset stored F b1 d1 = stands_for stored F b1 u + restored_mset stored F b1 ?e"
      using s mset_delete [of d1 "call_of t" u] Some by (simp add: restored_mset_def keyed_calls_def)
    moreover have "restored_mset stored F b' d' = stands_for stored F b' t + restored_mset stored F b' ?e"
      using s mset_call_update [of d1 "call_of t" t] Some by (simp add: restored_mset_def d' keyed_calls_def)
    moreover have "restored_mset stored F b' ?e = restored_mset stored F b1 ?e"
      by (rule other) (rule set_delete_subset)
    moreover have "backup_of b' (ta_key t) = backup_of b1 (ta_key t) @ [ta_key u]"
      using Some by (simp add: b' backup_of_task)
    ultimately show ?thesis using assms(5) by (simp add: stands_for_def kept_task_def)
  qed
  moreover have "set d' \<subseteq> insert (call_of t, t) (set d)"
    using s set_update_subset [of "call_of t" t d1] d' by blast
  ultimately show ?thesis using s agree keyed_calls_update d' assms(6) by simp
qed

type_synonym manifests = "(string \<times> (call \<times> task) list) list \<times> (string \<times> string list) list"

definition place_on_host :: "string \<times> task \<Rightarrow> manifests \<Rightarrow> manifests" where
  "place_on_host = (\<lambda>(h, t) (ds, b). let (d, b) = place_task t (the (map_of ds h), b) in (AList.update h d ds, b))"

text \<open>After the tasks \<open>done\<close> have been placed: the manifest of each host stands for the tasks it had,
  and holds only those and placed tasks.\<close>

definition placed ::
  "(string \<Rightarrow> task) \<Rightarrow> string set \<Rightarrow> (string \<Rightarrow> task multiset) \<Rightarrow> string set \<Rightarrow> (string \<times> task) list \<Rightarrow> manifests \<Rightarrow> bool" where
  "placed stored F M hosts done = (\<lambda>(ds, b).
     (\<forall>h \<in> hosts. \<exists>d. map_of ds h = Some d \<and> keyed_calls d \<and> restored_mset stored F b d = M h \<and>
        (\<forall>u \<in> snd ` set d. kept_task stored F u \<or> (h, u) \<in> set done)) \<and>
     (\<forall>k. k \<notin> (ta_key \<circ> snd) ` set done \<longrightarrow> backup_of b k = []))"

definition compatible :: "(string \<times> task) list \<Rightarrow> bool" where
  "compatible hts \<longleftrightarrow> distinct (map (ta_key \<circ> snd) hts) \<and>
     (\<forall>h t u. (h, t) \<in> set hts \<longrightarrow> (h, u) \<in> set hts \<longrightarrow> ta_key t \<noteq> ta_key u \<longrightarrow>
        call_of u \<notin> insert (call_of t) (set (ta_replaces t)))"

lemma compatibleD:
  "compatible hts \<Longrightarrow> (h, t) \<in> set hts \<Longrightarrow> (h, u) \<in> set hts \<Longrightarrow> ta_key t \<noteq> ta_key u \<Longrightarrow>
    call_of u \<notin> insert (call_of t) (set (ta_replaces t))"
  unfolding compatible_def by blast

lemma compatible_prefix: "compatible (xs @ ys) \<Longrightarrow> compatible xs"
  unfolding compatible_def by auto

lemma placed_step:
  assumes "placed stored F M hosts done (ds, b)" and "compatible (done @ [(h, t)])" and "h \<in> hosts"
    and "(ta_key \<circ> snd) ` set (done @ [(h, t)]) \<subseteq> F"
  shows "placed stored F M hosts (done @ [(h, t)]) (place_on_host (h, t) (ds, b))"
proof -
  obtain d where d: "map_of ds h = Some d" "keyed_calls d" "restored_mset stored F b d = M h"
    "\<forall>u \<in> snd ` set d. kept_task stored F u \<or> (h, u) \<in> set done"
    using assms(1,3) unfolding placed_def by blast
  obtain d' b' where one: "place_task t (d, b) = (d', b')" by fastforce
  have F: "ta_key t \<in> F" using assms(4) by simp
  have "ta_key t \<notin> (ta_key \<circ> snd) ` set done"
    using assms(2) by (auto simp: compatible_def)
  then have new: "ta_key u \<noteq> ta_key t" if "(g, u) \<in> set done" for g u
    using that by force
  have apart: "ta_key u \<noteq> ta_key t" if "kept_task stored F u \<or> (g, u) \<in> set done" for g u
    using that F new by (auto simp: kept_task_def)
  then have keys: "\<forall>u \<in> snd ` set d. ta_key u \<noteq> ta_key t"
    using d(4) by blast
  have "kept_task stored F u" if cu: "(c, u) \<in> set d" and c: "c \<in> insert (call_of t) (set (ta_replaces t))" for c u
  proof (rule ccontr)
    assume "\<not> kept_task stored F u"
    then have dn: "(h, u) \<in> set done" using d(4) cu by force
    moreover have "c = call_of u" using d(2) cu by (auto simp: keyed_calls_def)
    ultimately show False using compatibleD [OF assms(2), of h t u] c new [OF dn] by auto
  qed
  then have repl: "\<forall>(c, u) \<in> set d. c \<in> insert (call_of t) (set (ta_replaces t)) \<longrightarrow> kept_task stored F u"
    by blast
  have none: "backup_of b (ta_key t) = []"
    using assms(1) \<open>ta_key t \<notin> (ta_key \<circ> snd) ` set done\<close> unfolding placed_def by blast
  note r = place_task_keeps [OF one d(2) keys repl F none]
  have ds': "place_on_host (h, t) (ds, b) = (AList.update h d' ds, b')"
    using d(1) one by (simp add: place_on_host_def)
  show ?thesis unfolding ds' placed_def split
  proof (intro conjI ballI allI impI)
    fix g assume g: "g \<in> hosts"
    show "\<exists>e. map_of (AList.update h d' ds) g = Some e \<and> keyed_calls e \<and> restored_mset stored F b' e = M g \<and>
        (\<forall>u \<in> snd ` set e. kept_task stored F u \<or> (g, u) \<in> set (done @ [(h, t)]))"
    proof (cases "g = h")
      case True
      have "\<forall>u \<in> snd ` set d'. kept_task stored F u \<or> (h, u) \<in> set (done @ [(h, t)])"
        using r d(4) by fastforce
      with True r d(3) show ?thesis by simp
    next
      case False
      from assms(1) g obtain e where e: "map_of ds g = Some e" "keyed_calls e" "restored_mset stored F b e = M g"
        "\<forall>u \<in> snd ` set e. kept_task stored F u \<or> (g, u) \<in> set done"
        unfolding placed_def by blast
      have "\<forall>u \<in> snd ` set e. ta_key u \<noteq> ta_key t"
        using e(4) apart by blast
      then have "restored_mset stored F b' e = restored_mset stored F b e"
        by (intro restored_other [where k = "ta_key t"]) (use r in blast)+
      then have "restored_mset stored F b' e = M g" using e(3) by simp
      moreover have "map_of (AList.update h d' ds) g = Some e" using e(1) False by simp
      moreover have "set done \<subseteq> set (done @ [(h, t)])" by auto
      ultimately show ?thesis using e(2,4) by blast
    qed
  next
    fix k assume "k \<notin> (ta_key \<circ> snd) ` set (done @ [(h, t)])"
    then have "k \<noteq> ta_key t" and "k \<notin> (ta_key \<circ> snd) ` set done" by auto
    moreover have "\<forall>k. k \<notin> (ta_key \<circ> snd) ` set done \<longrightarrow> backup_of b k = []"
      using assms(1) unfolding placed_def by blast
    ultimately show "backup_of b' k = []" using r by metis
  qed
qed

lemma placed_all:
  assumes "placed stored F M hosts done db" and "compatible (done @ hts)" and "fst ` set hts \<subseteq> hosts"
    and "(ta_key \<circ> snd) ` set (done @ hts) \<subseteq> F"
  shows "placed stored F M hosts (done @ hts) (fold place_on_host hts db)"
  using assms
proof (induction hts arbitrary: "done" db)
  case (Cons x hts)
  obtain h t where x: "x = (h, t)" by (cases x)
  obtain ds b where db: "db = (ds, b)" by (cases db)
  have "compatible (done @ [x])" using compatible_prefix [of "done @ [x]" hts] Cons.prems(2) by simp
  then have "placed stored F M hosts (done @ [x]) (place_on_host x db)"
    unfolding x db using Cons.prems unfolding x db by (intro placed_step) auto
  then show ?case using Cons.IH [of "done @ [x]" "place_on_host x db"] Cons.prems by simp
qed simp

lemma update_fresh: "c \<notin> fst ` set d \<Longrightarrow> AList.update c x d = d @ [(c, x)]"
  by (induction d) auto

lemma ordered_tasks_distinct:
  assumes "distinct (map call_of ts)"
  shows "ordered_tasks ts = map (\<lambda>t. (call_of t, t)) ts"
proof -
  have "fold (\<lambda>t d. AList.update (call_of t) t d) us (map (\<lambda>t. (call_of t, t)) vs) =
      map (\<lambda>t. (call_of t, t)) (vs @ us)" if "distinct (map call_of (vs @ us))" for vs us
    using that
  proof (induction us arbitrary: vs)
    case (Cons u us)
    have "call_of u \<notin> fst ` set (map (\<lambda>t. (call_of t, t)) vs)" using Cons.prems by auto
    then have "AList.update (call_of u) u (map (\<lambda>t. (call_of t, t)) vs) =
        map (\<lambda>t. (call_of t, t)) vs @ [(call_of u, u)]" by (rule update_fresh)
    then show ?case using Cons.IH [of "vs @ [u]"] Cons.prems by simp
  qed simp
  from this [of "[]" ts] assms show ?thesis by (simp add: ordered_tasks_def)
qed

text \<open>Writing the manifests of the hosts back.\<close>

lemma written_manifests:
  assumes "distinct (map fst ds)"
  shows "get_node_tasks_for_hostname
      (fold (\<lambda>(h, d). update_persisted_tasks_for_node h (map snd d)) ds P) h =
    (case map_of ds h of None \<Rightarrow> get_node_tasks_for_hostname P h | Some d \<Rightarrow> map snd d)"
  using assms
proof (induction ds arbitrary: P)
  case (Cons x ds)
  obtain g d where x: "x = (g, d)" by (cases x)
  with Cons.prems have "map_of ds g = None" by (simp add: map_of_eq_None_iff)
  with Cons x show ?case by (auto split: option.splits)
qed simp

lemma written_other:
  "pu_processing_nodes (fold (\<lambda>(h, d). update_persisted_tasks_for_node h (map snd d)) ds P) = pu_processing_nodes P \<and>
   pu_task_backup (fold (\<lambda>(h, d). update_persisted_tasks_for_node h (map snd d)) ds P) = pu_task_backup P"
  by (induction ds arbitrary: P) (auto simp: update_persisted_tasks_for_node_def)

lemma placed_hosts: "map fst (fst (place_on_host x db)) = map fst (fst db)" if "fst x \<in> set (map fst (fst db))"
  using that by (cases x; cases db) (force simp: place_on_host_def update_keys split: prod.splits)

lemma placed_all_hosts:
  "fst ` set hts \<subseteq> set (map fst (fst db)) \<Longrightarrow> map fst (fst (fold place_on_host hts db)) = map fst (fst db)"
proof (induction hts arbitrary: db)
  case (Cons x hts)
  then have "map fst (fst (place_on_host x db)) = map fst (fst db)" by (intro placed_hosts) auto
  then show ?case using Cons.IH [of "place_on_host x db"] Cons.prems by simp
qed simp

lemma add_to_manifests_result:
  assumes "add_to_manifests ts P = Inr Q" and "pu_task_backup P = []"
    and "distinct (map ta_key ts)" and "F = ta_key ` set ts"
    and "\<forall>h. \<forall>u \<in> set (get_node_tasks_for_hostname P h). kept_task stored F u"
    and "\<forall>h. distinct (map call_of (get_node_tasks_for_hostname P h))"
    and "\<forall>t \<in> set ts. \<forall>u \<in> set ts. ta_key t \<noteq> ta_key u \<longrightarrow> task_hostname t = task_hostname u \<longrightarrow>
      call_of u \<notin> insert (call_of t) (set (ta_replaces t))"
  obtains hosts where "\<forall>t \<in> set ts. \<exists>h \<in> set hosts. task_hostname t = Inr h"
    and "set hosts = {h. \<exists>t \<in> set ts. task_hostname t = Inr h}"
    and "pu_processing_nodes Q = pu_processing_nodes P"
    and "\<And>h. h \<notin> set hosts \<Longrightarrow> get_node_tasks_for_hostname Q h = get_node_tasks_for_hostname P h"
    and "\<And>h. h \<in> set hosts \<Longrightarrow> (\<exists>d. get_node_tasks_for_hostname Q h = map snd d \<and>
       restored_mset stored F (pu_task_backup Q) d = mset (get_node_tasks_for_hostname P h) \<and>
       (\<forall>u \<in> set (map snd d). kept_task stored F u \<or> u \<in> set ts))"
proof -
  from assms(1) obtain hts where hts: "map_res (\<lambda>t. rbind (task_hostname t) (\<lambda>h. Inr (h, t))) ts = Inr hts"
    by (auto simp: add_to_manifests_def rbind_Inr_iff)
  then have l2: "list_all2 (\<lambda>t x. task_hostname t = Inr (fst x) \<and> snd x = t) ts hts"
    by (auto simp: map_res_Inr_iff rbind_Inr_iff elim!: list_all2_mono)
  then have snd: "map snd hts = ts" by (induction rule: list_all2_induct) auto
  have host: "task_hostname t = Inr h" if "(h, t) \<in> set hts" for h t
    using l2 that by (auto simp: list_all2_conv_all_nth in_set_conv_nth)
  have all: "\<exists>h. (h, t) \<in> set hts" if "t \<in> set ts" for t using that snd by force
  let ?hosts = "remdups (map fst hts)"
  let ?ds = "map (\<lambda>h. (h, ordered_tasks (get_node_tasks_for_hostname P h))) ?hosts"
  let ?db = "fold place_on_host hts (?ds, [])"
  let ?M = "\<lambda>h. mset (get_node_tasks_for_hostname P h)"
  have Q: "Q = fold (\<lambda>(h, d). update_persisted_tasks_for_node h (map snd d)) (fst ?db)
      (P\<lparr>pu_hosts_in_phase := ?hosts, pu_task_backup := snd ?db\<rparr>)"
    using assms(1,2) hts by (simp add: add_to_manifests_def place_on_host_def Let_def split: prod.splits)
  have start: "placed stored F ?M (set ?hosts) [] (?ds, [])"
    unfolding placed_def split
  proof (intro conjI ballI allI impI)
    fix h assume h: "h \<in> set ?hosts"
    let ?ts = "get_node_tasks_for_hostname P h"
    have d: "map_of ?ds h = Some (ordered_tasks ?ts)"
      using h by (simp add: map_of_map_restrict restrict_map_def)
    have o: "ordered_tasks ?ts = map (\<lambda>t. (call_of t, t)) ?ts" using assms(6) ordered_tasks_distinct by blast
    have "keyed_calls (ordered_tasks ?ts)" using assms(6) o by (auto simp: keyed_calls_def comp_def)
    moreover have "restored_mset stored F [] (ordered_tasks ?ts) = mset ?ts"
    proof -
      have "(\<Sum>u \<in># mset ?ts. stands_for stored F [] u) = (\<Sum>u \<in># mset ?ts. {#u#})"
        using assms(5) by (intro arg_cong [where f = sum_mset] image_mset_cong) (auto simp: stands_for_def kept_task_def)
      then show ?thesis by (simp add: restored_mset_def o comp_def)
    qed
    moreover have "\<forall>u \<in> snd ` set (ordered_tasks ?ts). kept_task stored F u" using assms(5) o by auto
    ultimately show "\<exists>d. map_of ?ds h = Some d \<and> keyed_calls d \<and> restored_mset stored F [] d = ?M h \<and>
        (\<forall>u \<in> snd ` set d. kept_task stored F u \<or> (h, u) \<in> set [])"
      using d by blast
  qed (simp add: backup_of_def)
  have comp: "compatible hts"
    unfolding compatible_def
  proof (intro conjI allI impI)
    show "distinct (map (ta_key \<circ> snd) hts)" using assms(3) snd by (metis map_map)
  next
    fix h t u assume tu: "(h, t) \<in> set hts" "(h, u) \<in> set hts" "ta_key t \<noteq> ta_key u"
    then have "t \<in> set ts" "u \<in> set ts" using snd by force+
    with tu host assms(7) show "call_of u \<notin> insert (call_of t) (set (ta_replaces t))" by metis
  qed
  have keysF: "(ta_key \<circ> snd) ` set ([] @ hts) \<subseteq> F" using assms(4) snd by force
  have fin: "placed stored F ?M (set ?hosts) hts ?db"
    using placed_all [OF start _ _ keysF] comp by simp
  have hosts: "map fst (fst ?db) = ?hosts"
    using placed_all_hosts [of hts "(?ds, [])"] by (simp add: comp_def)
  have got: "get_node_tasks_for_hostname Q h =
      (case map_of (fst ?db) h of None \<Rightarrow> get_node_tasks_for_hostname P h | Some d \<Rightarrow> map snd d)" for h
  proof -
    have same: "get_node_tasks_for_hostname (P\<lparr>pu_hosts_in_phase := a, pu_task_backup := b\<rparr>) h =
        get_node_tasks_for_hostname P h" for a b
      by (simp add: get_node_tasks_for_hostname_def)
    have "distinct (map fst (fst ?db))" unfolding hosts by simp
    then show ?thesis unfolding Q by (subst written_manifests) (simp_all only: same)
  qed
  show thesis
  proof
    show "\<forall>t \<in> set ts. \<exists>h \<in> set ?hosts. task_hostname t = Inr h" using all host by force
    show "set ?hosts = {h. \<exists>t \<in> set ts. task_hostname t = Inr h}"
    proof (intro set_eqI iffI)
      fix h assume "h \<in> set ?hosts"
      then obtain t where t: "(h, t) \<in> set hts" by auto
      then have "t \<in> set ts" using snd by force
      with host [OF t] show "h \<in> {h. \<exists>t \<in> set ts. task_hostname t = Inr h}" by blast
    next
      fix h assume "h \<in> {h. \<exists>t \<in> set ts. task_hostname t = Inr h}"
      then obtain t where t: "t \<in> set ts" "task_hostname t = Inr h" by blast
      then obtain g where "(g, t) \<in> set hts" using all by blast
      with t host show "h \<in> set ?hosts" by force
    qed
    show "pu_processing_nodes Q = pu_processing_nodes P" unfolding Q by (simp add: written_other)
    fix h
    show "get_node_tasks_for_hostname Q h = get_node_tasks_for_hostname P h" if "h \<notin> set ?hosts"
    proof -
      have "set (map fst (fst ?db)) = set ?hosts" by (rule arg_cong [OF hosts])
      with that have "h \<notin> fst ` set (fst ?db)" by (simp only: set_map not_False_eq_True)
      then have "map_of (fst ?db) h = None" by (simp only: map_of_eq_None_iff not_False_eq_True)
      then show ?thesis using got by simp
    qed
    show "\<exists>d. get_node_tasks_for_hostname Q h = map snd d \<and>
       restored_mset stored F (pu_task_backup Q) d = ?M h \<and>
       (\<forall>u \<in> set (map snd d). kept_task stored F u \<or> u \<in> set ts)" if "h \<in> set ?hosts"
    proof -
      have bk: "pu_task_backup Q = snd ?db" unfolding Q by (simp add: written_other)
      obtain ds b where db: "?db = (ds, b)" by (cases ?db)
      have "\<forall>h \<in> set ?hosts. \<exists>d. map_of ds h = Some d \<and> keyed_calls d \<and> restored_mset stored F b d = ?M h \<and>
          (\<forall>u \<in> snd ` set d. kept_task stored F u \<or> (h, u) \<in> set hts)"
        using fin unfolding placed_def db split by (rule conjunct1)
      from bspec [OF this that] obtain d where d: "map_of ds h = Some d" "restored_mset stored F b d = ?M h"
        "\<forall>u \<in> snd ` set d. kept_task stored F u \<or> (h, u) \<in> set hts"
        by blast
      have "get_node_tasks_for_hostname Q h = map snd d" using got [of h] d(1) db by simp
      moreover have "u \<in> set ts" if "(h, u) \<in> set hts" for u
        unfolding snd [symmetric] set_map using imageI [OF that, of snd] by (simp only: snd_conv)
      then have "\<forall>u \<in> set (map snd d). kept_task stored F u \<or> u \<in> set ts"
        using d(3) unfolding set_map by blast
      moreover have "restored_mset stored F (pu_task_backup Q) d = ?M h" using d(2) bk db by (simp only: snd_conv)
      ultimately show ?thesis by blast
    qed
  qed
qed

lemma restored_kept: "kept_task stored F u \<Longrightarrow> u \<in> set (map snd d) \<Longrightarrow> u \<in># restored_mset stored F b d"
  by (induction d) (auto simp: restored_mset_def stands_for_def kept_task_def)

lemma restored_tasks_mset:
  assumes "restored_mset stored F b d = M" and "\<forall>u \<in> set (map snd d). (current_state s u = TaskFailed) = (ta_key u \<in> F)"
  shows "mset (restored_tasks stored s b (map snd d)) = M"
proof -
  have "mset (restored_tasks stored s b us) = (\<Sum>u \<in># mset us. stands_for stored F b u)"
    if "\<forall>u \<in> set us. (current_state s u = TaskFailed) = (ta_key u \<in> F)" for us
    using that by (induction us) (simp_all add: restored_tasks_def stands_for_def backup_of_def)
  from this [OF assms(2)] assms(1) show ?thesis by (simp add: restored_mset_def)
qed

lemma restored_rows:
  "get_node_tasks_for_hostname (fold (\<lambda>h. update_persisted_tasks_for_node h (f h)) hs Q) h =
    (if h \<in> set hs then f h else get_node_tasks_for_hostname Q h)"
  by (induction hs arbitrary: Q) auto


section \<open>Examples\<close>

text \<open>Three persisted tasks of one node, each requiring the one before.\<close>

definition chain_task :: "string \<Rightarrow> string list \<Rightarrow> task" where
  "chain_task k ids = (sample_task k ConfigTaskC [])\<lparr>ta_dep_ids := ids\<rparr>"

definition chain_dict :: "task dict" where
  "chain_dict = [(''a'', chain_task ''a'' []), (''b'', chain_task ''b'' [''a'']), (''c'', chain_task ''c'' [''b''])]"

definition chain_puppet :: puppet where
  "chain_puppet = new_puppet [(''n'', map snd chain_dict)]"

theorem requirements_bridged_witness:
  "\<exists>ids. get_required_task_uids (chain_task ''c'' [''b'']) [''b''] chain_dict = Some ids \<and>
    set ids = {u. \<exists>r \<in> {''b''}. leads_to chain_dict [''b''] r u}"
proof -
  have "(if q = ''b'' then 1 else 0) < (if r = ''b'' then 1 else 0 :: nat)"
    if "map_of chain_dict r = Some u" "ta_key u \<in> set [''b'']" "q \<in> set (ta_dep_ids u)" for r u q
    using that by (auto simp: chain_dict_def chain_task_def sample_task_def split: if_splits)
  from requirements_bridged [of chain_dict "[''b'']" "\<lambda>q. if q = ''b'' then 1 else 0" "chain_task ''c'' [''b'']", OF this]
  show ?thesis by (simp add: chain_task_def)
qed

theorem rewriting_keeps_rest_witness:
  "\<exists>hosts removed P'. rewrite_persisted_tasks (\<lambda>t. ta_key t = ''b'') chain_puppet = Some (hosts, removed, P') \<and>
    map ta_key removed = [''b''] \<and> map ta_key (get_node_tasks_for_hostname P' ''n'') = [''a'', ''c'']"
proof -
  let ?P = chain_puppet
  have "rewrite_persisted_tasks (\<lambda>t. ta_key t = ''b'') ?P \<noteq> None" by code_simp
  then obtain hosts removed P' where r: "rewrite_persisted_tasks (\<lambda>t. ta_key t = ''b'') ?P = Some (hosts, removed, P')"
    by auto
  have "distinct (map fst (pu_node_tasks ?P))" "distinct (map ta_key (all_tasks ?P))" by code_simp+
  from rewriting_keeps_rest [OF r this] have "removed = filter (\<lambda>t. ta_key t = ''b'') (all_tasks ?P)"
    "map ta_key (get_node_tasks_for_hostname P' ''n'') =
      map ta_key (filter (\<lambda>t. \<not> ta_key t = ''b'') (get_node_tasks_for_hostname ?P ''n''))"
    by simp_all
  moreover have "map ta_key (filter (\<lambda>t. ta_key t = ''b'') (all_tasks ?P)) = [''b'']"
    "map ta_key (filter (\<lambda>t. \<not> ta_key t = ''b'') (get_node_tasks_for_hostname ?P ''n'')) = [''a'', ''c'']"
    by code_simp+
  ultimately show ?thesis using r by auto
qed

text \<open>A task that takes the place of a persisted one and fails.\<close>

definition newcomer :: task where
  "newcomer = (sample_task ''new'' ConfigTaskC [])\<lparr>ta_call_id := ''a''\<rparr>"

definition running_newcomer :: "task_state \<Rightarrow> exec" where
  "running_newcomer x =
     \<lparr>xs_plan = (ex_plan PlanC [None])\<lparr>pl_state := PRunning, pl_phases := [[(ex_task ''new'' None)\<lparr>pt_state := x\<rparr>]]\<rparr>,
      xs_tasks = [(''new'', newcomer)], xs_store = [], xs_current = Some 0\<rparr>"


end
