(* ===== verification/Puppet_Manifest.thy ===== *)
theory Puppet_Manifest
  imports Puppet_Tasks
begin

text \<open>
  \<open>litp/core/puppet_manager_templates.py\<close> and \<open>_write_templates\<close> of \<open>litp/core/puppet_manager.py\<close>: the
  text of the Puppet manifest of a node, one class per task and the order between them. A
  requirement that another requirement states already is left out of the text.
\<close>

section \<open>Parameters\<close>

definition newline :: string where
  "newline = [CHR 0x0A]"

definition dquote :: string where
  "dquote = [CHR 0x22]"

definition squote :: string where
  "squote = [CHR 0x27]"

definition name_head :: string where
  "name_head = ''abcdefghijklmnopqrstuvwxyz0123456789''"

definition name_tail :: string where
  "name_tail = name_head @ ''ABCDEFGHIJKLMNOPQRSTUVWXYZ_''"

text \<open>\<open>^[a-z0-9][A-Za-z0-9_]*$\<close>: the dollar also matches before a newline at the end.\<close>

definition plain_param_name :: "string \<Rightarrow> bool" where
  "plain_param_name n =
     (let m = (if n \<noteq> [] \<and> [last n] = newline then butlast n else n)
      in case m of [] \<Rightarrow> False | c # cs \<Rightarrow> c \<in> set name_head \<and> list_all (\<lambda>d. d \<in> set name_tail) cs)"

definition format_param_name :: "string \<Rightarrow> string" where
  "format_param_name n = (if plain_param_name n then n else squote @ n @ squote)"

text \<open>\<open>str(value)\<close>; \<open>show\<close> prints the values Python prints by itself (tuples, sets, objects).\<close>

fun str_of_value :: "(pyval \<Rightarrow> string) \<Rightarrow> pyval \<Rightarrow> string" where
  "str_of_value show (PStr s) = s"
| "str_of_value show PNone = ''None''"
| "str_of_value show (PBool b) = (if b then ''True'' else ''False'')"
| "str_of_value show (PInt n) = str_of_int n"
| "str_of_value show (PFloat s) = s"
| "str_of_value show v = show v"

definition escape_quotes :: "string \<Rightarrow> string" where
  "escape_quotes s = concat (map (\<lambda>c. if [c] = dquote then [CHR 0x5C, c] else [c]) s)"

definition format_param_value :: "(pyval \<Rightarrow> string) \<Rightarrow> pyval \<Rightarrow> string" where
  "format_param_value show v = dquote @ escape_quotes (str_of_value show v) @ dquote"

definition dict_get :: "(string \<times> pyval) list \<Rightarrow> string \<Rightarrow> pyval res" where
  "dict_get d k = (case map_of d k of None \<Rightarrow> Inl (KeyError k) | Some v \<Rightarrow> Inr v)"

fun format_require_item :: "(pyval \<Rightarrow> string) \<Rightarrow> pyval \<Rightarrow> string res" where
  "format_require_item show (PDict d) =
     rbind (dict_get d ''type'') (\<lambda>ty. rbind (dict_get d ''value'') (\<lambda>v.
       Inr (str_of_value show ty @ ''['' @ dquote @ str_of_value show v @ dquote @ '']'')))"
| "format_require_item show v = Inl (TypeError ''indices must be integers'')"

fun items_of_value :: "pyval \<Rightarrow> pyval list res" where
  "items_of_value (PList vs) = Inr vs"
| "items_of_value (PTuple vs) = Inr vs"
| "items_of_value (PSet vs) = Inr vs"
| "items_of_value (PDict d) = Inr (map (\<lambda>(k, v). PStr k) d)"
| "items_of_value (PStr s) = Inr (map (\<lambda>c. PStr [c]) s)"
| "items_of_value v = Inl (TypeError ''not iterable'')"

definition format_require_param :: "(pyval \<Rightarrow> string) \<Rightarrow> string \<Rightarrow> pyval \<Rightarrow> string res" where
  "format_require_param show n v =
     rbind (items_of_value v) (\<lambda>vs. rbind (map_res (format_require_item show) vs) (\<lambda>ts.
       Inr (''        '' @ n @ '' => ['' @ join_with '','' ts @ '']'')))"

definition named :: "string \<Rightarrow> string" where
  "named n = (if n = [] then [] else format_param_name n @ '' => '')"

fun format_param :: "(pyval \<Rightarrow> string) \<Rightarrow> string \<Rightarrow> pyval \<Rightarrow> string res" where
  "format_param show n v =
     (if n \<in> {''require'', ''subscribe''} then format_require_param show n v
      else case v of
        PList vs \<Rightarrow> rbind (map_res (format_param show []) vs) (\<lambda>ts.
          Inr (named n @ ''['' @ newline @ join_with ('','' @ newline) ts @ newline @ ''        ]'' @ newline))
      | PDict d \<Rightarrow> rbind (map_res (\<lambda>(k, u). format_param show k u) d) (\<lambda>ts.
          Inr (named n @ ''{'' @ newline @ join_with ('','' @ newline) ts @ newline @ ''        }''))
      | _ \<Rightarrow> Inr (''        '' @ named n @ format_param_value show v))"

declare format_param.simps [simp del]

definition format_task_params :: "(pyval \<Rightarrow> string) \<Rightarrow> task \<Rightarrow> string res" where
  "format_task_params show t =
     rbind (map_res (\<lambda>(k, v). format_param show k v) (sort_key fst (ta_kwargs t))) (\<lambda>ts.
       Inr (join_with ('','' @ newline) ts))"

section \<open>Classes\<close>

definition lines_of :: "string list \<Rightarrow> string" where
  "lines_of ls = concat (map (\<lambda>l. l @ newline) ls)"

definition format_classdec :: "(pyval \<Rightarrow> string) \<Rightarrow> task \<Rightarrow> string res" where
  "format_classdec show t =
     rbind (format_task_params show t) (\<lambda>params.
       Inr (lines_of ([''class task_'' @ ta_unique_id t @ ''(){'',
                       ''    '' @ ta_call_type t @ '' { '' @ dquote @ ta_call_id t @ dquote @ '':''] @
              (if ta_key t \<noteq> [] then [''        tag => ['' @ dquote @ ''tuuid_'' @ ta_key t @ dquote @ '',],''] else []) @
              [params, ''    }'', ''}'', []])))"

definition format_classdecs :: "(pyval \<Rightarrow> string) \<Rightarrow> task list \<Rightarrow> string res" where
  "format_classdecs show ts = rbind (map_res (format_classdec show) ts) (\<lambda>cs. Inr (concat cs))"

section \<open>The order between the classes\<close>

text \<open>\<open>node_tasks\<close> are the persisted tasks of the node, from which the redundant requirements were
  computed.\<close>

definition stated_requires :: "task list \<Rightarrow> string list \<Rightarrow> task \<Rightarrow> string list" where
  "stated_requires node_tasks ids t =
     sort (filter (\<lambda>r. r \<in> set ids \<and> r \<notin> set (redundant_requires node_tasks t)) (ta_dep_ids t))"

definition format_notify :: "task list \<Rightarrow> string list \<Rightarrow> task \<Rightarrow> string" where
  "format_notify node_tasks ids t =
     lines_of [[],
       ''    class {'' @ squote @ ''task_'' @ ta_unique_id t @ squote @ '':'' @
         (if ta_dep_ids t = [] then []
          else newline @ ''        require => ['' @
            join_with '','' (map (\<lambda>r. ''Class['' @ dquote @ ''task_'' @ r @ dquote @ '']'')
              (stated_requires node_tasks ids t)) @ '']''),
       ''    }'', []]"

definition format_notifies :: "task list \<Rightarrow> task list \<Rightarrow> string" where
  "format_notifies node_tasks ts = concat (map (format_notify node_tasks (map ta_unique_id ts)) ts)"

definition create_node_pp ::
  "(pyval \<Rightarrow> string) \<Rightarrow> bool \<Rightarrow> string \<Rightarrow> task list \<Rightarrow> task list \<Rightarrow> string \<Rightarrow> string \<Rightarrow> string res" where
  "create_node_pp show is_ms_node hostname node_tasks ts ms_hostname cluster_type =
     rbind (format_classdecs show ts) (\<lambda>classdecs.
       let notifies = format_notifies node_tasks ts;
           node = ''node '' @ dquote @ hostname @ dquote @ '' {''
       in Inr (if is_ms_node
         then lines_of [[], classdecs, node, [], ''    class {'' @ squote @ ''litp::ms_node'' @ squote @ '':}'', [],
                notifies, ''}'']
         else lines_of [[], classdecs, node, [], ''    class {'' @ squote @ ''litp::mn_node'' @ squote @ '':'',
                ''        ms_hostname => '' @ dquote @ ms_hostname @ dquote @ '','',
                ''        cluster_type => '' @ dquote @ cluster_type @ dquote, ''        }'', [],
                notifies, ''}'']))"

text \<open>The tasks of a manifest: the last one of each unique id, by id.\<close>

definition manifest_tasks :: "task list \<Rightarrow> task list" where
  "manifest_tasks ts =
     sort_key ta_unique_id (map snd (fold (\<lambda>t d. AList.update (ta_unique_id t) t d) ts []))"

definition cluster_type_of :: "item_type dict \<Rightarrow> store \<Rightarrow> model_item \<Rightarrow> string res" where
  "cluster_type_of types st n =
     rbind (get_cluster types st n) (\<lambda>c. Inr (case c of
       None \<Rightarrow> ''NON-CMW'' | Some i \<Rightarrow> if mi_item_type_id i = ''cmw-cluster'' then ''CMW'' else ''NON-CMW''))"

text \<open>The manifests written for the given hostnames, as a dictionary of file names. A node that is
  still initial gets an empty manifest when it has none; \<open>there\<close> tells which files exist.\<close>

definition get_specific_nodes :: "item_type dict \<Rightarrow> store \<Rightarrow> string list \<Rightarrow> (string \<times> model_item) list res" where
  "get_specific_nodes types st hostnames =
     rbind (map_res (\<lambda>n. rbind (node_ref_of types st n) (\<lambda>r. Inr (nd_hostname r, n)))
              (filter (\<lambda>n. mi_state n \<noteq> Removed) (get_all_nodes types st))) (\<lambda>ns.
       Inr (filter (\<lambda>(h, n). h \<in> set hostnames \<or> mi_state n = Initial) ns))"

definition write_templates ::
  "(pyval \<Rightarrow> string) \<Rightarrow> (string \<Rightarrow> bool) \<Rightarrow> item_type dict \<Rightarrow> store \<Rightarrow> string \<Rightarrow> string list \<Rightarrow> puppet \<Rightarrow>
     string dict res" where
  "write_templates show there types st ms_hostname hostnames P =
     rbind (get_specific_nodes types st hostnames) (\<lambda>ns.
       for_res (\<lambda>(h, n) files.
         rbind (cluster_type_of types st n) (\<lambda>ct.
           let file = lower h @ ''.pp'';
               ts = (if h \<in> set hostnames then get_node_tasks_for_hostname P h else [])
           in if h \<notin> set hostnames \<and> there file then Inr files
              else rbind (create_node_pp show (mi_item_type_id n = ''ms'') h ts (manifest_tasks ts) ms_hostname ct)
                     (\<lambda>text. Inr (AList.update file text files)))) ns [])"

text \<open>Quotes are escaped and backslashes are not: the text of a value that ends in a backslash is the
  text of the value with a quote in its place, less the closing quote, so it is not closed.\<close>

lemma trailing_backslash_open:
  "format_param_value show (PStr (s @ dquote)) = format_param_value show (PStr (s @ [CHR 0x5C])) @ dquote"
  by (simp add: format_param_value_def escape_quotes_def dquote_def)

section \<open>Leaving requirements out keeps the order\<close>

lemma reduction_keeps_order:
  assumes "finite E" and "acyclic E"
  shows "{(a, c) \<in> E. \<not> (\<exists>b. (a, b) \<in> E \<and> (b, c) \<in> E)}\<^sup>+ = E\<^sup>+"
proof
  let ?K = "{(a, c) \<in> E. \<not> (\<exists>b. (a, b) \<in> E \<and> (b, c) \<in> E)}"
  let ?between = "\<lambda>a c. {x. (a, x) \<in> E\<^sup>+ \<and> (x, c) \<in> E\<^sup>+}"
  have fin: "finite (?between a c)" for a c
  proof (rule finite_subset)
    show "?between a c \<subseteq> Range E" using trancl_range [of E] by blast
  qed (simp add: assms(1) finite_Range)
  have edge: "(a, c) \<in> ?K\<^sup>+" if "(a, c) \<in> E" for a c
    using that
  proof (induction "card (?between a c)" arbitrary: a c rule: less_induct)
    case less
    show ?case
    proof (cases "\<exists>b. (a, b) \<in> E \<and> (b, c) \<in> E")
      case False
      with less.prems show ?thesis by auto
    next
      case True
      then obtain b where ab: "(a, b) \<in> E" and bc: "(b, c) \<in> E" by blast
      have irr: "(x, x) \<notin> E\<^sup>+" for x using assms(2) by (simp add: acyclic_def)
      have "?between a b \<subset> ?between a c"
      proof
        show "?between a b \<subseteq> ?between a c" using bc by (auto intro: trancl_into_trancl)
        have "b \<in> ?between a c" using ab bc by auto
        moreover have "b \<notin> ?between a b" using irr by simp
        ultimately show "?between a b \<noteq> ?between a c" by blast
      qed
      then have l: "(a, b) \<in> ?K\<^sup>+" using less.hyps ab psubset_card_mono [OF fin] by blast
      have "?between b c \<subset> ?between a c"
      proof
        show "?between b c \<subseteq> ?between a c" using ab by (auto intro: trancl_into_trancl2)
        have "b \<in> ?between a c" using ab bc by auto
        moreover have "b \<notin> ?between b c" using irr by simp
        ultimately show "?between b c \<noteq> ?between a c" by blast
      qed
      then have "(b, c) \<in> ?K\<^sup>+" using less.hyps bc psubset_card_mono [OF fin] by blast
      with l show ?thesis by (rule trancl_trans)
    qed
  qed
  have "(a, c) \<in> ?K\<^sup>+" if "(a, c) \<in> E\<^sup>+" for a c
    using that by (induction rule: trancl_induct) (blast intro: edge trancl_trans)+
  then show "E\<^sup>+ \<subseteq> ?K\<^sup>+" by auto
  show "?K\<^sup>+ \<subseteq> E\<^sup>+" by (rule subsetI, erule trancl_mono) auto
qed

lemma update_by_id:
  "distinct (map f (ts @ us)) \<Longrightarrow> map_of d = map_of (map (\<lambda>t. (f t, t)) ts) \<Longrightarrow>
    map_of (fold (\<lambda>t d. AList.update (f t) t d) us d) = map_of (map (\<lambda>t. (f t, t)) (ts @ us))"
proof (induction us arbitrary: ts d)
  case (Cons u us)
  have "map_of (AList.update (f u) u d) = map_of (map (\<lambda>t. (f t, t)) (ts @ [u]))"
  proof
    fix k
    have "f u \<notin> f ` set ts" using Cons.prems(1) by auto
    then have "map_of (map (\<lambda>t. (f t, t)) ts) (f u) = None" by (auto simp: map_of_eq_None_iff)
    then show "map_of (AList.update (f u) u d) k = map_of (map (\<lambda>t. (f t, t)) (ts @ [u])) k"
      using Cons.prems(2) by (auto simp: map_add_def split: option.splits)
  qed
  then show ?case using Cons.IH [of "ts @ [u]"] Cons.prems(1) by simp
qed simp

lemma by_id: "distinct (map f ts) \<Longrightarrow>
    map_of (fold (\<lambda>t d. AList.update (f t) t d) ts []) k = map_of (map (\<lambda>t. (f t, t)) ts) k"
  using update_by_id [of f "[]" ts "[]"] by simp

text \<open>What the tasks of a manifest require of each other, and what the manifest says.\<close>

definition requires_of :: "task list \<Rightarrow> (string \<times> string) set" where
  "requires_of ts = {(ta_unique_id t, r) | t r. t \<in> set ts \<and> r \<in> set (ta_dep_ids t) \<and> r \<in> ta_unique_id ` set ts}"

definition manifest_requires :: "task list \<Rightarrow> (string \<times> string) set" where
  "manifest_requires ts =
     {(ta_unique_id t, r) | t r. t \<in> set ts \<and> r \<in> set (stated_requires ts (map ta_unique_id ts) t)}"

lemma redundant_iff:
  assumes "distinct (map ta_unique_id ts)" and "t \<in> set ts" and "r \<in> set (ta_dep_ids t)"
  shows "r \<in> set (redundant_requires ts t) \<longleftrightarrow>
    (\<exists>u \<in> set ts. ta_unique_id u \<in> set (ta_dep_ids t) \<and> r \<in> set (ta_dep_ids u))"
proof -
  let ?L = "map_of (fold (\<lambda>u d. AList.update (ta_unique_id u) u d) ts [])"
  have "distinct (map fst (map (\<lambda>t. (ta_unique_id t, t)) ts))" using assms(1) by (simp add: comp_def)
  then have m: "?L k = Some u \<longleftrightarrow> u \<in> set ts \<and> ta_unique_id u = k" for k u
    unfolding by_id [OF assms(1)] by auto
  have "r \<in> set (case ?L x of None \<Rightarrow> [] | Some u \<Rightarrow> filter (\<lambda>rr. rr \<in> set (ta_dep_ids t)) (ta_dep_ids u)) \<longleftrightarrow>
      (\<exists>u. ?L x = Some u \<and> r \<in> set (ta_dep_ids u))" for x
    using assms(3) by (cases "?L x") auto
  then have "r \<in> set (redundant_requires ts t) \<longleftrightarrow>
      (\<exists>x \<in> set (ta_dep_ids t). \<exists>u. ?L x = Some u \<and> r \<in> set (ta_dep_ids u))"
    unfolding redundant_requires_def Let_def by simp
  then show ?thesis unfolding m by blast
qed

text \<open>C27: leaving redundant requirements out of a manifest does not change the order in which Puppet
  may apply its classes, when the requirements do not run in a circle.\<close>

theorem manifest_order_kept:
  assumes "distinct (map ta_unique_id ts)" and "acyclic (requires_of ts)"
  shows "(manifest_requires ts)\<^sup>+ = (requires_of ts)\<^sup>+"
proof -
  have inj: "t = u" if "t \<in> set ts" "u \<in> set ts" "ta_unique_id t = ta_unique_id u" for t u
    using assms(1) that by (auto simp: distinct_map dest: inj_onD)
  have "requires_of ts = (\<Union>t \<in> set ts. Pair (ta_unique_id t) ` (set (ta_dep_ids t) \<inter> ta_unique_id ` set ts))"
    by (auto simp: requires_of_def)
  then have fin: "finite (requires_of ts)" by simp
  have "manifest_requires ts =
    {(a, c) \<in> requires_of ts. \<not> (\<exists>b. (a, b) \<in> requires_of ts \<and> (b, c) \<in> requires_of ts)}"
  proof (intro set_eqI iffI)
    fix x assume "x \<in> manifest_requires ts"
    then obtain t r where x: "x = (ta_unique_id t, r)" and t: "t \<in> set ts" and r: "r \<in> set (ta_dep_ids t)"
      "r \<in> ta_unique_id ` set ts" "r \<notin> set (redundant_requires ts t)"
      by (auto simp: manifest_requires_def stated_requires_def)
    have "\<not> ((ta_unique_id t, b) \<in> requires_of ts \<and> (b, r) \<in> requires_of ts)" for b
    proof
      assume b: "(ta_unique_id t, b) \<in> requires_of ts \<and> (b, r) \<in> requires_of ts"
      then obtain t' where "t' \<in> set ts" "ta_unique_id t' = ta_unique_id t" "b \<in> set (ta_dep_ids t')"
        by (auto simp: requires_of_def)
      moreover obtain u where u: "u \<in> set ts" "b = ta_unique_id u" "r \<in> set (ta_dep_ids u)"
        using b unfolding requires_of_def by blast
      ultimately have "b \<in> set (ta_dep_ids t)" using inj t by blast
      with u redundant_iff [OF assms(1) t r(1)] r(3) show False by blast
    qed
    with x t r show "x \<in> {(a, c) \<in> requires_of ts. \<not> (\<exists>b. (a, b) \<in> requires_of ts \<and> (b, c) \<in> requires_of ts)}"
      by (auto simp: requires_of_def)
  next
    fix x assume "x \<in> {(a, c) \<in> requires_of ts. \<not> (\<exists>b. (a, b) \<in> requires_of ts \<and> (b, c) \<in> requires_of ts)}"
    then obtain a r where "x = (a, r)" and "(a, r) \<in> requires_of ts"
      and "\<not> (\<exists>b. (a, b) \<in> requires_of ts \<and> (b, r) \<in> requires_of ts)"
      by blast
    then obtain t where x: "x = (ta_unique_id t, r)" and t: "t \<in> set ts" and r: "r \<in> set (ta_dep_ids t)"
      "r \<in> ta_unique_id ` set ts"
      and n: "\<not> (\<exists>b. (ta_unique_id t, b) \<in> requires_of ts \<and> (b, r) \<in> requires_of ts)"
      unfolding requires_of_def by blast
    have "r \<notin> set (redundant_requires ts t)"
    proof
      assume "r \<in> set (redundant_requires ts t)"
      then obtain u where u: "u \<in> set ts" "ta_unique_id u \<in> set (ta_dep_ids t)" "r \<in> set (ta_dep_ids u)"
        using redundant_iff [OF assms(1) t r(1)] by blast
      then have "(ta_unique_id t, ta_unique_id u) \<in> requires_of ts \<and> (ta_unique_id u, r) \<in> requires_of ts"
        using t r(2) by (auto simp: requires_of_def)
      with n show False by blast
    qed
    with x t r show "x \<in> manifest_requires ts"
      by (auto simp: manifest_requires_def stated_requires_def)
  qed
  then show ?thesis using reduction_keeps_order [OF fin assms(2)] by simp
qed

text \<open>Three tasks; the requirement of the last on the first follows from the others.\<close>

definition manifest_example :: "task list" where
  "manifest_example = [chain_task ''a'' [], chain_task ''b'' [''a''], chain_task ''c'' [''a'', ''b'']]"

theorem manifest_order_kept_witness:
  "(manifest_requires manifest_example)\<^sup>+ = (requires_of manifest_example)\<^sup>+ \<and>
    stated_requires manifest_example [''a'', ''b'', ''c''] (chain_task ''c'' [''a'', ''b'']) = [''b'']"
proof
  have "acyclic (requires_of manifest_example)"
    by (rule acyclicI_order [where f = "\<lambda>x. if x = ''a'' then 0 else if x = ''b'' then 1 else 2 :: nat"])
      (auto simp: requires_of_def manifest_example_def chain_task_def sample_task_def)
  moreover have "distinct (map ta_unique_id manifest_example)" by code_simp
  ultimately show "(manifest_requires manifest_example)\<^sup>+ = (requires_of manifest_example)\<^sup>+"
    by (intro manifest_order_kept)
qed code_simp

end
