(* ===== verification/Puppet_Phase.thy ===== *)
theory Puppet_Phase
  imports Puppet_Tasks
begin

text \<open>
  How a Puppet phase is watched: \<open>litp/core/puppetdb_api.py\<close> turns the answers of PuppetDB into the
  text of a report, and \<open>litp/core/puppet_manager.py\<close> reads it, changes the states of the reported
  tasks, and waits until the phase is over. What PuppetDB answers is a parameter, as is whether
  Puppet still runs; the waiting loop takes such answers one round after the other.
\<close>

section \<open>Reports from PuppetDB\<close>

text \<open>A resource is known by its tags. The configuration version of a report is \<open>None\<close> when the text
  is not a number.\<close>

type_synonym resource = "string list"

record event =
  ev_title :: string
  ev_type :: string
  ev_certname :: string
  ev_status :: string

record db_report =
  rp_version :: "int option"
  rp_hash :: string

record puppetdb =
  db_reports :: "string \<Rightarrow> db_report list"
  db_events :: "string \<Rightarrow> event list"
  db_resources :: "string \<times> string \<times> string \<Rightarrow> resource list"
  db_node_resources :: "string \<Rightarrow> resource list"

definition check_config_version :: "int option \<Rightarrow> int \<Rightarrow> bool" where
  "check_config_version report_version written_version =
     (case report_version of None \<Rightarrow> False | Some v \<Rightarrow> v \<ge> written_version)"

definition get_reports :: "puppetdb \<Rightarrow> string \<Rightarrow> int \<Rightarrow> db_report list" where
  "get_reports db certname version =
     filter (\<lambda>r. check_config_version (rp_version r) version) (db_reports db certname)"

definition get_report_events :: "puppetdb \<Rightarrow> db_report list \<Rightarrow> event list" where
  "get_report_events db reports = concat (map (\<lambda>r. db_events db (rp_hash r)) reports)"

definition task_prefix :: string where
  "task_prefix = ''task_''"

definition tuuid_prefix :: string where
  "tuuid_prefix = ''tuuid_''"

fun task_uids_loop :: "string option \<times> string option \<Rightarrow> string list \<Rightarrow> string option \<times> string option" where
  "task_uids_loop (uid, uuid) [] = (uid, uuid)"
| "task_uids_loop (uid, uuid) (tag # tags) =
     (let found = (if prefix task_prefix tag then (Some tag, uuid)
                   else if prefix tuuid_prefix tag then (uid, Some tag) else (uid, uuid))
      in if fst found \<noteq> None \<and> snd found \<noteq> None then found else task_uids_loop found tags)"

definition get_task_uids :: "resource \<Rightarrow> string option \<times> string option" where
  "get_task_uids r = task_uids_loop (None, None) r"

type_synonym uids = "string \<times> string"

definition both_uids :: "resource \<Rightarrow> uids option" where
  "both_uids r = (case get_task_uids r of (Some u, Some w) \<Rightarrow> Some (u, w) | _ \<Rightarrow> None)"

type_synonym known_tasks = "(uids \<times> (resource \<times> string) list) list"

definition append_known :: "uids \<Rightarrow> resource \<times> string \<Rightarrow> known_tasks \<Rightarrow> known_tasks" where
  "append_known k x d = AList.update k ((case map_of d k of None \<Rightarrow> [] | Some xs \<Rightarrow> xs) @ [x]) d"

text \<open>The resource of an event is asked for once; the answers do not change in between.\<close>

definition event_step :: "puppetdb \<Rightarrow> event \<Rightarrow> known_tasks \<times> bool \<Rightarrow> known_tasks \<times> bool" where
  "event_step db e = (\<lambda>(known, failed).
     case db_resources db (ev_title e, ev_type e, ev_certname e) of
       [] \<Rightarrow> (known, failed \<or> ev_status e = ''failure'')
     | r # rs \<Rightarrow>
         (case both_uids r of
            None \<Rightarrow> (known, failed)
          | Some k \<Rightarrow> (append_known k (r, if ev_status e = ''success'' then ''success'' else ''fail'') known, failed)))"

definition get_reports_resources :: "puppetdb \<Rightarrow> event list \<Rightarrow> known_tasks \<times> bool" where
  "get_reports_resources db events = fold (event_step db) events ([], False)"

text \<open>\<open>"litp_feedback:%s:%s=%s,"\<close>; a missing tag prints as \<open>None\<close>.\<close>

definition or_none :: "string option \<Rightarrow> string" where
  "or_none x = (case x of None \<Rightarrow> ''None'' | Some s \<Rightarrow> s)"

definition build_task_report :: "resource \<Rightarrow> string \<Rightarrow> string" where
  "build_task_report r state =
     (let (uid, uuid) = get_task_uids r
      in ''litp_feedback:'' @ or_none uid @ '':'' @ or_none uuid @ ''='' @ state @ '','')"

definition db_build_report :: "known_tasks \<Rightarrow> string" where
  "db_build_report known =
     concat (map (\<lambda>(k, rs). build_task_report (fst (hd rs))
       (if list_all (\<lambda>(r, x). x = ''success'') rs then ''success'' else ''fail'')) known)"

definition get_eventless_tasks :: "known_tasks \<Rightarrow> task list \<Rightarrow> task list" where
  "get_eventless_tasks known phase =
     filter (\<lambda>t. map_of known (task_prefix @ ta_unique_id t, tuuid_prefix @ ta_key t) = None) phase"

definition build_no_event_report :: "resource list \<Rightarrow> known_tasks \<Rightarrow> string" where
  "build_no_event_report resources known =
     concat (map (\<lambda>r. case both_uids r of
         None \<Rightarrow> []
       | Some k \<Rightarrow> if map_of known k \<noteq> None then [] else build_task_report r ''success'') resources)"

record feedback =
  fb_hostname :: string
  fb_resource_reports :: string
  fb_failed_taskless_event :: bool

definition check_for_feedback :: "puppetdb \<Rightarrow> string \<Rightarrow> int \<Rightarrow> task list \<Rightarrow> feedback option" where
  "check_for_feedback db hostname version phase =
     (let certname = lower hostname; reports = get_reports db certname version
      in if reports = [] then None
         else let (known, failed) = get_reports_resources db (get_report_events db reports);
                  rest = (if get_eventless_tasks known phase \<noteq> []
                          then build_no_event_report (db_node_resources db certname) known else [])
              in Some \<lparr>fb_hostname = certname, fb_resource_reports = db_build_report known @ rest,
                       fb_failed_taskless_event = failed\<rparr>)"

section \<open>Reading a report\<close>

type_synonym report_entries = "((string \<times> string option) \<times> string) list"

text \<open>The parts of one entry, where Python unpacks a list of the wrong length with a \<open>ValueError\<close>.\<close>

definition parse_entry :: "string \<Rightarrow> ((string \<times> string option) \<times> string) res" where
  "parse_entry entry =
     (case split_on CHR ''='' entry of
        [ids, outcome] \<Rightarrow>
          (case split_on CHR '':'' ids of
             [_, unique_id, uuid] \<Rightarrow>
               Inr ((drop (length task_prefix) unique_id, Some (drop (length tuuid_prefix) uuid)), outcome)
           | [_, unique_id] \<Rightarrow> Inr ((drop (length task_prefix) unique_id, None), outcome)
           | _ \<Rightarrow> Inl (ValueError ''unpack''))
      | _ \<Rightarrow> Inl (ValueError ''unpack''))"

definition build_report :: "string \<Rightarrow> report_entries res" where
  "build_report text =
     for_res (\<lambda>entry d. if CHR ''='' \<notin> set entry then Inr d
         else rbind (parse_entry entry) (\<lambda>(k, x). Inr (AList.update k x d)))
       (split_on CHR '','' text) []"

definition feedback_to_state :: "string \<Rightarrow> string" where
  "feedback_to_state x = (if x = ''success'' then ''Success'' else if x = ''fail'' then ''Failed'' else x)"

section \<open>Feedback\<close>

text \<open>The objects of the tasks the phase has.\<close>

definition phase_objects :: "exec \<Rightarrow> puppet \<Rightarrow> task list res" where
  "phase_objects s P = map_res (the_task_of s) (pu_phase_tasks P)"

definition reported_by :: "string \<times> string option \<Rightarrow> task \<Rightarrow> bool" where
  "reported_by k t \<longleftrightarrow> fst k = ta_unique_id t \<and> (snd k = None \<or> snd k = Some (ta_key t))"

definition process_report :: "task list \<Rightarrow> report_entries \<Rightarrow> puppet \<Rightarrow> (string list \<times> puppet) res" where
  "process_report ts report P =
     (let found = filter (\<lambda>t. list_ex (\<lambda>(k, x). reported_by k t) report) ts
      in rbind (map_res task_hostname found) (\<lambda>hosts.
           Inr (map ta_key found, P\<lparr>pu_processed_nodes := List.union (pu_processed_nodes P) hosts\<rparr>)))"

text \<open>An entry without the tag of one task of the phase names no task.\<close>

definition pair_of :: "exec \<Rightarrow> task list \<Rightarrow> (string \<times> string option) \<times> string \<Rightarrow> (string \<times> string) list" where
  "pair_of s reported = (\<lambda>((unique_id, uuid), outcome).
     case uuid of
       None \<Rightarrow> []
     | Some w \<Rightarrow>
         (case List.find (\<lambda>t. ta_unique_id t = unique_id \<and> ta_key t = w) reported of
            None \<Rightarrow> []
          | Some t \<Rightarrow>
              if w \<noteq> [] \<and> state_of_task (xs_plan s) (ta_key t) \<in> {Some TaskInitial, Some TaskRunning, Some TaskFailed}
              then [(ta_key t, feedback_to_state outcome)] else []))"

definition get_tasks_states_pairs :: "exec \<Rightarrow> task list \<Rightarrow> report_entries \<Rightarrow> (string \<times> string) list" where
  "get_tasks_states_pairs s reported report = concat (map (pair_of s reported) report)"

definition all_nodes_processed :: "puppet \<Rightarrow> bool" where
  "all_nodes_processed P \<longleftrightarrow> set (pu_processing_nodes P) \<subseteq> set (pu_processed_nodes P)"

definition complete_phase_with :: "bool \<Rightarrow> puppet \<Rightarrow> puppet" where
  "complete_phase_with success P =
     P\<lparr>pu_phase_successful := success, pu_phase_tasks := [], pu_reported_phase_tasks := [],
       pu_phase_complete := True\<rparr>"

text \<open>The running tasks of the host the report does not name.\<close>

definition fail_missing :: "string \<Rightarrow> task list \<Rightarrow> exec \<Rightarrow> exec res" where
  "fail_missing hostname ts s =
     for_res (\<lambda>t s. rbind (task_hostname t) (\<lambda>h.
       if h = hostname \<and> state_of_task (xs_plan s) (ta_key t) = Some TaskRunning
       then Inr (put_state (ta_key t) TaskFailed s) else Inr s)) ts s"

definition short_name :: "string \<Rightarrow> string" where
  "short_name h = hd (split_on CHR ''.'' h)"

text \<open>The first component: \<open>FailedTasklessPuppetEvent\<close> was raised.\<close>

definition puppet_feedback :: "exec_env \<Rightarrow> feedback \<Rightarrow> puppet \<times> exec \<Rightarrow> (bool \<times> puppet \<times> exec) res" where
  "puppet_feedback E f = (\<lambda>(P, s).
     let hostname = short_name (fb_hostname f)
     in if pu_phase_complete P \<or> hostname \<notin> set (map lower (pu_hosts_in_phase P)) then Inr (False, P, s)
        else rbind (phase_objects s P) (\<lambda>ts.
             rbind (build_report (fb_resource_reports f)) (\<lambda>report.
             rbind (process_report ts report P) (\<lambda>(reported, P).
               if reported = [] then Inr (False, P, s)
               else rbind (on_puppet_feedback E (get_tasks_states_pairs s
                             (filter (\<lambda>t. ta_key t \<in> set reported) ts) report) s) (\<lambda>s.
                    let P = P\<lparr>pu_reported_phase_tasks := List.union (pu_reported_phase_tasks P) reported\<rparr>
                    in rbind (fail_missing hostname ts s) (\<lambda>s.
                       let states = map (\<lambda>k. state_of_task (xs_plan s) k) (pu_phase_tasks P)
                       in if fb_failed_taskless_event f then Inr (True, P, s)
                          else if set (pu_phase_tasks P) = set (pu_reported_phase_tasks P) \<and> all_nodes_processed P
                          then if list_all (\<lambda>x. x = Some TaskSuccess) states
                               then Inr (False, complete_phase_with True P, s)
                               else if list_all (\<lambda>x. x \<noteq> Some TaskRunning) states
                               then Inr (False, complete_phase_with False P, s)
                               else Inr (False, P, s)
                          else Inr (False, P, s)))))))"

text \<open>The hosts in turn; the exception ends the loop.\<close>

fun process_feedbacks ::
  "exec_env \<Rightarrow> puppetdb \<Rightarrow> int \<Rightarrow> task list \<Rightarrow> string list \<Rightarrow> puppet \<times> exec \<Rightarrow> (bool \<times> puppet \<times> exec) res" where
  "process_feedbacks E db version phase [] ps = Inr (False, ps)"
| "process_feedbacks E db version phase (h # hs) ps =
     (case check_for_feedback db h version phase of
        None \<Rightarrow> process_feedbacks E db version phase hs ps
      | Some f \<Rightarrow> rbind (puppet_feedback E f ps) (\<lambda>(taskless, ps).
          if taskless then Inr (True, ps) else process_feedbacks E db version phase hs ps))"

section \<open>Waiting for the end of a phase\<close>

text \<open>Times are counted in steps of half a second. \<open>wait\<close> holds the local variables of
  \<open>wait_for_phase\<close>.\<close>

record wait =
  wt_hosts :: "string list"
  wt_timeout :: int
  wt_next_poll :: int
  wt_poll_count :: int
  wt_retries :: nat

record wait_limits =
  wl_timeout :: int
  wl_poll_freq :: int
  wl_poll_count :: int

definition PUPPET_TASKLESS_FAILURE_RETRIES :: nat where
  "PUPPET_TASKLESS_FAILURE_RETRIES = 300"

text \<open>One round: what PuppetDB answers, whether Puppet is alive on a host, and whether the plan has
  been killed before the round.\<close>

record round =
  rd_db :: puppetdb
  rd_alive :: bool
  rd_killed :: bool

definition not_run :: "exec \<Rightarrow> task \<Rightarrow> bool" where
  "not_run s t \<longleftrightarrow> state_of_task (xs_plan s) (ta_key t) \<in> {Some TaskInitial, Some TaskRunning}"

definition taskless_failure :: "task list \<Rightarrow> wait \<times> puppet \<times> exec \<Rightarrow> wait \<times> puppet \<times> exec" where
  "taskless_failure phase = (\<lambda>(w, P, s).
     if wt_retries w = 0
     then let incomplete = filter (not_run s) phase
          in (w, if incomplete \<noteq> [] then complete_phase_with False P else P,
              fold (\<lambda>t. put_state (ta_key t) TaskFailed) incomplete s)
     else (w\<lparr>wt_retries := wt_retries w - 1\<rparr>, P, s))"

definition puppet_poll :: "wait_limits \<Rightarrow> bool \<Rightarrow> wait \<times> puppet \<times> exec \<Rightarrow> (wait \<times> puppet \<times> exec) res" where
  "puppet_poll L alive = (\<lambda>(w, P, s).
     if wl_poll_freq L = 0 then Inr (w, P, s)
     else if wt_next_poll w - 1 > 0 then Inr (w\<lparr>wt_next_poll := wt_next_poll w - 1\<rparr>, P, s)
     else let w = w\<lparr>wt_next_poll := wl_poll_freq L\<rparr>
          in if alive then Inr (w\<lparr>wt_poll_count := wl_poll_count L\<rparr>, P, s)
             else let w = w\<lparr>wt_poll_count := wt_poll_count w - 1\<rparr>
                  in if wt_poll_count w \<le> 0 \<and> \<not> pu_phase_complete P
                     then rbind (on_puppet_timeout (pu_phase_tasks P) s) (\<lambda>s.
                            Inr (w, complete_phase_with False P, s))
                     else Inr (w, P, s))"

definition finish_wait_for_phase :: "wait_limits \<Rightarrow> wait \<times> puppet \<times> exec \<Rightarrow> (puppet \<times> exec) res" where
  "finish_wait_for_phase L = (\<lambda>(w, P, s).
     if pu_phase_complete P then Inr (P, s)
     else rbind (if wl_timeout L \<noteq> 0 \<and> wt_timeout w \<le> 0 then on_puppet_timeout (pu_phase_tasks P) s else Inr s) (\<lambda>s.
       Inr (complete_phase_with False P, s)))"

definition keeps_waiting :: "wait_limits \<Rightarrow> wait \<times> puppet \<times> exec \<Rightarrow> bool" where
  "keeps_waiting L = (\<lambda>(w, P, s). \<not> pu_phase_complete P \<and> (wl_timeout L = 0 \<or> wt_timeout w > 0) \<and>
     \<not> pu_killed P \<and> wt_hosts w \<noteq> [])"

definition wait_round ::
  "exec_env \<Rightarrow> wait_limits \<Rightarrow> int \<Rightarrow> task list \<Rightarrow> round \<Rightarrow> wait \<times> puppet \<times> exec \<Rightarrow> (wait \<times> puppet \<times> exec) res" where
  "wait_round E L version phase r = (\<lambda>(w, P, s).
     rbind (process_feedbacks E (rd_db r) version phase (pu_processing_nodes P) (P, s)) (\<lambda>(taskless, P, s).
       let (w, P, s) = (if taskless then taskless_failure phase (w, P, s) else (w, P, s))
       in if pu_phase_complete P then Inr (w, P, s)
          else let w = w\<lparr>wt_hosts := filter (\<lambda>h. h \<notin> set (pu_processed_nodes P)) (wt_hosts w)\<rparr>
               in rbind (puppet_poll L (rd_alive r) (w, P, s)) (\<lambda>(w, P, s).
                    Inr (w\<lparr>wt_timeout := wt_timeout w - 1\<rparr>, P, s))))"

text \<open>\<open>None\<close>: the phase is still waited for when the rounds are used up.\<close>

fun wait_loop ::
  "exec_env \<Rightarrow> wait_limits \<Rightarrow> int \<Rightarrow> task list \<Rightarrow> round list \<Rightarrow> wait \<times> puppet \<times> exec \<Rightarrow> (wait \<times> puppet \<times> exec) option res" where
  "wait_loop E L version phase [] (w, P, s) = Inr (if keeps_waiting L (w, P, s) then None else Some (w, P, s))"
| "wait_loop E L version phase (r # rs) (w, P, s) =
     (let P = P\<lparr>pu_killed := pu_killed P \<or> rd_killed r\<rparr>
      in if \<not> keeps_waiting L (w, P, s) then Inr (Some (w, P, s))
         else rbind (wait_round E L version phase r (w, P, s)) (wait_loop E L version phase rs))"

definition wait_for_phase ::
  "exec_env \<Rightarrow> wait_limits \<Rightarrow> int \<Rightarrow> task list \<Rightarrow> round list \<Rightarrow> puppet \<times> exec \<Rightarrow> (bool \<times> puppet \<times> exec) option res" where
  "wait_for_phase E L version phase rounds = (\<lambda>(P, s).
     rbind (map_res task_hostname (filter (not_run s) phase)) (\<lambda>hosts.
     rbind (wait_loop E L version phase rounds
       (\<lparr>wt_hosts = remdups hosts, wt_timeout = wl_timeout L, wt_next_poll = wl_poll_freq L,
         wt_poll_count = wl_poll_count L, wt_retries = PUPPET_TASKLESS_FAILURE_RETRIES\<rparr>, P, s)) (\<lambda>out.
       case out of
         None \<Rightarrow> Inr None
       | Some (w, P, s) \<Rightarrow> rbind (finish_wait_for_phase L (w, P, s)) (\<lambda>(P, s).
           Inr (Some (pu_phase_successful P, P, s))))))"

text \<open>The hosts \<open>disable_puppet_on_hosts\<close> turns Puppet off on, for tasks in the given state.\<close>

definition get_phase_hostnames :: "exec \<Rightarrow> puppet \<Rightarrow> string \<Rightarrow> task_state \<Rightarrow> string list res" where
  "get_phase_hostnames s P ms_hostname x =
     rbind (phase_objects s P) (\<lambda>ts.
     rbind (map_res task_hostname (filter (\<lambda>t. state_of_task (xs_plan s) (ta_key t) = Some x) ts)) (\<lambda>hosts.
       let nodes = remdups (filter (\<lambda>h. h \<noteq> ms_hostname) hosts)
       in Inr (if nodes = [] then [ms_hostname]
               else if ms_hostname \<in> set hosts then nodes @ [ms_hostname] else nodes)))"

section \<open>A successful wait\<close>

text \<open>While the phase is not complete its tasks are \<open>K\<close>; a complete phase has forgotten them, and when
  it is complete with success they have all succeeded.\<close>

definition watched :: "string list \<Rightarrow> puppet \<times> exec \<Rightarrow> bool" where
  "watched K = (\<lambda>(P, s). pu_phase_tasks P = (if pu_phase_complete P then [] else K) \<and>
     (pu_phase_complete P \<and> pu_phase_successful P \<longrightarrow>
        (\<forall>k \<in> set K. state_of_task (xs_plan s) k = Some TaskSuccess)))"

lemma process_report_frame:
  "process_report ts report P = Inr (ks, Q) \<Longrightarrow>
    pu_phase_tasks Q = pu_phase_tasks P \<and> pu_phase_complete Q = pu_phase_complete P \<and>
    pu_phase_successful Q = pu_phase_successful P \<and> pu_killed Q = pu_killed P"
  by (auto simp: process_report_def rbind_Inr_iff Let_def)

lemma puppet_feedback_watched:
  assumes "puppet_feedback E f (P, s) = Inr (b, Q, u)" and "watched K (P, s)"
  shows "watched K (Q, u) \<and> (b \<longrightarrow> \<not> pu_phase_complete Q)"
proof (cases "pu_phase_complete P \<or> short_name (fb_hostname f) \<notin> set (map lower (pu_hosts_in_phase P))")
  case True
  with assms show ?thesis by (auto simp: puppet_feedback_def Let_def)
next
  case False
  then obtain ts report ks P1 where "process_report ts report P = Inr (ks, P1)"
    and rest: "ks = [] \<and> b = False \<and> Q = P1 \<and> u = s \<or>
      (\<exists>u1. let P2 = P1\<lparr>pu_reported_phase_tasks := List.union (pu_reported_phase_tasks P1) ks\<rparr>;
               states = map (\<lambda>k. state_of_task (xs_plan u1) k) (pu_phase_tasks P2)
         in u = u1 \<and> (b \<and> Q = P2 \<or> \<not> b \<and> (Q = P2 \<or> Q = complete_phase_with False P2 \<or>
              Q = complete_phase_with True P2 \<and> list_all (\<lambda>x. x = Some TaskSuccess) states)))"
    using assms(1) by (auto simp: puppet_feedback_def rbind_Inr_iff Let_def split: if_splits)
  note frame = process_report_frame [OF this(1)]
  have P: "\<not> pu_phase_complete P1" "pu_phase_tasks P1 = K"
    using False frame assms(2) by (auto simp: watched_def)
  from rest show ?thesis
  proof
    assume "\<exists>u1. let P2 = P1\<lparr>pu_reported_phase_tasks := List.union (pu_reported_phase_tasks P1) ks\<rparr>;
               states = map (\<lambda>k. state_of_task (xs_plan u1) k) (pu_phase_tasks P2)
         in u = u1 \<and> (b \<and> Q = P2 \<or> \<not> b \<and> (Q = P2 \<or> Q = complete_phase_with False P2 \<or>
              Q = complete_phase_with True P2 \<and> list_all (\<lambda>x. x = Some TaskSuccess) states))"
    then show ?thesis using P
      by (auto simp: watched_def complete_phase_with_def Let_def list_all_iff)
  qed (use P in \<open>auto simp: watched_def\<close>)
qed

lemma process_feedbacks_watched:
  assumes "process_feedbacks E db version phase hs ps = Inr (b, Q, u)" and "watched K ps"
  shows "watched K (Q, u) \<and> (b \<longrightarrow> \<not> pu_phase_complete Q)"
  using assms
proof (induction hs arbitrary: ps)
  case (Cons h hs)
  obtain P s where ps: "ps = (P, s)" by (cases ps)
  show ?case
  proof (cases "check_for_feedback db h version phase")
    case None
    with Cons.prems Cons.IH [of ps] show ?thesis by simp
  next
    case (Some f)
    then obtain c P1 s1 where one: "puppet_feedback E f (P, s) = Inr (c, P1, s1)"
      and rest: "(if c then Inr (True, P1, s1) else process_feedbacks E db version phase hs (P1, s1)) = Inr (b, Q, u)"
      using Cons.prems(1) ps by (auto simp: rbind_Inr_iff)
    note w = puppet_feedback_watched [OF one] 
    show ?thesis using w rest Cons.IH [of "(P1, s1)"] Cons.prems(2) ps by (auto split: if_splits)
  qed
qed auto

lemma wait_round_cases:
  assumes "wait_round E L version phase r (w, P, s) = Inr (w', Q, u)"
  obtains b P1 s1 w2 P2 s2 where
    "process_feedbacks E (rd_db r) version phase (pu_processing_nodes P) (P, s) = Inr (b, P1, s1)"
    and "(if b then taskless_failure phase (w, P1, s1) else (w, P1, s1)) = (w2, P2, s2)"
    and "pu_phase_complete P2 \<and> w' = w2 \<and> Q = P2 \<and> u = s2 \<or> \<not> pu_phase_complete P2 \<and>
      (\<exists>w3 w4. wt_timeout w3 = wt_timeout w2 \<and> puppet_poll L (rd_alive r) (w3, P2, s2) = Inr (w4, Q, u) \<and>
         w' = w4\<lparr>wt_timeout := wt_timeout w4 - 1\<rparr>)"
proof -
  obtain b P1 s1 where fb: "process_feedbacks E (rd_db r) version phase (pu_processing_nodes P) (P, s) = Inr (b, P1, s1)"
    using assms by (auto simp: wait_round_def rbind_Inr_iff)
  obtain w2 P2 s2 where two: "(if b then taskless_failure phase (w, P1, s1) else (w, P1, s1)) = (w2, P2, s2)"
    by (cases "if b then taskless_failure phase (w, P1, s1) else (w, P1, s1)") auto
  let ?w = "w2\<lparr>wt_hosts := filter (\<lambda>h. h \<notin> set (pu_processed_nodes P2)) (wt_hosts w2)\<rparr>"
  show thesis
  proof (cases "pu_phase_complete P2")
    case True
    then have "w' = w2 \<and> Q = P2 \<and> u = s2" using assms fb two by (simp add: wait_round_def Let_def)
    with that [OF fb two] True show ?thesis by blast
  next
    case False
    then obtain w4 where "puppet_poll L (rd_alive r) (?w, P2, s2) = Inr (w4, Q, u)"
      and "w' = w4\<lparr>wt_timeout := wt_timeout w4 - 1\<rparr>"
      using assms fb two by (auto simp: wait_round_def rbind_Inr_iff Let_def)
    moreover have "wt_timeout ?w = wt_timeout w2" by simp
    ultimately show ?thesis using that [OF fb two] False by blast
  qed
qed

lemma puppet_poll_timeout:
  "puppet_poll L alive (w, P, s) = Inr (w', Q, u) \<Longrightarrow> wt_timeout w' = wt_timeout w"
  by (auto simp: puppet_poll_def rbind_Inr_iff Let_def split: if_splits)

lemma puppet_poll_watched:
  "puppet_poll L alive (w, P, s) = Inr (w', Q, u) \<Longrightarrow> \<not> pu_phase_complete P \<Longrightarrow> watched K (P, s) \<Longrightarrow> watched K (Q, u)"
  by (auto simp: puppet_poll_def rbind_Inr_iff watched_def complete_phase_with_def Let_def split: if_splits)

lemma wait_round_watched:
  assumes "wait_round E L version phase r (w, P, s) = Inr (w', Q, u)" and "watched K (P, s)"
  shows "watched K (Q, u)"
proof -
  from assms(1) obtain b P1 s1 w2 P2 s2 where
    fb: "process_feedbacks E (rd_db r) version phase (pu_processing_nodes P) (P, s) = Inr (b, P1, s1)"
    and two: "(if b then taskless_failure phase (w, P1, s1) else (w, P1, s1)) = (w2, P2, s2)"
    and out: "pu_phase_complete P2 \<and> w' = w2 \<and> Q = P2 \<and> u = s2 \<or> \<not> pu_phase_complete P2 \<and>
      (\<exists>w3 w4. wt_timeout w3 = wt_timeout w2 \<and> puppet_poll L (rd_alive r) (w3, P2, s2) = Inr (w4, Q, u) \<and>
         w' = w4\<lparr>wt_timeout := wt_timeout w4 - 1\<rparr>)"
    by (rule wait_round_cases)
  have "watched K (P2, s2)"
    using two process_feedbacks_watched [OF fb assms(2)]
    by (auto simp: taskless_failure_def watched_def complete_phase_with_def Let_def split: if_splits)
  with out puppet_poll_watched show ?thesis by blast
qed

lemma wait_round_timeout:
  assumes "wait_round E L version phase r (w, P, s) = Inr (w', Q, u)"
  shows "pu_phase_complete Q \<or> wt_timeout w' = wt_timeout w - 1"
  using assms
proof (rule wait_round_cases)
  fix b P1 s1 w2 P2 s2
  assume two: "(if b then taskless_failure phase (w, P1, s1) else (w, P1, s1)) = (w2, P2, s2)"
    and out: "pu_phase_complete P2 \<and> w' = w2 \<and> Q = P2 \<and> u = s2 \<or> \<not> pu_phase_complete P2 \<and>
      (\<exists>w3 w4. wt_timeout w3 = wt_timeout w2 \<and> puppet_poll L (rd_alive r) (w3, P2, s2) = Inr (w4, Q, u) \<and>
         w' = w4\<lparr>wt_timeout := wt_timeout w4 - 1\<rparr>)"
  have "wt_timeout w2 = wt_timeout w"
    using two by (auto simp: taskless_failure_def Let_def split: if_splits)
  with out puppet_poll_timeout show ?thesis by fastforce
qed

lemma wait_loop_watched:
  assumes "wait_loop E L version phase rs (w, P, s) = Inr (Some (w', Q, u))" and "watched K (P, s)"
  shows "watched K (Q, u)"
  using assms
proof (induction rs arbitrary: w P s)
  case (Cons r rs)
  let ?P = "P\<lparr>pu_killed := pu_killed P \<or> rd_killed r\<rparr>"
  have K: "watched K (?P, s)" using Cons.prems(2) by (simp add: watched_def)
  show ?case
  proof (cases "keeps_waiting L (w, ?P, s)")
    case False
    with Cons.prems(1) K show ?thesis by (auto simp: Let_def)
  next
    case True
    with Cons.prems(1) obtain w1 P1 s1 where one: "wait_round E L version phase r (w, ?P, s) = Inr (w1, P1, s1)"
      and rest: "wait_loop E L version phase rs (w1, P1, s1) = Inr (Some (w', Q, u))"
      by (auto simp: Let_def rbind_Inr_iff)
    show ?thesis using Cons.IH [OF rest] wait_round_watched [OF one K] by blast
  qed
qed (auto split: if_splits)

text \<open>C22: when waiting for a Puppet phase answers with success, every task of the phase has succeeded.\<close>

theorem successful_wait:
  assumes "wait_for_phase E L version phase rounds (P, s) = Inr (Some (True, Q, u))"
    and "\<not> pu_phase_complete P" and "k \<in> set (pu_phase_tasks P)"
  shows "state_of_task (xs_plan u) k = Some TaskSuccess"
proof -
  obtain w1 w Q1 u1 where loop: "wait_loop E L version phase rounds (w1, P, s) = Inr (Some (w, Q1, u1))"
    and fin: "finish_wait_for_phase L (w, Q1, u1) = Inr (Q, u)" and succ: "pu_phase_successful Q"
    using assms(1) by (auto simp: wait_for_phase_def rbind_Inr_iff split: option.splits)
  have "watched (pu_phase_tasks P) (P, s)" using assms(2) by (simp add: watched_def)
  note w = wait_loop_watched [OF loop this]
  have "pu_phase_complete Q1"
    using fin succ by (auto simp: finish_wait_for_phase_def complete_phase_with_def rbind_Inr_iff split: if_splits)
  with fin w succ assms(3) show ?thesis by (auto simp: finish_wait_for_phase_def watched_def)
qed

lemma complete_not_waiting: "pu_phase_complete P \<Longrightarrow> \<not> keeps_waiting L (w, P, s)"
  by (simp add: keeps_waiting_def)

lemma wait_loop_ends:
  assumes "wl_timeout L \<noteq> 0" and "wt_timeout w \<le> int (length rs)"
  shows "wait_loop E L version phase rs (w, P, s) \<noteq> Inr None"
  using assms
proof (induction rs arbitrary: w P s)
  case Nil
  then show ?case by (simp add: keeps_waiting_def)
next
  case (Cons r rs)
  let ?P = "P\<lparr>pu_killed := pu_killed P \<or> rd_killed r\<rparr>"
  show ?case
  proof (cases "wait_round E L version phase r (w, ?P, s)")
    case (Inr x)
    obtain w1 P1 s1 where x: "x = (w1, P1, s1)" by (cases x)
    have "wait_loop E L version phase rs (w1, P1, s1) \<noteq> Inr None"
    proof (cases "pu_phase_complete P1")
      case True
      then show ?thesis by (cases rs) (simp_all add: keeps_waiting_def Let_def)
    next
      case False
      with wait_round_timeout [OF Inr [unfolded x]] Cons.prems(2) have "wt_timeout w1 \<le> int (length rs)" by simp
      then show ?thesis using Cons.IH Cons.prems(1) by blast
    qed
    then show ?thesis using Inr x by (simp add: Let_def)
  qed (simp add: Let_def)
qed


section \<open>Where reports and hosts go amiss\<close>

text \<open>PuppetDB names hosts in lower case, so on a host with capital letters no task the report leaves
  out is failed.\<close>

lemma capital_hosts_not_failed:
  assumes "\<And>t. t \<in> set ts \<Longrightarrow> task_hostname t = Inr (host t)" and "\<And>t. t \<in> set ts \<Longrightarrow> host t \<noteq> hostname"
  shows "fail_missing hostname ts s = Inr s"
  using assms unfolding fail_missing_def by (induction ts) auto

text \<open>An entry without the tag of a task counts the tasks of its unique id as reported and changes
  none of them.\<close>

lemma untagged_entry_reports:
  "reported_by (ta_unique_id t, None) t \<and> pair_of s ts ((ta_unique_id t, None), outcome) = []"
  by (simp add: reported_by_def pair_of_def)

text \<open>The end of a phase forgets its tasks, so turning Puppet off on the hosts of the tasks that
  succeeded concerns the management server only.\<close>

lemma finished_phase_hosts:
  assumes "wait_for_phase E L version phase rounds (P, s) = Inr (Some (b, Q, u))" and "\<not> pu_phase_complete P"
  shows "get_phase_hostnames u Q ms_hostname x = Inr [ms_hostname]"
proof -
  obtain w1 w Q1 u1 where loop: "wait_loop E L version phase rounds (w1, P, s) = Inr (Some (w, Q1, u1))"
    and fin: "finish_wait_for_phase L (w, Q1, u1) = Inr (Q, u)"
    using assms(1) by (auto simp: wait_for_phase_def rbind_Inr_iff split: option.splits)
  have "watched (pu_phase_tasks P) (P, s)" using assms(2) by (simp add: watched_def)
  then have "watched (pu_phase_tasks P) (Q1, u1)" by (rule wait_loop_watched [OF loop])
  then have "pu_phase_tasks Q = []"
    using fin by (auto simp: finish_wait_for_phase_def complete_phase_with_def watched_def rbind_Inr_iff split: if_splits)
  then show ?thesis by (simp add: get_phase_hostnames_def phase_objects_def)
qed

section \<open>Reports survive their text\<close>

definition clean_text :: "string \<Rightarrow> bool" where
  "clean_text x \<longleftrightarrow> set x \<inter> {CHR '','', CHR ''='', CHR '':''} = {}"

definition clean_uids :: "uids \<Rightarrow> bool" where
  "clean_uids k \<longleftrightarrow> clean_text (fst k) \<and> clean_text (snd k)"

text \<open>The tasks PuppetDB knows of: at least one resource each, the first with the tags of the task.\<close>

definition tagged :: "known_tasks \<Rightarrow> bool" where
  "tagged known \<longleftrightarrow> distinct (map fst known) \<and> (\<forall>(k, rs) \<in> set known. rs \<noteq> [] \<and> both_uids (fst (hd rs)) = Some k)"

lemma tagged_append:
  assumes "tagged known" and "both_uids r = Some k"
  shows "tagged (append_known k (r, x) known)"
proof -
  have "set (append_known k (r, x) known) \<subseteq>
      insert (k, (case map_of known k of None \<Rightarrow> [] | Some xs \<Rightarrow> xs) @ [(r, x)]) (set known)"
    unfolding append_known_def by (rule set_update_subset)
  moreover have "both_uids (fst (hd ((case map_of known k of None \<Rightarrow> [] | Some xs \<Rightarrow> xs) @ [(r, x)]))) = Some k"
    using assms map_of_SomeD [of known k] by (force simp: tagged_def split: option.splits)
  ultimately show ?thesis using assms(1) unfolding tagged_def append_known_def by (fastforce simp: distinct_update)
qed

lemma reports_resources_tagged: "tagged (fst (get_reports_resources db events))"
proof -
  have "tagged (fst (fold (event_step db) es (known, failed)))" if "tagged known" for es known failed
    using that
  proof (induction es arbitrary: known failed)
    case (Cons e es)
    obtain known' failed' where step: "event_step db e (known, failed) = (known', failed')" by fastforce
    have "tagged known'"
      using step Cons.prems tagged_append by (auto simp: event_step_def split: list.splits option.splits)
    with step Cons.IH show ?case by simp
  qed simp
  from this [of "[]" events False] show ?thesis by (simp add: get_reports_resources_def tagged_def)
qed

lemma split_on_append: "c \<notin> set x \<Longrightarrow> split_on c (x @ c # y) = x # split_on c y"
  by (induction x) (auto split: list.splits)

lemma split_on_none: "c \<notin> set x \<Longrightarrow> split_on c x = [x]"
  by (induction x) auto

definition outcome_of :: "(resource \<times> string) list \<Rightarrow> string" where
  "outcome_of rs = (if list_all (\<lambda>(r, x). x = ''success'') rs then ''success'' else ''fail'')"

definition entry_text :: "uids \<Rightarrow> string \<Rightarrow> string" where
  "entry_text k x = ''litp_feedback:'' @ fst k @ '':'' @ snd k @ ''='' @ x"

lemma split_entry:
  assumes "clean_text h" and "clean_text u" and "clean_text w" and "clean_text x"
  shows "split_on CHR ''='' (h @ CHR '':'' # u @ CHR '':'' # w @ CHR ''='' # x) = [h @ CHR '':'' # u @ CHR '':'' # w, x]"
    and "split_on CHR '':'' (h @ CHR '':'' # u @ CHR '':'' # w) = [h, u, w]"
proof -
  have "h @ CHR '':'' # u @ CHR '':'' # w @ CHR ''='' # x = (h @ CHR '':'' # u @ CHR '':'' # w) @ CHR ''='' # x"
    by simp
  moreover have "CHR ''='' \<notin> set (h @ CHR '':'' # u @ CHR '':'' # w)" and "CHR ''='' \<notin> set x"
    using assms by (auto simp: clean_text_def)
  ultimately show "split_on CHR ''='' (h @ CHR '':'' # u @ CHR '':'' # w @ CHR ''='' # x) =
      [h @ CHR '':'' # u @ CHR '':'' # w, x]"
    by (simp only: split_on_append split_on_none not_False_eq_True)
  have "CHR '':'' \<notin> set h" "CHR '':'' \<notin> set u" "CHR '':'' \<notin> set w" using assms by (auto simp: clean_text_def)
  then show "split_on CHR '':'' (h @ CHR '':'' # u @ CHR '':'' # w) = [h, u, w]"
    by (simp only: split_on_append split_on_none not_False_eq_True)
qed

lemma parse_entry_text:
  assumes "clean_uids k" and "clean_text x"
  shows "parse_entry (entry_text k x) = Inr ((drop 5 (fst k), Some (drop 6 (snd k))), x)"
proof -
  let ?h = "''litp_feedback''"
  have h: "clean_text ?h" by (simp add: clean_text_def)
  have k: "clean_text (fst k)" "clean_text (snd k)" using assms(1) by (simp_all add: clean_uids_def)
  have e: "entry_text k x = ?h @ CHR '':'' # fst k @ CHR '':'' # snd k @ CHR ''='' # x" by (simp add: entry_text_def)
  define ids where "ids = ?h @ CHR '':'' # fst k @ CHR '':'' # snd k"
  have "split_on CHR ''='' (entry_text k x) = [ids, x]"
    unfolding e ids_def by (rule split_entry(1) [OF h k assms(2)])
  moreover have "split_on CHR '':'' ids = [?h, fst k, snd k]" unfolding ids_def by (rule split_entry(2) [OF h k assms(2)])
  moreover have "length task_prefix = 5" "length tuuid_prefix = 6" by (simp_all add: task_prefix_def tuuid_prefix_def)
  ultimately show ?thesis by (simp add: parse_entry_def)
qed

lemma outcome_clean: "clean_text (outcome_of rs)"
  by (simp add: outcome_of_def clean_text_def)

lemma entry_no_comma: "clean_uids k \<Longrightarrow> clean_text x \<Longrightarrow> CHR '','' \<notin> set (entry_text k x)"
  by (auto simp: entry_text_def clean_uids_def clean_text_def)

lemma db_report_entries:
  assumes "tagged known"
  shows "db_build_report known = concat (map (\<lambda>(k, rs). entry_text k (outcome_of rs) @ '','') known)"
proof -
  have line: "build_task_report (fst (hd rs)) x = entry_text k x @ '',''" if "both_uids (fst (hd rs)) = Some k" for k rs x
  proof -
    from that obtain u w where "get_task_uids (fst (hd rs)) = (Some u, Some w)" and "k = (u, w)"
      by (auto simp: both_uids_def split: option.splits prod.splits)
    then show ?thesis by (simp add: build_task_report_def entry_text_def or_none_def)
  qed
  have "(case y of (k, rs) \<Rightarrow> build_task_report (fst (hd rs))
        (if list_all (\<lambda>(r, x). x = ''success'') rs then ''success'' else ''fail'')) =
      (case y of (k, rs) \<Rightarrow> entry_text k (outcome_of rs) @ '','')" if "y \<in> set known" for y
  proof -
    obtain k rs where y: "y = (k, rs)" by (cases y)
    have "both_uids (fst (hd rs)) = Some k" using assms that unfolding tagged_def y by auto
    then show ?thesis unfolding y split outcome_of_def by (rule line)
  qed
  then show ?thesis unfolding db_build_report_def by (intro arg_cong [where f = concat] map_cong refl)
qed

lemma split_entries:
  assumes "\<forall>(k, rs) \<in> set known. clean_uids k"
  shows "split_on CHR '','' (concat (map (\<lambda>(k, rs). entry_text k (outcome_of rs) @ '','') known)) =
    map (\<lambda>(k, rs). entry_text k (outcome_of rs)) known @ [[]]"
  using assms
proof (induction known)
  case (Cons x known)
  obtain k rs where x: "x = (k, rs)" by (cases x)
  then have "CHR '','' \<notin> set (entry_text k (outcome_of rs))"
    using Cons.prems entry_no_comma outcome_clean by auto
  then show ?case using Cons x by (simp add: split_on_append)
qed simp

definition report_key :: "uids \<Rightarrow> string \<times> string option" where
  "report_key k = (drop 5 (fst k), Some (drop 6 (snd k)))"


section \<open>Examples\<close>

text \<open>A phase of one task, which Puppet reports as done in the first round.\<close>

definition report_example :: puppetdb where
  "report_example =
     \<lparr>db_reports = (\<lambda>c. if c = ''n'' then [\<lparr>rp_version = Some 1, rp_hash = ''h''\<rparr>] else []),
      db_events = (\<lambda>h. [\<lparr>ev_title = ''x'', ev_type = ''notify'', ev_certname = ''n'', ev_status = ''success''\<rparr>]),
      db_resources = (\<lambda>k. [[''task_t'', ''tuuid_t'']]), db_node_resources = (\<lambda>c. [])\<rparr>"

definition round_example :: round where
  "round_example = \<lparr>rd_db = report_example, rd_alive = True, rd_killed = False\<rparr>"

definition limits_example :: wait_limits where
  "limits_example = \<lparr>wl_timeout = 2, wl_poll_freq = 2, wl_poll_count = 1\<rparr>"

definition waiting_puppet :: puppet where
  "waiting_puppet = (new_puppet [])\<lparr>pu_phase_tasks := [''t''], pu_hosts_in_phase := [''n''], pu_processing_nodes := [''n'']\<rparr>"

definition phase_example :: "task list" where
  "phase_example = map snd (xs_tasks (exec_example TaskRunning))"

theorem successful_wait_witness:
  "\<exists>Q u. wait_for_phase exec_env_example limits_example 1 phase_example [round_example]
      (waiting_puppet, exec_example TaskRunning) = Inr (Some (True, Q, u)) \<and>
    state_of_task (xs_plan u) ''t'' = Some TaskSuccess"
proof -
  let ?w = "wait_for_phase exec_env_example limits_example 1 phase_example [round_example]
      (waiting_puppet, exec_example TaskRunning)"
  have "(case ?w of Inr (Some (b, Q, u)) \<Rightarrow> b | _ \<Rightarrow> False)" by code_simp
  then obtain Q u where w: "?w = Inr (Some (True, Q, u))" by (auto split: sum.splits option.splits)
  have "\<not> pu_phase_complete waiting_puppet" "''t'' \<in> set (pu_phase_tasks waiting_puppet)" by code_simp+
  from successful_wait [OF w this] w show ?thesis by blast
qed



end
