(* ===== verification/Spec2Isabelle.thy ===== *)
theory Spec2Isabelle
  imports Topsort Plan Validators Model_Type Model_Cache Query_Item Plan_Creation Puppet_Manifest Puppet_Phase
begin

text \<open>
  A model of the core of LITP, the manager of deployment models: the deployment model and its life
  cycle, and the making and execution of plans. The code is under \<open>src/litp/core\<close>,
  \<open>src/litp/data\<close> and \<open>src/litp/plan_types\<close>.

  \<^bold>\<open>The program.\<close> A deployment is described by a tree of items (\<open>ModelItem\<close>), addressed by vpaths.
  Every item has a type; types are registered by extensions, extend one another and say which
  properties, children, collections and references an item has. Items may inherit their properties
  from an item elsewhere in the tree. The model manager creates, updates and removes items for the
  clients, validating every change; an item remembers the properties that were applied last, and its
  state (\<open>Initial\<close>, \<open>Applied\<close>, \<open>Updated\<close>, \<open>ForRemoval\<close>, \<open>Removed\<close>) says what is left to be done. To
  bring the deployment in line with the model, plugins return tasks; the plan builder puts them into
  phases, and the plan says which phases may run when. The items are rows of a database, read through
  caches.

  \<^bold>\<open>The theories\<close>, each importing those it needs:

  \<^item> \<open>Prelude\<close>: exceptions as values (\<open>'a res\<close>), loops that may raise, dictionaries, texts and paths;
    \<open>guarded_machine\<close>, a locale of machines with guarded steps.
  \<^item> \<open>Validators\<close> (\<open>validators.py\<close>): every validator class as a constructor with its parameters.
  \<^item> \<open>Model_Type\<close> (\<open>model_type.py\<close>, the registry of \<open>model_manager.py\<close>, \<open>model_dependency.py\<close>): property
    and item types, registration, and the relation of extension seen from both ends.
  \<^item> \<open>Model_Item\<close> (\<open>model_item.py\<close>): the columns of an item, inherited properties, updates of properties
    with the settling of the state, and the state machine.
  \<^item> \<open>Model_Store\<close>, \<open>Model_Data_Manager\<close>, \<open>Model_Cache\<close> (\<open>litp/data\<close>): the table of items with its
    queries and backups, the manager that remembers items and answers, and the cache in memory. The
    locale \<open>data_manager\<close> states what a table of items promises; the two caches are shown to answer
    as the table does.
  \<^item> \<open>Model_Lookup\<close>, \<open>Model_Validator\<close>, \<open>Model_Update\<close>, \<open>Model_Create\<close>, \<open>Model_Remove\<close>: the model
    manager and the validator (\<open>model_manager.py\<close>, \<open>model_validator.py\<close>).
  \<^item> \<open>Query_Item\<close>: attributes by name and the class \<open>QueryItem\<close>, the view plugins have of an item.
  \<^item> \<open>Plan\<close> (\<open>plan.py\<close>): phases, the phases a phase waits for, the life cycle, the phases to start.
  \<^item> \<open>Topsort\<close>, \<open>Worklist\<close>, \<open>Py_Sort\<close>: layers of a graph (\<open>topsort.py\<close>), searches level by level, and
    Python's \<open>list.sort\<close> for fewer than 64 elements.
  \<^item> \<open>Task_Args\<close>, \<open>Task\<close> (\<open>task.py\<close>, \<open>task_utils.py\<close>, \<open>task_dependencies.py\<close>): the tasks.
  \<^item> \<open>Task_Groups\<close> (\<open>plan_types\<close>): the rules that put a task into a group, and the order of groups.
  \<^item> \<open>Task_Graph\<close>, \<open>Plan_Phases\<close>, \<open>Plan_Sorting\<close>, \<open>Plan_Builder\<close> (\<open>plan_builder.py\<close>): the dependencies
    between tasks, the phases of a group, the order of groups, clusters and nodes with their locks.
\<close>

end
